(* ===== verification/Prelude.thy ===== *)
theory Prelude
  imports Main "HOL-Library.Word" "HOL-Library.AList" "HOL-Library.Multiset"
begin

unbundle bit_operations_syntax

text \<open>
  Shared vocabulary of the development.

  \<^item> Go's \<open>map[K]V\<close> is an association list with distinct keys (\<open>gomap\<close>): the list order
    is the order in which a \<open>for ... range\<close> loop visits the entries.  Go leaves that order
    unspecified; a lemma about every well-formed \<open>gomap\<close> therefore speaks about every order.
  \<^item> Go's \<open>set.Set[T]\<close> (a \<open>map[T]struct{}\<close>) is a list without repetitions.
  \<^item> Go's \<open>[2]T\<close> arrays are pairs, read and written by \<open>get2\<close> and \<open>set2\<close>.
  \<^item> \<open>int\<close> division truncates towards zero (\<open>go_div\<close>).
\<close>

named_theorems gomap_simps \<open>lookup laws of the association-list model of Go maps\<close>
named_theorems arr2_simps \<open>read/write laws of two-element arrays\<close>

type_synonym ('k, 'v) gomap = "('k \<times> 'v) list"

abbreviation mget :: "('k, 'v) gomap \<Rightarrow> 'k \<Rightarrow> 'v option" where
  "mget m k \<equiv> map_of m k"

abbreviation mput :: "'k \<Rightarrow> 'v \<Rightarrow> ('k, 'v) gomap \<Rightarrow> ('k, 'v) gomap" where
  "mput \<equiv> AList.update"

abbreviation mdel :: "'k \<Rightarrow> ('k, 'v) gomap \<Rightarrow> ('k, 'v) gomap" where
  "mdel \<equiv> AList.delete"

abbreviation mkeys :: "('k, 'v) gomap \<Rightarrow> 'k list" where
  "mkeys m \<equiv> map fst m"

abbreviation wf_map :: "('k, 'v) gomap \<Rightarrow> bool" where
  "wf_map m \<equiv> distinct (map fst m)"

text \<open>Reading a missing key of a Go map gives the zero value of the element type.\<close>

definition mget_or :: "'v \<Rightarrow> ('k, 'v) gomap \<Rightarrow> 'k \<Rightarrow> 'v" where
  "mget_or z m k = (case map_of m k of None \<Rightarrow> z | Some v \<Rightarrow> v)"

lemma mget_mput [gomap_simps, simp]: "mget (mput k v m) k' = (if k' = k then Some v else mget m k')"
  by (simp add: update_conv')

lemma mget_mdel [gomap_simps, simp]: "mget (mdel k m) k' = (if k' = k then None else mget m k')"
  by (simp add: delete_conv')

lemma set_mkeys_mput [gomap_simps, simp]: "fst ` set (mput k v m) = insert k (fst ` set m)"
  by (simp add: dom_update)

lemma set_mkeys_mdel [gomap_simps, simp]: "fst ` set (mdel k m) = fst ` set m - {k}"
  by (metis delete_keys dom_map_of_conv_image_fst list.set_map set_removeAll)

lemma wf_map_mput [simp, intro]: "wf_map m \<Longrightarrow> wf_map (mput k v m)"
  by (rule distinct_update)

lemma wf_map_mdel [simp, intro]: "wf_map m \<Longrightarrow> wf_map (mdel k m)"
  by (rule distinct_delete)

lemma mget_or_mput [gomap_simps, simp]:
  "mget_or z (mput k v m) k' = (if k' = k then v else mget_or z m k')"
  by (simp add: mget_or_def)

lemma mget_or_mdel [gomap_simps, simp]:
  "mget_or z (mdel k m) k' = (if k' = k then z else mget_or z m k')"
  by (simp add: mget_or_def)

lemma mget_or_Nil [simp]: "mget_or z [] k = z"
  by (simp add: mget_or_def)

lemma mget_or_Cons: "mget_or z ((a, v) # m) k = (if k = a then v else mget_or z m k)"
  by (simp add: mget_or_def)

lemma mget_or_notin: "k \<notin> fst ` set m \<Longrightarrow> mget_or z m k = z"
  by (auto simp: mget_or_def split: option.splits dest: map_of_SomeD intro: rev_image_eqI)

lemma mget_Some_key: "mget m k = Some v \<Longrightarrow> k \<in> fst ` set m"
  by (force dest: map_of_SomeD)

lemma key_mget_Some: "k \<in> fst ` set m \<Longrightarrow> \<exists>v. mget m k = Some v"
  by (metis map_of_eq_None_iff not_None_eq)

text \<open>\<open>Set.Pop\<close> takes some element of a nonempty set; \<open>pick\<close> is the choice the run time makes.\<close>

definition pick_ok :: "('a list \<Rightarrow> 'a) \<Rightarrow> bool" where
  "pick_ok pick \<longleftrightarrow> (\<forall>xs. xs \<noteq> [] \<longrightarrow> pick xs \<in> set xs)"

text \<open>Two-element arrays.\<close>

type_synonym 'a arr2 = "'a \<times> 'a"

definition get2 :: "'a arr2 \<Rightarrow> nat \<Rightarrow> 'a" where
  "get2 p i = (if i = 0 then fst p else snd p)"

definition set2 :: "'a arr2 \<Rightarrow> nat \<Rightarrow> 'a \<Rightarrow> 'a arr2" where
  "set2 p i x = (if i = 0 then (x, snd p) else (fst p, x))"

lemma get2_set2 [arr2_simps, simp]:
  "get2 (set2 p i x) j = (if (i = 0) = (j = 0) then x else get2 p j)"
  by (simp add: get2_def set2_def)

lemma get2_pair [arr2_simps, simp]: "get2 (x, y) 0 = x" "get2 (x, y) (Suc 0) = y"
  by (simp_all add: get2_def)

lemma bit_nat_cases: "i < (2::nat) \<Longrightarrow> (i = 0 \<Longrightarrow> P) \<Longrightarrow> (i = 1 \<Longrightarrow> P) \<Longrightarrow> P"
  by linarith

text \<open>Go's integer division truncates towards zero.\<close>

definition go_div :: "int \<Rightarrow> int \<Rightarrow> int" where
  "go_div a b = sgn a * sgn b * (\<bar>a\<bar> div \<bar>b\<bar>)"

lemma go_div_nonneg: "0 \<le> a \<Longrightarrow> 0 < b \<Longrightarrow> go_div a b = a div b"
  by (cases "a = 0") (auto simp: go_div_def)

text \<open>The sum of the values of a map.\<close>

definition msum :: "('k, int) gomap \<Rightarrow> int" where
  "msum m = sum_list (map snd m)"

lemma msum_Nil [simp]: "msum [] = 0"
  by (simp add: msum_def)

lemma msum_Cons [simp]: "msum (kv # m) = snd kv + msum m"
  by (simp add: msum_def)

lemma msum_mput: "wf_map m \<Longrightarrow> msum (mput k v m) = msum m - mget_or 0 m k + v"
proof (induction m)
  case (Cons kv m)
  obtain a w where [simp]: "kv = (a, w)" by (cases kv)
  from Cons show ?case by (auto simp: mget_or_Cons mget_or_notin)
qed simp

lemma msum_mdel: "wf_map m \<Longrightarrow> msum (mdel k m) = msum m - mget_or 0 m k"
proof (induction m)
  case (Cons kv m)
  obtain a w where [simp]: "kv = (a, w)" by (cases kv)
  show ?case
  proof (cases "k = a")
    case True
    with Cons.prems have "k \<notin> fst ` set m" by simp
    with True show ?thesis by (simp add: mget_or_Cons delete_idem)
  next
    case False
    with Cons show ?thesis by (simp add: mget_or_Cons)
  qed
qed simp

end
