(* ===== verification/SafeMath.thy ===== *)
theory SafeMath
  imports Prelude
begin

text \<open>
  Checked unsigned arithmetic (\<open>src/utils/math/safe_math.go\<close>).  The Go functions are generic in
  the unsigned type; the model is generic in the word length.  The two error variables are the
  values of \<open>math_error\<close>, and a failing call returns \<open>Inl\<close>.  Each definition keeps the guard of
  the code; the lemmas say that the guard detects exactly the overflow.
\<close>

datatype math_error = ErrOverflow | ErrUnderflow

definition MaxUint :: "'a::len word" where
  "MaxUint = NOT 0"

definition Add :: "'a::len word \<Rightarrow> 'a word \<Rightarrow> math_error + 'a word" where
  "Add a b = (if a > MaxUint - b then Inl ErrOverflow else Inr (a + b))"

definition Sub :: "'a::len word \<Rightarrow> 'a word \<Rightarrow> math_error + 'a word" where
  "Sub a b = (if a < b then Inl ErrUnderflow else Inr (a - b))"

definition Mul :: "'a::len word \<Rightarrow> 'a word \<Rightarrow> math_error + 'a word" where
  "Mul a b = (if b \<noteq> 0 \<and> a > MaxUint div b then Inl ErrOverflow else Inr (a * b))"

definition AbsDiff :: "'a::len word \<Rightarrow> 'a word \<Rightarrow> 'a word" where
  "AbsDiff a b = max a b - min a b"

lemma unat_MaxUint: "unat (MaxUint :: 'a::len word) = 2 ^ LENGTH('a) - 1"
  by (simp add: MaxUint_def unsigned_minus_1_eq_mask mask_eq_exp_minus_1)

lemma unat_lt_pow: "unat (x :: 'a::len word) \<le> 2 ^ LENGTH('a) - 1"
proof -
  have "unat x < 2 ^ LENGTH('a)" by (rule unsigned_less)
  then show ?thesis by linarith
qed

lemma Add_guard:
  "(a :: 'a::len word) > MaxUint - b \<longleftrightarrow> 2 ^ LENGTH('a) \<le> unat a + unat b"
proof -
  have "b \<le> MaxUint" by (simp add: MaxUint_def)
  then have "unat (MaxUint - b) = 2 ^ LENGTH('a) - 1 - unat b"
    by (simp add: unat_sub unat_MaxUint)
  moreover have "unat b < 2 ^ LENGTH('a)" by (rule unsigned_less)
  ultimately show ?thesis unfolding word_less_nat_alt by linarith
qed

lemma Mul_guard:
  "b \<noteq> 0 \<and> (a :: 'a::len word) > MaxUint div b \<longleftrightarrow> 2 ^ LENGTH('a) \<le> unat a * unat b"
proof (cases "b = 0")
  case False
  then have b: "0 < unat b" by (simp add: unat_gt_0)
  have "a > MaxUint div b \<longleftrightarrow> (2 ^ LENGTH('a) - 1) div unat b < unat a"
    by (simp add: word_less_nat_alt unat_div unat_MaxUint)
  also have "\<dots> \<longleftrightarrow> 2 ^ LENGTH('a) - 1 < unat a * unat b"
    using b by (simp add: div_less_iff_less_mult)
  also have "\<dots> \<longleftrightarrow> 2 ^ LENGTH('a) \<le> unat a * unat b"
    by (metis One_nat_def Suc_le_eq Suc_pred zero_less_numeral zero_less_power)
  finally show ?thesis using False by simp
qed simp

text \<open>Exact results: the value of the mathematical operation, or the error when it does not fit.\<close>

lemma Add_cases:
  "Add a b = (if unat a + unat (b :: 'a::len word) < 2 ^ LENGTH('a) then Inr (a + b) else Inl ErrOverflow)"
  unfolding Add_def Add_guard by simp

lemma Mul_cases:
  "Mul a b = (if unat a * unat (b :: 'a::len word) < 2 ^ LENGTH('a) then Inr (a * b) else Inl ErrOverflow)"
  unfolding Mul_def Mul_guard by simp

lemma Add_InrD: "Add a b = Inr c \<Longrightarrow> unat (c :: 'a::len word) = unat a + unat b"
  by (auto simp: Add_cases unat_word_ariths split: if_splits)

lemma Sub_InrD: "Sub a b = Inr c \<Longrightarrow> unat (c :: 'a::len word) = unat a - unat b \<and> unat b \<le> unat a"
  by (auto simp: Sub_def not_less unat_sub word_le_nat_alt split: if_splits)

lemma Mul_InrD: "Mul a b = Inr c \<Longrightarrow> unat (c :: 'a::len word) = unat a * unat b"
  by (auto simp: Mul_cases unat_word_ariths split: if_splits)

lemma Add_InlD: "Add a b = Inl e \<Longrightarrow> e = ErrOverflow \<and> 2 ^ LENGTH('a) \<le> unat a + unat (b :: 'a::len word)"
  by (auto simp: Add_cases split: if_splits)

lemma Sub_InlD: "Sub a b = Inl e \<Longrightarrow> e = ErrUnderflow \<and> unat (a :: 'a::len word) < unat b"
  by (auto simp: Sub_def word_less_nat_alt split: if_splits)

lemma Mul_InlD: "Mul a b = Inl e \<Longrightarrow> e = ErrOverflow \<and> 2 ^ LENGTH('a) \<le> unat a * unat (b :: 'a::len word)"
  by (auto simp: Mul_cases split: if_splits)

lemma AbsDiff_unat:
  "unat (AbsDiff a b) = (if unat a \<le> unat (b :: 'a::len word) then unat b - unat a else unat a - unat b)"
  by (auto simp: AbsDiff_def max_def min_def unat_sub word_le_nat_alt)

subsection \<open>Properties\<close>

text \<open>
  C35.  The checked operations return the exact mathematical result when it fits the type, and
  otherwise the overflow or underflow error; \<open>AbsDiff\<close> is the exact distance.
\<close>

theorem safe_math_exact:
  fixes a b :: "'a::len word"
  shows "(case Add a b of Inr c \<Rightarrow> unat c = unat a + unat b
          | Inl e \<Rightarrow> e = ErrOverflow \<and> 2 ^ LENGTH('a) \<le> unat a + unat b) \<and>
    (case Sub a b of Inr c \<Rightarrow> int (unat c) = int (unat a) - int (unat b)
          | Inl e \<Rightarrow> e = ErrUnderflow \<and> unat a < unat b) \<and>
    (case Mul a b of Inr c \<Rightarrow> unat c = unat a * unat b
          | Inl e \<Rightarrow> e = ErrOverflow \<and> 2 ^ LENGTH('a) \<le> unat a * unat b) \<and>
    int (unat (AbsDiff a b)) = \<bar>int (unat a) - int (unat b)\<bar>"
proof (intro conjI)
  show "case Add a b of Inr c \<Rightarrow> unat c = unat a + unat b
      | Inl e \<Rightarrow> e = ErrOverflow \<and> 2 ^ LENGTH('a) \<le> unat a + unat b"
    by (cases "Add a b") (simp_all only: sum.case Add_InrD Add_InlD)
  show "case Sub a b of Inr c \<Rightarrow> int (unat c) = int (unat a) - int (unat b)
      | Inl e \<Rightarrow> e = ErrUnderflow \<and> unat a < unat b"
  proof (cases "Sub a b")
    case (Inr c)
    from Sub_InrD [OF Inr] have "int (unat c) = int (unat a) - int (unat b)" by linarith
    then show ?thesis by (simp only: Inr sum.case)
  qed (simp only: sum.case Sub_InlD)
  show "case Mul a b of Inr c \<Rightarrow> unat c = unat a * unat b
      | Inl e \<Rightarrow> e = ErrOverflow \<and> 2 ^ LENGTH('a) \<le> unat a * unat b"
    by (cases "Mul a b") (simp_all only: sum.case Mul_InrD Mul_InlD)
  show "int (unat (AbsDiff a b)) = \<bar>int (unat a) - int (unat b)\<bar>"
    unfolding AbsDiff_unat by (cases "unat a \<le> unat b"; simp only: if_True if_False; linarith)
qed

end
