(* ===== verification/Bag.thy ===== *)
theory Bag
  imports Prelude
begin

text \<open>
  The multiset of votes (\<open>src/utils/bag/bag.go\<close>).  A \<open>Bag\<close> keeps a map from elements to
  counts, the total size, a threshold and the set of elements whose cnt reached it.  The
  operations follow the Go methods; \<open>bag_inv\<close> is the invariant every operation keeps, and
  \<open>bag_mset\<close> reads a bag as a multiset.  The locale \<open>vote_bag\<close> is the interface the consensus
  code relies on.
\<close>

record 'a bag =
  counts :: "('a, int) gomap"
  bag_size :: int
  bag_threshold :: int
  metThreshold :: "'a list"

definition empty_bag :: "'a bag" where
  "empty_bag = \<lparr>counts = [], bag_size = 0, bag_threshold = 0, metThreshold = []\<rparr>"

definition AddCount :: "'a \<Rightarrow> int \<Rightarrow> 'a bag \<Rightarrow> 'a bag" where
  "AddCount elt cnt b =
     (if cnt \<le> 0 then b
      else
        let totalCount = mget_or 0 (counts b) elt + cnt;
            b = b\<lparr>counts := mput elt totalCount (counts b), bag_size := bag_size b + cnt\<rparr>
        in if totalCount \<ge> bag_threshold b
           then b\<lparr>metThreshold := List.insert elt (metThreshold b)\<rparr> else b)"

definition bag_Add :: "'a list \<Rightarrow> 'a bag \<Rightarrow> 'a bag" where
  "bag_Add elts b = fold (\<lambda>elt. AddCount elt 1) elts b"

definition bag_Of :: "'a list \<Rightarrow> 'a bag" where
  "bag_Of elts = bag_Add elts empty_bag"

definition SetThreshold :: "int \<Rightarrow> 'a bag \<Rightarrow> 'a bag" where
  "SetThreshold th b =
     (if bag_threshold b = th then b
      else b\<lparr>bag_threshold := th,
             metThreshold := fold (\<lambda>(vote, cnt) s. if cnt \<ge> th then List.insert vote s else s)
                                  (counts b) []\<rparr>)"

definition Count :: "'a bag \<Rightarrow> 'a \<Rightarrow> int" where
  "Count b elt = mget_or 0 (counts b) elt"

definition bag_Len :: "'a bag \<Rightarrow> int" where
  "bag_Len b = bag_size b"

definition bag_List :: "'a bag \<Rightarrow> 'a list" where
  "bag_List b = mkeys (counts b)"

definition bag_Equals :: "'a bag \<Rightarrow> 'a bag \<Rightarrow> bool" where
  "bag_Equals b other \<longleftrightarrow>
     bag_size b = bag_size other \<and>
     length (counts b) = length (counts other) \<and>
     list_all (\<lambda>(k, v). mget (counts other) k = Some v) (counts b)"

definition Mode :: "'a \<Rightarrow> 'a bag \<Rightarrow> 'a \<times> int" where
  "Mode zero b =
     fold (\<lambda>(elt, cnt) (mode, modeFreq). if cnt > modeFreq then (elt, cnt) else (mode, modeFreq))
          (counts b) (zero, 0)"

definition Threshold :: "'a bag \<Rightarrow> 'a list" where
  "Threshold b = metThreshold b"

definition Filter :: "('a \<Rightarrow> bool) \<Rightarrow> 'a bag \<Rightarrow> 'a bag" where
  "Filter filterFunc b =
     fold (\<lambda>(vote, cnt) newBag. if filterFunc vote then AddCount vote cnt newBag else newBag)
          (counts b) empty_bag"

definition Split :: "('a \<Rightarrow> bool) \<Rightarrow> 'a bag \<Rightarrow> 'a bag arr2" where
  "Split splitFunc b =
     fold (\<lambda>(vote, cnt) splitVotes.
             if splitFunc vote then set2 splitVotes 1 (AddCount vote cnt (get2 splitVotes 1))
             else set2 splitVotes 0 (AddCount vote cnt (get2 splitVotes 0)))
          (counts b) (empty_bag, empty_bag)"

definition Remove :: "'a \<Rightarrow> 'a bag \<Rightarrow> 'a bag" where
  "Remove elt b =
     (let cnt = mget_or 0 (counts b) elt
      in b\<lparr>counts := mdel elt (counts b), bag_size := bag_size b - cnt\<rparr>)"

definition bag_Clone :: "'a bag \<Rightarrow> 'a bag" where
  "bag_Clone b = fold (\<lambda>(elt, cnt) clone. AddCount elt cnt clone) (counts b) empty_bag"

subsection \<open>The invariant\<close>

definition bag_inv :: "'a bag \<Rightarrow> bool" where
  "bag_inv b \<longleftrightarrow>
     wf_map (counts b) \<and> (\<forall>(k, v) \<in> set (counts b). 0 < v) \<and> bag_size b = msum (counts b)"

lemma bag_invD:
  assumes "bag_inv b"
  shows "wf_map (counts b)" "mget (counts b) k = Some v \<Longrightarrow> 0 < v" "bag_size b = msum (counts b)"
  using assms by (auto simp: bag_inv_def dest: map_of_SomeD)

lemma bag_invI:
  assumes "wf_map (counts b)" "\<And>k v. mget (counts b) k = Some v \<Longrightarrow> 0 < v" "bag_size b = msum (counts b)"
  shows "bag_inv b"
  using assms by (auto simp: bag_inv_def)

lemma bag_inv_empty [simp, intro]: "bag_inv empty_bag"
  by (simp add: bag_inv_def empty_bag_def)

lemma counts_AddCount [simp]:
  "counts (AddCount e n b) = (if n \<le> 0 then counts b else mput e (mget_or 0 (counts b) e + n) (counts b))"
  by (simp add: AddCount_def Let_def)

lemma size_AddCount [simp]: "bag_size (AddCount e n b) = (if n \<le> 0 then bag_size b else bag_size b + n)"
  by (simp add: AddCount_def Let_def)

lemma threshold_AddCount [simp]: "bag_threshold (AddCount e n b) = bag_threshold b"
  by (simp add: AddCount_def Let_def)

lemma mget_or_nonneg: "bag_inv b \<Longrightarrow> 0 \<le> mget_or 0 (counts b) e"
  by (auto simp: mget_or_def split: option.splits dest: bag_invD(2))

lemma Count_nonneg [simp]: "bag_inv b \<Longrightarrow> 0 \<le> Count b e"
  by (simp add: Count_def mget_or_nonneg)

lemma Count_pos_iff: "bag_inv b \<Longrightarrow> 0 < Count b e \<longleftrightarrow> e \<in> set (bag_List b)"
  unfolding Count_def bag_List_def
  by (auto simp: mget_or_def bag_invD(2) map_of_eq_None_iff split: option.splits dest: mget_Some_key)

lemma bag_inv_AddCount [simp, intro]:
  assumes "bag_inv b"
  shows "bag_inv (AddCount e n b)"
proof (cases "n \<le> 0")
  case False
  show ?thesis
  proof (rule bag_invI)
    show "wf_map (counts (AddCount e n b))" using bag_invD(1) [OF assms] by auto
    show "0 < v" if "mget (counts (AddCount e n b)) k = Some v" for k v
      using that False mget_or_nonneg [OF assms, of e] bag_invD(2) [OF assms]
      by (auto split: if_splits)
    show "bag_size (AddCount e n b) = msum (counts (AddCount e n b))"
      using False bag_invD(1,3) [OF assms] by (simp add: msum_mput)
  qed
qed (use assms in \<open>simp add: AddCount_def\<close>)

lemma Count_empty [simp]: "Count empty_bag e = 0"
  by (simp add: Count_def empty_bag_def)

lemma Len_empty [simp]: "bag_Len empty_bag = 0"
  by (simp add: bag_Len_def empty_bag_def)

lemma Count_AddCount [simp]:
  "Count (AddCount e n b) e' = Count b e' + (if e' = e \<and> 0 < n then n else 0)"
  by (simp add: Count_def)

lemma Len_AddCount [simp]: "bag_Len (AddCount e n b) = bag_Len b + (if 0 < n then n else 0)"
  by (simp add: bag_Len_def)

lemma bag_inv_Add [simp, intro]: "bag_inv b \<Longrightarrow> bag_inv (bag_Add es b)"
  unfolding bag_Add_def by (induction es arbitrary: b) auto

lemma bag_inv_Of [simp, intro]: "bag_inv (bag_Of es)"
  by (simp add: bag_Of_def)

lemma bag_inv_SetThreshold [simp, intro]: "bag_inv b \<Longrightarrow> bag_inv (SetThreshold th b)"
  by (simp add: SetThreshold_def bag_inv_def)

lemma bag_inv_Remove [simp, intro]:
  assumes "bag_inv b"
  shows "bag_inv (Remove e b)"
  using bag_invD [OF assms]
  by (intro bag_invI) (auto simp: Remove_def Let_def msum_mdel split: if_splits)

lemma Count_Remove [simp]: "Count (Remove e b) e' = (if e' = e then 0 else Count b e')"
  by (simp add: Count_def Remove_def Let_def)

lemma Len_Remove [simp]: "bag_Len (Remove e b) = bag_Len b - Count b e"
  by (simp add: bag_Len_def Count_def Remove_def Let_def)

lemma Len_eq_sum: "bag_inv b \<Longrightarrow> bag_Len b = msum (counts b)"
  by (simp add: bag_Len_def bag_inv_def)

lemma msum_nonneg: "\<forall>(k, v) \<in> set m. 0 < v \<Longrightarrow> 0 \<le> msum m"
  by (induction m) fastforce+

lemma Len_nonneg [simp]: "bag_inv b \<Longrightarrow> 0 \<le> bag_Len b"
  by (simp add: Len_eq_sum msum_nonneg bag_inv_def)

subsection \<open>Rebuilding a bag from its entries\<close>

text \<open>
  \<open>Filter\<close>, \<open>Split\<close> and \<open>Clone\<close> add the selected entries one by one to fresh bags.  All three
  are instances of one loop, \<open>add_entries\<close>.
\<close>

definition add_entries :: "('a \<times> int) list \<Rightarrow> 'a bag \<Rightarrow> 'a bag" where
  "add_entries = fold (\<lambda>(vote, cnt). AddCount vote cnt)"

lemma add_entries_simps [simp]:
  "add_entries [] b = b" "add_entries ((k, n) # es) b = add_entries es (AddCount k n b)"
  by (simp_all add: add_entries_def)

lemma bag_inv_add_entries [simp, intro]: "bag_inv b \<Longrightarrow> bag_inv (add_entries es b)"
  by (induction es arbitrary: b) auto

lemma Count_add_entries:
  "wf_map es \<Longrightarrow> \<forall>(k, v) \<in> set es. 0 < v \<Longrightarrow> Count (add_entries es b) e = Count b e + mget_or 0 es e"
  by (induction es arbitrary: b) (fastforce simp: mget_or_Cons mget_or_notin)+

lemma Len_add_entries:
  "\<forall>(k, v) \<in> set es. 0 < v \<Longrightarrow> bag_Len (add_entries es b) = bag_Len b + msum es"
  by (induction es arbitrary: b) fastforce+

lemma fold_if_add_entries:
  "fold (\<lambda>(vote, cnt) nb. if P vote then AddCount vote cnt nb else nb) es b =
     add_entries (filter (P \<circ> fst) es) b"
  by (induction es arbitrary: b) (auto simp: add_entries_def)

lemma Filter_add_entries: "Filter P b = add_entries (filter (P \<circ> fst) (counts b)) empty_bag"
  by (simp add: Filter_def fold_if_add_entries)

lemma Clone_add_entries: "bag_Clone b = add_entries (counts b) empty_bag"
  by (simp add: bag_Clone_def add_entries_def)

lemma Split_add_entries:
  "Split P b = (add_entries (filter (Not \<circ> P \<circ> fst) (counts b)) empty_bag,
                add_entries (filter (P \<circ> fst) (counts b)) empty_bag)"
proof -
  have "fold (\<lambda>(vote, cnt) sv.
          if P vote then set2 sv 1 (AddCount vote cnt (get2 sv 1))
          else set2 sv 0 (AddCount vote cnt (get2 sv 0))) es (x, y) =
        (add_entries (filter (Not \<circ> P \<circ> fst) es) x, add_entries (filter (P \<circ> fst) es) y)"
    for es and x y :: "'a bag"
    by (induction es arbitrary: x y) (auto simp: set2_def get2_def)
  then show ?thesis by (simp add: Split_def)
qed

lemma Split_Filter: "Split P b = (Filter (Not \<circ> P) b, Filter P b)"
  by (simp add: Split_add_entries Filter_add_entries comp_assoc)

lemma mget_or_filter:
  "mget_or z (filter (P \<circ> fst) m) k = (if P k then mget_or z m k else z)"
  by (induction m) (auto simp: mget_or_Cons)

lemma bag_inv_Filter [simp, intro]: "bag_inv (Filter P b)"
  by (simp add: Filter_add_entries)

lemma Count_Filter: "bag_inv b \<Longrightarrow> Count (Filter P b) e = (if P e then Count b e else 0)"
  unfolding Filter_add_entries
  by (subst Count_add_entries)
    (auto simp: bag_inv_def distinct_map_filter mget_or_filter Count_def [of b])

lemma Len_Filter: "bag_inv b \<Longrightarrow> bag_Len (Filter P b) = msum (filter (P \<circ> fst) (counts b))"
  unfolding Filter_add_entries by (subst Len_add_entries) (auto simp: bag_inv_def)

lemma msum_filter_compl: "msum (filter P m) + msum (filter (Not \<circ> P) m) = msum m"
  by (induction m) auto

lemma Len_Filter_compl: "bag_inv b \<Longrightarrow> bag_Len (Filter P b) + bag_Len (Filter (Not \<circ> P) b) = bag_Len b"
  using msum_filter_compl [of "P \<circ> fst" "counts b"]
  by (simp add: Len_Filter Len_eq_sum [of b] comp_assoc)

lemma Len_Filter_le: "bag_inv b \<Longrightarrow> bag_Len (Filter P b) \<le> bag_Len b"
  using Len_Filter_compl [of b P] Len_nonneg [OF bag_inv_Filter, of "Not \<circ> P" b] by linarith

lemma bag_inv_Clone [simp, intro]: "bag_inv (bag_Clone b)"
  by (simp add: Clone_add_entries)

lemma Count_Clone: "bag_inv b \<Longrightarrow> Count (bag_Clone b) e = Count b e"
  unfolding Clone_add_entries by (subst Count_add_entries) (auto simp: bag_inv_def Count_def [of b])

lemma Len_Clone: "bag_inv b \<Longrightarrow> bag_Len (bag_Clone b) = bag_Len b"
  unfolding Clone_add_entries by (subst Len_add_entries) (auto simp: bag_inv_def bag_Len_def [of b])

lemma set_bag_List_Filter: "bag_inv b \<Longrightarrow> set (bag_List (Filter P b)) = {x \<in> set (bag_List b). P x}"
  by (auto simp: Count_pos_iff [symmetric] Count_Filter split: if_splits)

subsection \<open>The most common element\<close>

lemma Mode_fold:
  fixes m :: "('a, int) gomap"
  assumes "\<forall>(k, v) \<in> set m. 0 < v" "wf_map m"
    and "fold (\<lambda>(elt, cnt) (mode, modeFreq). if cnt > modeFreq then (elt, cnt) else (mode, modeFreq))
           m (z, f) = (r, fr)"
  shows "f \<le> fr \<and> (\<forall>(k, v) \<in> set m. v \<le> fr) \<and> ((r, fr) = (z, f) \<or> (r, fr) \<in> set m)"
  using assms
proof (induction m arbitrary: z f)
  case (Cons kv m)
  obtain k v where [simp]: "kv = (k, v)" by (cases kv)
  show ?case
  proof (cases "v > f")
    case True
    then have "v \<le> fr \<and> (\<forall>(k, v) \<in> set m. v \<le> fr) \<and> ((r, fr) = (k, v) \<or> (r, fr) \<in> set m)"
      using Cons by simp
    then show ?thesis using True by auto
  next
    case False
    then have "f \<le> fr \<and> (\<forall>(k, v) \<in> set m. v \<le> fr) \<and> ((r, fr) = (z, f) \<or> (r, fr) \<in> set m)"
      using Cons by simp
    then show ?thesis using False by auto
  qed
qed simp

lemma Mode_spec:
  assumes "bag_inv b" "Mode z b = (r, fr)"
  shows "\<And>x. Count b x \<le> fr" and "0 < fr \<Longrightarrow> Count b r = fr"
    and "fr = 0 \<longleftrightarrow> bag_List b = []" and "0 \<le> fr"
proof -
  have pos: "\<forall>(k, v) \<in> set (counts b). 0 < v" and wf: "wf_map (counts b)"
    using assms(1) by (auto simp: bag_inv_def)
  note m = Mode_fold [OF pos wf assms(2) [unfolded Mode_def]]
  show "0 \<le> fr" using m by simp
  then show "Count b x \<le> fr" for x
    using m by (fastforce simp: Count_def mget_or_def split: option.splits dest: map_of_SomeD)
  show "Count b r = fr" if "0 < fr"
    using m that wf by (auto simp: Count_def mget_or_def)
  show "fr = 0 \<longleftrightarrow> bag_List b = []"
    using m pos by (cases "counts b") (auto simp: bag_List_def)
qed

subsection \<open>Thresholds\<close>

text \<open>
  \<open>met_exact\<close>: the threshold set holds exactly the elements whose count reached the threshold.
  Every operation but \<open>Remove\<close> keeps it; \<open>Remove\<close> leaves the element in the set.
\<close>

definition met_exact :: "'a bag \<Rightarrow> bool" where
  "met_exact b \<longleftrightarrow> set (metThreshold b) = {x. mget (counts b) x \<noteq> None \<and> bag_threshold b \<le> Count b x}"

lemma met_exact_empty [simp]: "met_exact empty_bag"
  by (simp add: met_exact_def empty_bag_def)

lemma metThreshold_AddCount:
  "set (metThreshold (AddCount e n b)) =
     (if 0 < n \<and> bag_threshold b \<le> Count b e + n then insert e (set (metThreshold b)) else set (metThreshold b))"
  by (simp add: AddCount_def Let_def Count_def)

lemma met_exact_AddCount [simp, intro]: "met_exact b \<Longrightarrow> met_exact (AddCount e n b)"
  by (auto simp: met_exact_def metThreshold_AddCount split: if_splits)

lemma met_exact_Add [simp, intro]: "met_exact b \<Longrightarrow> met_exact (bag_Add es b)"
  unfolding bag_Add_def by (induction es arbitrary: b) auto

lemma met_exact_add_entries [simp, intro]: "met_exact b \<Longrightarrow> met_exact (add_entries es b)"
  by (induction es arbitrary: b) auto

lemma fold_SetThreshold:
  "set (fold (\<lambda>(vote, cnt) s. if cnt \<ge> th then List.insert vote s else s) m s0) =
     set s0 \<union> {k. \<exists>v. (k, v) \<in> set m \<and> th \<le> v}"
  by (induction m arbitrary: s0) (auto split: if_splits)

lemma met_exact_SetThreshold:
  "bag_inv b \<Longrightarrow> met_exact b \<or> bag_threshold b \<noteq> th \<Longrightarrow> met_exact (SetThreshold th b)"
  by (auto simp: met_exact_def SetThreshold_def fold_SetThreshold Count_def mget_or_def bag_invD(1)
      split: option.splits dest: eq_key_imp_eq_value [OF bag_invD(1)])

subsection \<open>Bags are multisets\<close>

definition bag_mset :: "'a bag \<Rightarrow> 'a multiset" where
  "bag_mset b = sum_list (map (\<lambda>(x, n). replicate_mset (nat n) x) (counts b))"

lemma count_bag_mset: "bag_inv b \<Longrightarrow> count (bag_mset b) x = nat (Count b x)"
proof -
  have "count (sum_list (map (\<lambda>(x, n). replicate_mset (nat n) x) m)) x = nat (mget_or 0 m x)"
    if "wf_map m" for m :: "('a, int) gomap"
    using that
  proof (induction m)
    case (Cons kv m)
    then show ?case by (cases kv) (auto simp: mget_or_Cons mget_or_notin)
  qed simp
  then show "bag_inv b \<Longrightarrow> count (bag_mset b) x = nat (Count b x)"
    by (simp add: bag_mset_def Count_def bag_inv_def)
qed

lemma size_bag_mset: "bag_inv b \<Longrightarrow> int (size (bag_mset b)) = bag_Len b"
proof -
  have "int (size (sum_list (map (\<lambda>(x, n). replicate_mset (nat n) x) m))) = msum m"
    if "\<forall>(k, v) \<in> set m. 0 < v" for m :: "('a, int) gomap"
    using that by (induction m) auto
  then show "bag_inv b \<Longrightarrow> int (size (bag_mset b)) = bag_Len b"
    by (simp add: bag_mset_def bag_Len_def bag_inv_def)
qed

lemma bag_mset_empty [simp]: "bag_mset empty_bag = {#}"
  by (simp add: bag_mset_def empty_bag_def)

lemma bag_mset_AddCount:
  "bag_inv b \<Longrightarrow> bag_mset (AddCount e n b) = bag_mset b + replicate_mset (nat n) e"
  by (rule multiset_eqI) (auto simp: count_bag_mset nat_add_distrib)

lemma bag_mset_Add: "bag_inv b \<Longrightarrow> bag_mset (bag_Add es b) = bag_mset b + mset es"
  unfolding bag_Add_def by (induction es arbitrary: b) (auto simp: bag_mset_AddCount)

lemma bag_mset_Of: "bag_mset (bag_Of es) = mset es"
  by (simp add: bag_Of_def bag_mset_Add)

lemma bag_mset_Filter: "bag_inv b \<Longrightarrow> bag_mset (Filter P b) = filter_mset P (bag_mset b)"
  by (rule multiset_eqI) (auto simp: count_bag_mset Count_Filter)

lemma bag_mset_Remove: "bag_inv b \<Longrightarrow> bag_mset (Remove e b) = filter_mset (\<lambda>x. x \<noteq> e) (bag_mset b)"
  by (rule multiset_eqI) (auto simp: count_bag_mset)

lemma bag_mset_Clone: "bag_inv b \<Longrightarrow> bag_mset (bag_Clone b) = bag_mset b"
  by (rule multiset_eqI) (auto simp: count_bag_mset Count_Clone)

text \<open>
  \<open>vote_bag\<close> is what the consensus code needs of a bag of votes: counting, the total, and the
  restriction to the votes that satisfy a predicate.  The lemmas of the locale are the vote
  counting arguments of the consensus proofs.
\<close>

locale vote_bag =
  fixes inv :: "'b \<Rightarrow> bool"
    and cnt :: "'b \<Rightarrow> 'a \<Rightarrow> int"
    and len :: "'b \<Rightarrow> int"
    and restrict :: "('a \<Rightarrow> bool) \<Rightarrow> 'b \<Rightarrow> 'b"
  assumes inv_restrict: "inv (restrict P b)"
    and cnt_restrict: "inv b \<Longrightarrow> cnt (restrict P b) x = (if P x then cnt b x else 0)"
    and len_compl: "inv b \<Longrightarrow> len (restrict P b) + len (restrict (Not \<circ> P) b) = len b"
    and len_nonneg: "inv b \<Longrightarrow> 0 \<le> len b"
begin

lemma len_restrict_le: "inv b \<Longrightarrow> len (restrict P b) \<le> len b"
  using len_compl [of b P] len_nonneg [OF inv_restrict, of "Not \<circ> P" b] by linarith

text \<open>Two complementary parts of a poll cannot both reach a majority of it.\<close>

lemma one_majority:
  assumes "inv b" "len b < 2 * alpha" "alpha \<le> len (restrict P b)"
  shows "len (restrict (Not \<circ> P) b) < alpha"
  using len_compl [OF assms(1), of P] assms(2,3) by linarith

end

interpretation bag: vote_bag bag_inv Count bag_Len Filter
  by unfold_locales (simp_all add: Count_Filter Len_Filter_compl)

subsection \<open>Properties\<close>

text \<open>
  C33.  A bag is a multiset: its operations refine the multiset operations of the same meaning,
  \<open>Len\<close> is the size and \<open>Count\<close> the multiplicity.
\<close>

theorem bag_refines_multiset:
  assumes "bag_inv b"
  shows "bag_mset (bag_Add es b) = bag_mset b + mset es \<and>
    bag_mset (Filter P b) = filter_mset P (bag_mset b) \<and>
    bag_mset (Remove e b) = filter_mset (\<lambda>x. x \<noteq> e) (bag_mset b) \<and>
    bag_mset (bag_Clone b) = bag_mset b \<and>
    int (size (bag_mset b)) = bag_Len b \<and> int (count (bag_mset b) e) = Count b e"
  using assms
  by (simp add: bag_mset_Add bag_mset_Filter bag_mset_Remove bag_mset_Clone size_bag_mset count_bag_mset)

theorem bag_refines_multiset_witness:
  "bag_mset (bag_Add [1, 2] (bag_Of [2 :: nat, 3])) = {#1, 2, 2, 3#} \<and>
   bag_mset (Remove 2 (bag_Of [2 :: nat, 3])) = {#3#}"
  using bag_refines_multiset [OF bag_inv_Of, of "[1, 2]" "[2 :: nat, 3]" "\<lambda>_. True" 2]
  by (simp add: bag_mset_Of)

text \<open>
  C34.  \<open>Split\<close> partitions a bag: its two parts are the restrictions to the elements that fail and
  that satisfy the predicate, and no vote is lost or counted twice.
\<close>

theorem Split_partitions:
  assumes "bag_inv b"
  shows "fst (Split P b) = Filter (Not \<circ> P) b \<and> snd (Split P b) = Filter P b \<and>
    bag_Len (fst (Split P b)) + bag_Len (snd (Split P b)) = bag_Len b"
  using Len_Filter_compl [OF assms, of P] by (simp add: Split_Filter)

theorem Split_partitions_witness:
  "bag_Len (fst (Split even (bag_Of [1 :: nat, 2, 4]))) + bag_Len (snd (Split even (bag_Of [1 :: nat, 2, 4]))) = 3"
  using Split_partitions [OF bag_inv_Of, of even "[1 :: nat, 2, 4]", THEN conjunct2, THEN conjunct2]
  by (simp add: bag_Of_def bag_Add_def)

text \<open>
  \<open>Mode\<close> returns the largest count in the bag together with an element that has it; it returns
  the zero count exactly for the empty bag.
\<close>

theorem Mode_most_common:
  assumes "bag_inv b" "Mode z b = (x, n)"
  shows "(\<forall>y. Count b y \<le> n) \<and> (n = 0 \<longleftrightarrow> bag_List b = []) \<and> (n \<noteq> 0 \<longrightarrow> Count b x = n)"
  using Mode_spec [OF assms] by auto

theorem Mode_most_common_witness:
  "\<forall>y. Count (bag_Of [1 :: nat, 2, 2]) y \<le> 2"
  using Mode_most_common [OF bag_inv_Of, of 0 "[1 :: nat, 2, 2]" 2 2]
  by (simp add: Mode_def bag_Of_def bag_Add_def AddCount_def empty_bag_def Let_def mget_or_def)

end
