(* ===== verification/Ids.thy ===== *)
theory Ids
  imports Prelude
begin

text \<open>
  Identifiers (\<open>src/ids\<close>).  An \<open>ID\<close> is Go's \<open>[32]byte\<close>, held as one 256-bit word whose
  byte \<open>k\<close> occupies the bits \<open>8 k .. 8 k + 7\<close>; this is the bit numbering that
  \<open>bits.go\<close> documents (\<open>[7 6 5 4 3 2 1 0] [15 14 ...]\<close>).  The masks of \<open>EqualSubset\<close> and
  \<open>FirstDifferenceSubset\<close> are kept as the code computes them; the lemmas relate them to the
  bits of the two identifiers.
\<close>

type_synonym ID = "256 word"
type_synonym NodeID = "160 word"

definition NumBits :: nat where "NumBits = 256"

definition BitsPerByte :: nat where "BitsPerByte = 8"

definition Empty :: ID where "Empty = 0"

definition id_byte :: "ID \<Rightarrow> nat \<Rightarrow> 8 word" where
  "id_byte a k = ucast (drop_bit (BitsPerByte * k) a)"

text \<open>\<open>ID.Bit\<close>: shift the byte right and keep the lowest bit.\<close>

definition Bit :: "ID \<Rightarrow> nat \<Rightarrow> nat" where
  "Bit a i =
     (let byteIndex = i div BitsPerByte;
          bitIndex = i mod BitsPerByte;
          b = id_byte a byteIndex;
          b = drop_bit bitIndex b;
          b = b AND 1
      in unat b)"

definition startMask :: "nat \<Rightarrow> int" where
  "startMask startBit = push_bit startBit (-1)"

definition stopMask :: "nat \<Rightarrow> int" where
  "stopMask stopBit = push_bit (stopBit + 1) 1 - 1"

definition EqualSubset :: "nat \<Rightarrow> nat \<Rightarrow> ID \<Rightarrow> ID \<Rightarrow> bool" where
  "EqualSubset start stop id1 id2 =
     (if stop = 0 \<or> start > stop - 1 then True
      else let stop = stop - 1 in
      if stop \<ge> NumBits then False
      else
        let startIndex = start div BitsPerByte;
            stopIndex = stop div BitsPerByte in
        if startIndex + 1 < stopIndex \<and>
           map (id_byte id1) [startIndex + 1..<stopIndex] \<noteq> map (id_byte id2) [startIndex + 1..<stopIndex]
        then False
        else
          let startBit = start mod BitsPerByte;
              stopBit = stop mod BitsPerByte;
              startM = startMask startBit;
              stopM = stopMask stopBit in
          if startIndex = stopIndex then
            let mask = startM AND stopM;
                b1 = mask AND uint (id_byte id1 startIndex);
                b2 = mask AND uint (id_byte id2 startIndex)
            in b1 = b2
          else
            let start1 = startM AND uint (id_byte id1 startIndex);
                start2 = startM AND uint (id_byte id2 startIndex);
                stop1 = stopM AND uint (id_byte id1 stopIndex);
                stop2 = stopM AND uint (id_byte id2 stopIndex)
            in start1 = start2 \<and> stop1 = stop2)"

text \<open>\<open>bits.TrailingZeros8\<close> of Go's standard library: 8 for zero.\<close>

definition TrailingZeros8 :: "8 word \<Rightarrow> nat" where
  "TrailingZeros8 b = length (takeWhile (\<lambda>i. \<not> bit b i) [0..<8])"

text \<open>The loop over the bytes strictly between the first and the last one.\<close>

fun firstDiffInterior :: "ID \<Rightarrow> ID \<Rightarrow> nat list \<Rightarrow> nat option" where
  "firstDiffInterior id1 id2 [] = None"
| "firstDiffInterior id1 id2 (i # is) =
     (let b1 = uint (id_byte id1 i);
          b2 = uint (id_byte id2 i) in
      if b1 \<noteq> b2 then
        (let bd = b1 XOR b2 in Some (TrailingZeros8 (word_of_int bd) + i * BitsPerByte))
      else firstDiffInterior id1 id2 is)"

definition FirstDifferenceSubset :: "nat \<Rightarrow> nat \<Rightarrow> ID \<Rightarrow> ID \<Rightarrow> nat \<times> bool" where
  "FirstDifferenceSubset start stop id1 id2 =
     (if stop = 0 \<or> start > stop - 1 \<or> stop - 1 \<ge> NumBits then (0, False)
      else
        let stop = stop - 1;
            startIndex = start div BitsPerByte;
            stopIndex = stop div BitsPerByte;
            startBit = start mod BitsPerByte;
            stopBit = stop mod BitsPerByte;
            startM = startMask startBit;
            stopM = stopMask stopBit in
        if startIndex = stopIndex then
          let mask = startM AND stopM;
              b1 = mask AND uint (id_byte id1 startIndex);
              b2 = mask AND uint (id_byte id2 startIndex) in
          if b1 = b2 then (0, False)
          else let bd = b1 XOR b2
               in (TrailingZeros8 (word_of_int bd) + startIndex * BitsPerByte, True)
        else
          let start1 = startM AND uint (id_byte id1 startIndex);
              start2 = startM AND uint (id_byte id2 startIndex) in
          if start1 \<noteq> start2 then
            let bd = start1 XOR start2
            in (TrailingZeros8 (word_of_int bd) + startIndex * BitsPerByte, True)
          else
            case firstDiffInterior id1 id2 [startIndex + 1..<stopIndex] of
              Some r \<Rightarrow> (r, True)
            | None \<Rightarrow>
                let stop1 = stopM AND uint (id_byte id1 stopIndex);
                    stop2 = stopM AND uint (id_byte id2 stopIndex) in
                if stop1 \<noteq> stop2 then
                  let bd = stop1 XOR stop2
                  in (TrailingZeros8 (word_of_int bd) + stopIndex * BitsPerByte, True)
                else (0, False))"

subsection \<open>Bits, bytes and masks\<close>

lemma NumBits_simps [simp]: "NumBits = 256" "BitsPerByte = 8"
  by (simp_all add: NumBits_def BitsPerByte_def)

lemma bit_id_byte: "bit (id_byte a k) j \<longleftrightarrow> j < 8 \<and> bit a (8 * k + j)"
  by (auto simp: id_byte_def bit_simps)

lemma bit_ID_div_mod: "bit (a :: ID) i \<longleftrightarrow> bit (id_byte a (i div 8)) (i mod 8)"
  by (simp add: bit_id_byte)

lemma Bit_eq: "Bit a i = (if bit a i then 1 else 0)"
proof -
  have "drop_bit (i mod 8) (id_byte a (i div 8)) AND 1 = (if bit a i then 1 else 0)"
    by (simp add: and_one_eq mod_2_eq_odd bit_ID_div_mod [of a i] flip: bit_iff_odd_drop_bit)
  then show ?thesis by (simp add: Bit_def Let_def)
qed

lemma Bit_lt2 [simp]: "Bit a i < 2"
  by (simp add: Bit_eq)

lemma Bit_neq_iff: "Bit a i \<noteq> Bit b i \<longleftrightarrow> bit a i \<noteq> bit b i"
  by (simp add: Bit_eq)

lemma Bit_other: "Bit a i \<noteq> Bit b i \<Longrightarrow> Bit b i = 1 - Bit a i"
  by (auto simp: Bit_eq split: if_splits)

lemma bit_startMask [simp]: "bit (startMask s) j \<longleftrightarrow> s \<le> j"
  by (simp add: startMask_def bit_push_bit_iff del: push_bit_minus_one_eq_not_mask)

lemma bit_stopMask [simp]: "bit (stopMask s) j \<longleftrightarrow> j \<le> s"
proof -
  have "stopMask s = mask (s + 1)"
    by (simp add: stopMask_def mask_eq_exp_minus_1 push_bit_of_1)
  then show ?thesis by (auto simp: bit_mask_iff)
qed

lemma bit_byte_lt8: "bit (x :: 8 word) j \<Longrightarrow> j < 8"
  using bit_imp_le_length by fastforce

lemma and_uint_eq_iff:
  fixes x y :: "8 word"
  shows "m AND uint x = m AND uint y \<longleftrightarrow> (\<forall>j<8. bit m j \<longrightarrow> bit x j = bit y j)"
proof
  assume "m AND uint x = m AND uint y"
  then show "\<forall>j<8. bit m j \<longrightarrow> bit x j = bit y j"
    by (auto simp: bit_eq_iff bit_simps)
next
  assume *: "\<forall>j<8. bit m j \<longrightarrow> bit x j = bit y j"
  show "m AND uint x = m AND uint y"
    using * bit_byte_lt8 by (intro bit_eqI) (auto simp: bit_simps)
qed

lemma id_byte_eq_iff: "id_byte a k = id_byte b k \<longleftrightarrow> (\<forall>j<8. bit a (8 * k + j) = bit b (8 * k + j))"
  by (auto simp: bit_eq_iff bit_id_byte)

text \<open>\<open>agree s e a b\<close>: the two identifiers have the same bits from \<open>s\<close> up to, not including, \<open>e\<close>.\<close>

definition agree :: "nat \<Rightarrow> nat \<Rightarrow> ID \<Rightarrow> ID \<Rightarrow> bool" where
  "agree start stop a b \<longleftrightarrow> (\<forall>i. start \<le> i \<and> i < stop \<longrightarrow> bit a i = bit b i)"

lemma agree_refl [simp, intro]: "agree s e a a"
  by (simp add: agree_def)

lemma agree_sym: "agree s e a b \<Longrightarrow> agree s e b a"
  by (simp add: agree_def)

lemma agree_trans: "agree s e a b \<Longrightarrow> agree s e b c \<Longrightarrow> agree s e a c"
  by (simp add: agree_def)

lemma agree_mono: "agree s e a b \<Longrightarrow> s \<le> s' \<Longrightarrow> e' \<le> e \<Longrightarrow> agree s' e' a b"
  by (simp add: agree_def)

lemma agree_empty [simp]: "e \<le> s \<Longrightarrow> agree s e a b"
  by (auto simp: agree_def)

lemma agree_join: "agree s m a b \<Longrightarrow> agree m e a b \<Longrightarrow> agree s e a b"
  unfolding agree_def by (metis linorder_not_le)

lemma agree_Suc: "agree s (Suc e) a b \<longleftrightarrow> agree s e a b \<and> (s \<le> e \<longrightarrow> bit a e = bit b e)"
  by (auto simp: agree_def less_Suc_eq)

lemma agree_all_eq: "agree 0 256 a b \<longleftrightarrow> a = b"
proof
  assume *: "agree 0 256 a b"
  show "a = b"
  proof (rule bit_word_eqI)
    fix n assume "n < LENGTH(256)"
    then show "bit a n = bit b n" using * by (simp add: agree_def)
  qed
qed simp

lemma agree_bytes:
  "agree s (Suc e) a b \<longleftrightarrow>
     (\<forall>k j. j < 8 \<and> s \<le> 8 * k + j \<and> 8 * k + j \<le> e \<longrightarrow> bit (id_byte a k) j = bit (id_byte b k) j)"
    (is "_ \<longleftrightarrow> ?R")
proof
  assume "agree s (Suc e) a b"
  then show ?R by (auto simp: agree_def bit_id_byte)
next
  assume R: ?R
  show "agree s (Suc e) a b"
    unfolding agree_def
  proof (intro allI impI)
    fix i assume "s \<le> i \<and> i < Suc e"
    then show "bit a i = bit b i"
      using R [rule_format, of "i mod 8" "i div 8"] by (simp add: bit_ID_div_mod)
  qed
qed

subsection \<open>Equal prefixes\<close>

lemma byte_eq_iff: "(x :: 8 word) = y \<longleftrightarrow> (\<forall>j<8. bit x j = bit y j)"
  using bit_byte_lt8 by (metis bit_eq_iff)

text \<open>Comparing positions byte by byte.\<close>

lemma pos_le_iff:
  fixes q r k j :: nat
  assumes "r < 8" "j < 8"
  shows "8 * q + r \<le> 8 * k + j \<longleftrightarrow> q < k \<or> (q = k \<and> r \<le> j)"
  using assms by arith

lemma pos_split: "(s :: nat) = 8 * (s div 8) + s mod 8" and mod8_lt: "s mod 8 < (8 :: nat)"
  by simp_all

lemma le_pos_iff: "(j :: nat) < 8 \<Longrightarrow> s \<le> 8 * k + j \<longleftrightarrow> s div 8 < k \<or> (s div 8 = k \<and> s mod 8 \<le> j)"
  using pos_le_iff [OF mod8_lt [of s], of j "s div 8" k] pos_split [of s] by simp

lemma pos_le_pos: "(j :: nat) < 8 \<Longrightarrow> 8 * k + j \<le> e \<longleftrightarrow> k < e div 8 \<or> (k = e div 8 \<and> j \<le> e mod 8)"
  using pos_le_iff [OF _ mod8_lt [of e], of j k "e div 8"] pos_split [of e] by simp

lemma interior_bytes_eq:
  "map (id_byte a) [l..<u] = map (id_byte b) [l..<u] \<longleftrightarrow>
     (\<forall>k j. l \<le> k \<and> k < u \<and> j < 8 \<longrightarrow> bit (id_byte a k) j = bit (id_byte b k) j)"
  unfolding map_eq_conv byte_eq_iff by auto

lemma agree_same_byte:
  assumes "s div 8 = e div 8"
  shows "agree s (Suc e) a b \<longleftrightarrow>
    (startMask (s mod 8) AND stopMask (e mod 8)) AND uint (id_byte a (s div 8)) =
    (startMask (s mod 8) AND stopMask (e mod 8)) AND uint (id_byte b (s div 8))"
    (is "?L \<longleftrightarrow> ?R")
proof -
  have range: "s \<le> 8 * k + j \<and> 8 * k + j \<le> e \<longleftrightarrow> k = s div 8 \<and> s mod 8 \<le> j \<and> j \<le> e mod 8"
    if "j < 8" for k j using that assms by (auto simp: le_pos_iff pos_le_pos)
  have "?L \<longleftrightarrow> (\<forall>k j. j < 8 \<and> k = s div 8 \<and> s mod 8 \<le> j \<and> j \<le> e mod 8 \<longrightarrow>
      bit (id_byte a k) j = bit (id_byte b k) j)"
    unfolding agree_bytes using range by blast
  also have "\<dots> \<longleftrightarrow> ?R"
    by (auto simp: and_uint_eq_iff bit_and_iff)
  finally show ?thesis .
qed

lemma agree_first_byte:
  assumes "s div 8 < e div 8"
  shows "agree s (8 * (s div 8 + 1)) a b \<longleftrightarrow>
    startMask (s mod 8) AND uint (id_byte a (s div 8)) = startMask (s mod 8) AND uint (id_byte b (s div 8))"
    (is "?L \<longleftrightarrow> ?R")
proof -
  have range: "s \<le> 8 * k + j \<and> 8 * k + j \<le> 8 * (s div 8) + 7 \<longleftrightarrow> k = s div 8 \<and> s mod 8 \<le> j"
    if "j < 8" for k j using that by (auto simp: le_pos_iff pos_le_iff)
  have "?L \<longleftrightarrow> agree s (Suc (8 * (s div 8) + 7)) a b"
    by (simp add: algebra_simps)
  also have "\<dots> \<longleftrightarrow> (\<forall>k j. j < 8 \<and> k = s div 8 \<and> s mod 8 \<le> j \<longrightarrow>
      bit (id_byte a k) j = bit (id_byte b k) j)"
    unfolding agree_bytes using range by blast
  also have "\<dots> \<longleftrightarrow> ?R"
    by (auto simp: and_uint_eq_iff)
  finally show ?thesis .
qed

lemma agree_whole_bytes:
  "agree (8 * l) (8 * u) a b \<longleftrightarrow> map (id_byte a) [l..<u] = map (id_byte b) [l..<u]"
proof (cases u)
  case (Suc v)
  have range: "8 * l \<le> 8 * k + j \<and> 8 * k + j \<le> 8 * v + 7 \<longleftrightarrow> l \<le> k \<and> k < Suc v" if "j < 8" for k j :: nat
    using that by arith
  have "8 * u = Suc (8 * v + 7)" using Suc by simp
  then have "agree (8 * l) (8 * u) a b \<longleftrightarrow> (\<forall>k j. l \<le> k \<and> k < Suc v \<and> j < 8 \<longrightarrow>
      bit (id_byte a k) j = bit (id_byte b k) j)"
    using agree_bytes [of "8 * l" "8 * v + 7" a b] range by metis
  then show ?thesis unfolding Suc interior_bytes_eq .
qed simp

lemma agree_last_byte:
  "agree (8 * (e div 8)) (Suc e) a b \<longleftrightarrow>
    stopMask (e mod 8) AND uint (id_byte a (e div 8)) = stopMask (e mod 8) AND uint (id_byte b (e div 8))"
    (is "?L \<longleftrightarrow> ?R")
proof -
  have range: "8 * (e div 8) \<le> 8 * k + j \<and> 8 * k + j \<le> e \<longleftrightarrow> k = e div 8 \<and> j \<le> e mod 8"
    if "j < 8" for k j using that pos_le_iff [of 0 j "e div 8" k] by (auto simp: pos_le_pos)
  have "?L \<longleftrightarrow> (\<forall>k j. j < 8 \<and> k = e div 8 \<and> j \<le> e mod 8 \<longrightarrow>
      bit (id_byte a k) j = bit (id_byte b k) j)"
    unfolding agree_bytes using range by blast
  also have "\<dots> \<longleftrightarrow> ?R"
    by (auto simp: and_uint_eq_iff)
  finally show ?thesis .
qed

lemma agree_three_parts:
  assumes "s div 8 < e div 8"
  shows "agree s (Suc e) a b \<longleftrightarrow>
    agree s (8 * (s div 8 + 1)) a b \<and> agree (8 * (s div 8 + 1)) (8 * (e div 8)) a b \<and>
    agree (8 * (e div 8)) (Suc e) a b"
proof -
  have 1: "s \<le> 8 * (s div 8 + 1)" using dividend_less_div_times [of 8 s] by simp
  have 2: "8 * (s div 8 + 1) \<le> 8 * (e div 8)" using assms by simp
  have 3: "8 * (e div 8) \<le> Suc e" using times_div_less_eq_dividend [of 8 e] by (rule le_SucI)
  show ?thesis
  proof
    assume "agree s (Suc e) a b"
    then show "agree s (8 * (s div 8 + 1)) a b \<and> agree (8 * (s div 8 + 1)) (8 * (e div 8)) a b \<and>
        agree (8 * (e div 8)) (Suc e) a b"
      using 1 2 3 by (auto intro: agree_mono)
  qed (blast intro: agree_join)
qed

theorem EqualSubset_iff:
  "EqualSubset start stop a b \<longleftrightarrow> (start < stop \<longrightarrow> stop \<le> 256 \<and> agree start stop a b)"
proof (cases "start < stop \<and> stop \<le> 256")
  case True
  then obtain e where e: "stop = Suc e" "start \<le> e" "e < 256" by (cases stop) auto
  show ?thesis
  proof (cases "start div 8 = e div 8")
    case True
    then show ?thesis using e agree_same_byte [of start e a b] by (simp add: EqualSubset_def Let_def)
  next
    case False
    then have lt: "start div 8 < e div 8" using e by (simp add: div_le_mono le_neq_implies_less)
    then have ne: "start div 8 \<noteq> e div 8" by simp
    have empty: "[start div 8 + 1..<e div 8] = []" if "\<not> start div 8 + 1 < e div 8" using that by simp
    have "EqualSubset start stop a b \<longleftrightarrow>
        \<not> (start div 8 + 1 < e div 8 \<and>
           map (id_byte a) [start div 8 + 1..<e div 8] \<noteq> map (id_byte b) [start div 8 + 1..<e div 8]) \<and>
        startMask (start mod 8) AND uint (id_byte a (start div 8)) =
        startMask (start mod 8) AND uint (id_byte b (start div 8)) \<and>
        stopMask (e mod 8) AND uint (id_byte a (e div 8)) = stopMask (e mod 8) AND uint (id_byte b (e div 8))"
      using e ne by (simp add: EqualSubset_def Let_def del: upt_Suc upt_rec_numeral)
    also have "\<dots> \<longleftrightarrow> agree start stop a b"
      unfolding e agree_three_parts [OF lt] agree_first_byte [OF lt] agree_whole_bytes agree_last_byte
      using empty by (cases "start div 8 + 1 < e div 8") (blast, simp add: conj_commute)
    finally show ?thesis using e by simp
  qed
next
  case False
  then consider "stop \<le> start" | "start < stop" "256 \<le> stop - 1" by linarith
  then show ?thesis
  proof cases
    case 1
    then have "stop = 0 \<or> start > stop - 1" by linarith
    then show ?thesis using 1 by (simp add: EqualSubset_def)
  next
    case 2
    then have "\<not> (stop = 0 \<or> start > stop - 1)" by linarith
    with 2 have "\<not> EqualSubset start stop a b" unfolding EqualSubset_def Let_def NumBits_simps by simp
    with 2 False show ?thesis by simp
  qed
qed

subsection \<open>The first difference\<close>

lemma takeWhile_upt_first:
  assumes "m < n" "\<not> P m"
  defines "t \<equiv> length (takeWhile P [0..<n])"
  shows "t < n" "\<not> P t" "j < t \<Longrightarrow> P j"
proof -
  have "takeWhile P [0..<n] \<noteq> [0..<n]" unfolding takeWhile_eq_all_conv using assms(1,2) by auto
  then have "length (takeWhile P [0..<n]) \<noteq> length [0..<n]"
    using takeWhile_eq_take [of P "[0..<n]"] by (metis take_all order.refl)
  then show lt: "t < n"
    using length_takeWhile_le [of P "[0..<n]"] by (simp add: t_def)
  show "\<not> P t" using nth_length_takeWhile [of P "[0..<n]"] lt by (simp add: t_def)
  show "P j" if "j < t"
  proof -
    have j: "j < length (takeWhile P [0..<n])" using that by (simp add: t_def)
    then have "takeWhile P [0..<n] ! j = j" using that lt by (simp add: takeWhile_nth)
    then show ?thesis using nth_mem [OF j] set_takeWhileD by metis
  qed
qed

lemma TrailingZeros8_spec:
  assumes "b \<noteq> 0"
  shows "TrailingZeros8 b < 8" "bit b (TrailingZeros8 b)" "j < TrailingZeros8 b \<Longrightarrow> \<not> bit b j"
proof -
  from assms obtain n where n: "\<not> \<not> bit b n" by (auto simp: bit_eq_iff)
  then have "n < 8" using bit_byte_lt8 by blast
  from takeWhile_upt_first [of n 8 "\<lambda>i. \<not> bit b i", OF this n] show "TrailingZeros8 b < 8"
    "bit b (TrailingZeros8 b)" "j < TrailingZeros8 b \<Longrightarrow> \<not> bit b j"
    unfolding TrailingZeros8_def by blast+
qed

lemma masked_difference:
  fixes x y :: "8 word"
  assumes ne: "m AND uint x \<noteq> m AND uint y"
    and t: "t = TrailingZeros8 (word_of_int ((m AND uint x) XOR (m AND uint y)))"
  shows "t < 8" "bit m t" "bit x t \<noteq> bit y t" "j < t \<Longrightarrow> bit m j \<Longrightarrow> bit x j = bit y j"
proof -
  let ?w = "word_of_int ((m AND uint x) XOR (m AND uint y)) :: 8 word"
  have bit_w: "bit ?w i \<longleftrightarrow> i < 8 \<and> bit m i \<and> bit x i \<noteq> bit y i" for i
    by (auto simp: bit_simps)
  from ne obtain i where "i < 8" "bit m i" "bit x i \<noteq> bit y i" by (auto simp: and_uint_eq_iff)
  then have "?w \<noteq> 0" using bit_w by (metis bit_0_eq bot_apply bot_bool_def)
  from TrailingZeros8_spec [OF this] show "t < 8" "bit m t" "bit x t \<noteq> bit y t"
    and "j < t \<Longrightarrow> bit m j \<Longrightarrow> bit x j = bit y j"
    unfolding t bit_w by auto
qed

text \<open>\<open>first_diff s e r\<close>: \<open>r\<close> is the first position in \<open>[s, e)\<close> where the identifiers differ.\<close>

definition first_diff :: "nat \<Rightarrow> nat \<Rightarrow> ID \<Rightarrow> ID \<Rightarrow> nat \<Rightarrow> bool" where
  "first_diff s e a b r \<longleftrightarrow> s \<le> r \<and> r < e \<and> bit a r \<noteq> bit b r \<and> agree s r a b"

lemma first_diff_Least: "first_diff s e a b r \<Longrightarrow> (LEAST i. s \<le> i \<and> bit a i \<noteq> bit b i) = r"
  by (rule Least_equality) (auto simp: first_diff_def agree_def not_less)

lemma first_diff_not_agree: "first_diff s e a b r \<Longrightarrow> \<not> agree s e a b"
  by (auto simp: first_diff_def agree_def)

lemma first_diff_later: "agree s m a b \<Longrightarrow> s \<le> m \<Longrightarrow> first_diff m e a b r \<Longrightarrow> first_diff s e a b r"
  by (auto simp: first_diff_def intro: agree_join)

lemma first_diff_mono: "first_diff s m a b r \<Longrightarrow> m \<le> e \<Longrightarrow> first_diff s e a b r"
  by (auto simp: first_diff_def)

text \<open>Within one byte: the masked bytes differ first at their trailing zeros.\<close>

lemma byte_first_diff:
  assumes ne: "m AND uint (id_byte a k) \<noteq> m AND uint (id_byte b k)"
    and r: "r = TrailingZeros8 (word_of_int ((m AND uint (id_byte a k)) XOR (m AND uint (id_byte b k)))) + k * 8"
    and mask: "\<And>j. j < 8 \<Longrightarrow> bit m j \<longleftrightarrow> s \<le> 8 * k + j \<and> 8 * k + j < e"
    and low: "8 * k \<le> s"
  shows "first_diff s e a b r"
proof -
  obtain t where t: "t = TrailingZeros8 (word_of_int ((m AND uint (id_byte a k)) XOR (m AND uint (id_byte b k))))"
    by simp
  note diff = masked_difference [OF ne t]
  have "bit m t" "t < 8" using diff(1,2) by simp_all
  moreover have "bit a (8 * k + t) \<noteq> bit b (8 * k + t)" using diff(1,3) by (simp add: bit_id_byte)
  moreover have "agree s (8 * k + t) a b"
    unfolding agree_def
  proof (intro allI impI)
    fix i assume i: "s \<le> i \<and> i < 8 * k + t"
    define j where "j = i - 8 * k"
    have j: "i = 8 * k + j" "j < t" using i low by (auto simp: j_def)
    with mask [of j] i diff(1) mask [of t] \<open>bit m t\<close> have "bit m j" by auto
    then have "bit (id_byte a k) j = bit (id_byte b k) j" using diff(4) j by blast
    then show "bit a i = bit b i" using j diff(1) by (simp add: bit_id_byte)
  qed
  ultimately show ?thesis using mask [of t] r t by (simp add: first_diff_def add.commute mult.commute)
qed

lemma firstDiffInterior_None:
  "firstDiffInterior a b is = None \<longleftrightarrow> map (id_byte a) is = map (id_byte b) is"
  by (induction "is") (auto simp: Let_def simp flip: word_uint_eq_iff)

lemma firstDiffInterior_Some:
  "firstDiffInterior a b [l..<u] = Some r \<Longrightarrow> first_diff (8 * l) (8 * u) a b r"
proof (induction "[l..<u]" arbitrary: l)
  case (Cons i "is")
  have lu: "l < u" using Cons.hyps(2) by (cases "l < u") auto
  then have i: "i = l" "l < u" "is = [Suc l..<u]" using Cons.hyps(2) by (auto simp: upt_conv_Cons)
  show ?case
  proof (cases "id_byte a l = id_byte b l")
    case True
    then have "firstDiffInterior a b [Suc l..<u] = Some r" using Cons.prems i by (simp add: upt_conv_Cons del: upt_Suc)
    then have "first_diff (8 * Suc l) (8 * u) a b r" using Cons.hyps(1) i by blast
    moreover have "agree (8 * l) (8 * Suc l) a b" using True by (simp only: agree_whole_bytes) simp
    ultimately show ?thesis using first_diff_later by (metis le_add2 mult_Suc_right)
  next
    case False
    then have ne: "-1 AND uint (id_byte a l) \<noteq> -1 AND uint (id_byte b l)"
      by (simp flip: word_uint_eq_iff)
    have r: "r = TrailingZeros8 (word_of_int ((-1 AND uint (id_byte a l)) XOR (-1 AND uint (id_byte b l)))) + l * 8"
      using Cons.prems i False by (simp add: upt_conv_Cons Let_def flip: word_uint_eq_iff)
    have "first_diff (8 * l) (8 * l + 8) a b r"
      by (rule byte_first_diff [OF ne r]) auto
    then show ?thesis using i by (auto intro: first_diff_mono)
  qed
qed simp

text \<open>The three stages of the search: the first byte, the bytes in between, the last byte.\<close>

lemma FirstDifferenceSubset_one_byte:
  assumes "s \<le> e" "e < 256" "s div 8 = e div 8"
  defines "m \<equiv> startMask (s mod 8) AND stopMask (e mod 8)"
  shows "FirstDifferenceSubset s (Suc e) a b =
    (if m AND uint (id_byte a (s div 8)) = m AND uint (id_byte b (s div 8)) then (0, False)
     else (TrailingZeros8 (word_of_int
        ((m AND uint (id_byte a (s div 8))) XOR (m AND uint (id_byte b (s div 8))))) + s div 8 * 8, True))"
  using assms by (simp add: FirstDifferenceSubset_def Let_def)

lemma FirstDifferenceSubset_bytes:
  assumes "s \<le> e" "e < 256" "s div 8 < e div 8"
  defines "m \<equiv> startMask (s mod 8)" and "n \<equiv> stopMask (e mod 8)"
  shows "FirstDifferenceSubset s (Suc e) a b =
    (if m AND uint (id_byte a (s div 8)) \<noteq> m AND uint (id_byte b (s div 8)) then
       (TrailingZeros8 (word_of_int
          ((m AND uint (id_byte a (s div 8))) XOR (m AND uint (id_byte b (s div 8))))) + s div 8 * 8, True)
     else case firstDiffInterior a b [s div 8 + 1..<e div 8] of
        Some r \<Rightarrow> (r, True)
      | None \<Rightarrow>
         (if n AND uint (id_byte a (e div 8)) \<noteq> n AND uint (id_byte b (e div 8)) then
           (TrailingZeros8 (word_of_int
              ((n AND uint (id_byte a (e div 8))) XOR (n AND uint (id_byte b (e div 8))))) + e div 8 * 8, True)
          else (0, False)))"
  using assms by (simp add: FirstDifferenceSubset_def Let_def del: upt_Suc cong: option.case_cong if_cong)

lemma FirstDifferenceSubset_found:
  assumes se: "s \<le> e" "e < 256" and res: "FirstDifferenceSubset s (Suc e) a b = (r, True)"
  shows "first_diff s (Suc e) a b r"
proof (cases "s div 8 = e div 8")
  case True
  define m where "m = startMask (s mod 8) AND stopMask (e mod 8)"
  have ne: "m AND uint (id_byte a (s div 8)) \<noteq> m AND uint (id_byte b (s div 8))"
    and r: "r = TrailingZeros8 (word_of_int
        ((m AND uint (id_byte a (s div 8))) XOR (m AND uint (id_byte b (s div 8))))) + s div 8 * 8"
    using res FirstDifferenceSubset_one_byte [OF se True, of a b] by (auto simp: m_def split: if_splits)
  show ?thesis
    by (rule byte_first_diff [OF ne r])
      (use True in \<open>auto simp: m_def bit_and_iff less_Suc_eq_le le_pos_iff pos_le_pos\<close>)
next
  case False
  then have lt: "s div 8 < e div 8" using se by (simp add: div_le_mono le_neq_implies_less)
  let ?m = "startMask (s mod 8)" and ?n = "stopMask (e mod 8)"
  have b1: "s \<le> 8 * (s div 8 + 1)" using dividend_less_div_times [of 8 s] by simp
  have b2: "8 * (s div 8 + 1) \<le> 8 * (e div 8)" using lt by simp
  have b3: "8 * (e div 8) \<le> Suc e" using times_div_less_eq_dividend [of 8 e] by (rule le_SucI)
  show ?thesis
  proof (cases "?m AND uint (id_byte a (s div 8)) = ?m AND uint (id_byte b (s div 8))")
    case False
    then have r: "r = TrailingZeros8 (word_of_int
        ((?m AND uint (id_byte a (s div 8))) XOR (?m AND uint (id_byte b (s div 8))))) + s div 8 * 8"
      using res FirstDifferenceSubset_bytes [OF se lt, of a b] by simp
    have "first_diff s (8 * (s div 8 + 1)) a b r"
      by (rule byte_first_diff [OF False r]) (auto simp: le_pos_iff)
    then show ?thesis using b2 b3 by (auto intro: first_diff_mono)
  next
    case True
    then have a1: "agree s (8 * (s div 8 + 1)) a b" unfolding agree_first_byte [OF lt] .
    show ?thesis
    proof (cases "firstDiffInterior a b [s div 8 + 1..<e div 8]")
      case (Some r')
      then have "r' = r" using True res FirstDifferenceSubset_bytes [OF se lt, of a b] by simp
      then have "first_diff (8 * (s div 8 + 1)) (8 * (e div 8)) a b r"
        using firstDiffInterior_Some [OF Some] by simp
      then show ?thesis using a1 b1 b3 by (meson first_diff_later first_diff_mono)
    next
      case None
      then have a2: "agree s (8 * (e div 8)) a b"
        using a1 agree_join agree_whole_bytes firstDiffInterior_None by blast
      have ne: "?n AND uint (id_byte a (e div 8)) \<noteq> ?n AND uint (id_byte b (e div 8))"
        and r: "r = TrailingZeros8 (word_of_int
          ((?n AND uint (id_byte a (e div 8))) XOR (?n AND uint (id_byte b (e div 8))))) + e div 8 * 8"
        using True None res FirstDifferenceSubset_bytes [OF se lt, of a b] by (auto split: if_splits)
      have "first_diff (8 * (e div 8)) (Suc e) a b r"
        by (rule byte_first_diff [OF ne r]) (auto simp: less_Suc_eq_le pos_le_pos)
      then show ?thesis using a2 b1 b2 first_diff_later by (meson order.trans)
    qed
  qed
qed

lemma FirstDifferenceSubset_none:
  assumes se: "s \<le> e" "e < 256" and res: "FirstDifferenceSubset s (Suc e) a b = (r, False)"
  shows "agree s (Suc e) a b \<and> r = 0"
proof (cases "s div 8 = e div 8")
  case True
  then show ?thesis
    using res FirstDifferenceSubset_one_byte [OF se True, of a b]
    by (auto simp: agree_same_byte split: if_splits)
next
  case False
  then have lt: "s div 8 < e div 8" using se by (simp add: div_le_mono le_neq_implies_less)
  show ?thesis
    using res FirstDifferenceSubset_bytes [OF se lt, of a b]
    unfolding agree_three_parts [OF lt] agree_first_byte [OF lt] agree_last_byte agree_whole_bytes
    by (auto simp: firstDiffInterior_None split: if_splits option.splits)
qed

text \<open>
  \<open>FirstDifferenceSubset\<close> returns the least differing position of the range, and reports that
  there is none exactly when the range is empty, leaves the identifier, or holds equal bits.
\<close>

lemma FirstDifferenceSubset_eq:
  "FirstDifferenceSubset start stop a b =
     (if start < stop \<and> stop \<le> 256 \<and> \<not> agree start stop a b
      then (LEAST i. start \<le> i \<and> bit a i \<noteq> bit b i, True) else (0, False))"
proof (cases "start < stop \<and> stop \<le> 256")
  case True
  then obtain e where e: "stop = Suc e" "start \<le> e" "e < 256" by (cases stop) auto
  obtain r f where rf: "FirstDifferenceSubset start (Suc e) a b = (r, f)" by (rule prod.exhaust)
  show ?thesis
  proof (cases f)
    case True
    then have res: "FirstDifferenceSubset start (Suc e) a b = (r, True)" using rf by simp
    then have fd: "first_diff start (Suc e) a b r" by (rule FirstDifferenceSubset_found [OF e(2,3)])
    show ?thesis
      using first_diff_not_agree [OF fd] first_diff_Least [OF fd] e by (simp add: res)
  next
    case False
    then have res: "FirstDifferenceSubset start (Suc e) a b = (r, False)" using rf by simp
    then show ?thesis using FirstDifferenceSubset_none [OF e(2,3) res] e by simp
  qed
next
  case False
  then have "stop = 0 \<or> start > stop - 1 \<or> stop - 1 \<ge> 256" by linarith
  then have "FirstDifferenceSubset start stop a b = (0, False)"
    unfolding FirstDifferenceSubset_def NumBits_simps by (rule if_P)
  then show ?thesis using False by auto
qed

lemma FirstDifferenceSubset_True:
  assumes "FirstDifferenceSubset s e a b = (r, True)"
  shows "first_diff s e a b r" "e \<le> 256"
proof -
  have "s < e" "e \<le> 256" using assms by (auto simp: FirstDifferenceSubset_eq split: if_splits)
  then show "first_diff s e a b r" "e \<le> 256"
    using FirstDifferenceSubset_found [of s "e - 1" a b r] assms by auto
qed

lemma FirstDifferenceSubset_False:
  "FirstDifferenceSubset s e a b = (r, False) \<Longrightarrow> e \<le> 256 \<Longrightarrow> agree s e a b"
  by (cases "s < e") (auto simp: FirstDifferenceSubset_eq split: if_splits)

subsection \<open>Properties\<close>

text \<open>
  \<open>EqualSubset\<close> compares exactly the bits of the half-open range, byte masks included; an
  empty range is equal, and a range past the last bit is not.
\<close>

theorem EqualSubset_compares_range:
  "EqualSubset start stop a b \<longleftrightarrow>
     stop \<le> start \<or> stop \<le> 256 \<and> [Bit a i. i \<leftarrow> [start..<stop]] = [Bit b i. i \<leftarrow> [start..<stop]]"
  using EqualSubset_iff [of start stop a b] by (auto simp: agree_def Bit_eq split: if_splits)

text \<open>
  C36.  \<open>FirstDifferenceSubset\<close> returns the least index of the range at which the two IDs differ, and
  \<open>(0, false)\<close> when the range is empty, exceeds the ID, or has no difference.
\<close>

theorem FirstDifferenceSubset_least:
  "FirstDifferenceSubset start stop a b =
     (if start < stop \<and> stop \<le> 256 \<and> (\<exists>i \<in> {start..<stop}. Bit a i \<noteq> Bit b i)
      then (LEAST i. start \<le> i \<and> Bit a i \<noteq> Bit b i, True) else (0, False))"
  using FirstDifferenceSubset_eq [of start stop a b] by (auto simp: agree_def Bit_neq_iff)

end
