(* ===== verification/Snowflake.thy ===== *)
theory Snowflake
  imports Bag Ids
begin

text \<open>
  The slush, snowflake and snowball instances of \<open>src/snow/consensus/snowball\<close>: unary (one
  value), binary (two values) and n-ary (any number of identifiers), the parameters with their
  validation, and the factories.  Each Go struct is a record with the embedded struct as its
  first field; each method is a function from the old to the new record.

  Go's \<open>int\<close> counters are mathematical integers here: a counter grows by one per poll and would
  need \<open>2 ^ 63\<close> polls to overflow.
\<close>

subsection \<open>Parameters\<close>

record Parameters =
  K_param :: int
  Alpha :: "int option"
  AlphaPreference :: int
  AlphaConfidence :: int
  Beta :: int
  ConcurrentRepolls :: int
  OptimalProcessing :: int
  MaxOutstandingItems :: int
  MaxItemProcessingTime :: int

definition DefaultParameters :: Parameters where
  "DefaultParameters =
     \<lparr>K_param = 20, Alpha = None, AlphaPreference = 15, AlphaConfidence = 15, Beta = 20,
      ConcurrentRepolls = 4, OptimalProcessing = 10, MaxOutstandingItems = 256,
      MaxItemProcessingTime = 30 * 1000000000\<rparr>"

text \<open>All errors wrap \<open>ErrParametersInvalid\<close>; the constructors name the failed condition.\<close>

datatype ErrParametersInvalid =
    KHalfLtAlphaPreference
  | AlphaPreferenceLeAlphaConfidence
  | AlphaConfidenceLeK
  | AlphaConfidence3AlphaPreference28
  | PosConcurrentRepolls
  | ConcurrentRepollsLeBeta
  | PosOptimalProcessing
  | PosMaxOutstandingItems
  | PosMaxItemProcessingTime

definition Verify :: "Parameters \<Rightarrow> ErrParametersInvalid option" where
  "Verify p =
     (if AlphaPreference p \<le> go_div (K_param p) 2 then Some KHalfLtAlphaPreference
      else if AlphaConfidence p < AlphaPreference p then Some AlphaPreferenceLeAlphaConfidence
      else if K_param p < AlphaConfidence p then Some AlphaConfidenceLeK
      else if AlphaConfidence p = 3 \<and> AlphaPreference p = 28 then Some AlphaConfidence3AlphaPreference28
      else if ConcurrentRepolls p \<le> 0 then Some PosConcurrentRepolls
      else if ConcurrentRepolls p > Beta p then Some ConcurrentRepollsLeBeta
      else if OptimalProcessing p \<le> 0 then Some PosOptimalProcessing
      else if MaxOutstandingItems p \<le> 0 then Some PosMaxOutstandingItems
      else if MaxItemProcessingTime p \<le> 0 then Some PosMaxItemProcessingTime
      else None)"

record terminationCondition =
  alphaConfidence :: int
  beta :: int

definition newSingleTerminationCondition :: "int \<Rightarrow> int \<Rightarrow> terminationCondition list" where
  "newSingleTerminationCondition ac b = [\<lparr>alphaConfidence = ac, beta = b\<rparr>]"

text \<open>
  The loop \<open>for i, terminationCondition := range sf.terminationConditions\<close> shared by the three
  snowflake instances.  It returns the new confidence counters and whether a counter reached its
  \<open>beta\<close>.  The two slices have the same length (\<open>wf_conf\<close> below), so the index never runs out.
\<close>

fun confidence_loop :: "int \<Rightarrow> terminationCondition list \<Rightarrow> int list \<Rightarrow> int list \<times> bool" where
  "confidence_loop cnt (tc # tcs) (c # cs) =
     (if cnt < alphaConfidence tc then (map (\<lambda>_. 0) (c # cs), False)
      else if c + 1 \<ge> beta tc then ((c + 1) # cs, True)
      else let (cs', fin) = confidence_loop cnt tcs cs in ((c + 1) # cs', fin))"
| "confidence_loop cnt tcs cs = (cs, False)"

definition clear :: "int list \<Rightarrow> int list" where
  "clear cs = map (\<lambda>_. 0) cs"

subsection \<open>Unary instances\<close>

record unarySnowflake =
  u_alphaPreference :: int
  u_terminationConditions :: "terminationCondition list"
  u_confidence :: "int list"
  u_finalized :: bool

definition newUnarySnowflake :: "int \<Rightarrow> terminationCondition list \<Rightarrow> unarySnowflake" where
  "newUnarySnowflake ap tcs =
     \<lparr>u_alphaPreference = ap, u_terminationConditions = tcs,
      u_confidence = replicate (length tcs) 0, u_finalized = False\<rparr>"

definition uflake_RecordPoll :: "int \<Rightarrow> unarySnowflake \<Rightarrow> unarySnowflake" where
  "uflake_RecordPoll cnt sf =
     (let (cs, fin) = confidence_loop cnt (u_terminationConditions sf) (u_confidence sf)
      in sf\<lparr>u_confidence := cs, u_finalized := (fin \<or> u_finalized sf)\<rparr>)"

definition uflake_RecordUnsuccessfulPoll :: "unarySnowflake \<Rightarrow> unarySnowflake" where
  "uflake_RecordUnsuccessfulPoll sf = sf\<lparr>u_confidence := clear (u_confidence sf)\<rparr>"

record unarySnowball =
  us_flake :: unarySnowflake
  us_preferenceStrength :: int

definition newUnarySnowball :: "int \<Rightarrow> terminationCondition list \<Rightarrow> unarySnowball" where
  "newUnarySnowball ap tcs = \<lparr>us_flake = newUnarySnowflake ap tcs, us_preferenceStrength = 0\<rparr>"

definition uball_RecordPoll :: "int \<Rightarrow> unarySnowball \<Rightarrow> unarySnowball" where
  "uball_RecordPoll cnt sb =
     (let sb = (if cnt \<ge> u_alphaPreference (us_flake sb)
                then sb\<lparr>us_preferenceStrength := us_preferenceStrength sb + 1\<rparr> else sb)
      in sb\<lparr>us_flake := uflake_RecordPoll cnt (us_flake sb)\<rparr>)"

subsection \<open>Binary instances\<close>

record binarySlush =
  bsl_preference :: nat

definition newBinarySlush :: "nat \<Rightarrow> binarySlush" where
  "newBinarySlush choice = \<lparr>bsl_preference = choice\<rparr>"

definition bslush_RecordSuccessfulPoll :: "nat \<Rightarrow> binarySlush \<Rightarrow> binarySlush" where
  "bslush_RecordSuccessfulPoll choice sl = sl\<lparr>bsl_preference := choice\<rparr>"

record binarySnowflake =
  b_slush :: binarySlush
  b_alphaPreference :: int
  b_terminationConditions :: "terminationCondition list"
  b_confidence :: "int list"
  b_finalized :: bool

definition newBinarySnowflake :: "int \<Rightarrow> terminationCondition list \<Rightarrow> nat \<Rightarrow> binarySnowflake" where
  "newBinarySnowflake ap tcs choice =
     \<lparr>b_slush = newBinarySlush choice, b_alphaPreference = ap, b_terminationConditions = tcs,
      b_confidence = replicate (length tcs) 0, b_finalized = False\<rparr>"

definition bflake_Preference :: "binarySnowflake \<Rightarrow> nat" where
  "bflake_Preference sf = bsl_preference (b_slush sf)"

definition bflake_RecordUnsuccessfulPoll :: "binarySnowflake \<Rightarrow> binarySnowflake" where
  "bflake_RecordUnsuccessfulPoll sf = sf\<lparr>b_confidence := clear (b_confidence sf)\<rparr>"

definition bflake_RecordPoll :: "int \<Rightarrow> nat \<Rightarrow> binarySnowflake \<Rightarrow> binarySnowflake" where
  "bflake_RecordPoll cnt choice sf =
     (if b_finalized sf then sf
      else if cnt < b_alphaPreference sf then bflake_RecordUnsuccessfulPoll sf
      else
        let sf = (if choice \<noteq> bflake_Preference sf
                  then sf\<lparr>b_confidence := clear (b_confidence sf)\<rparr> else sf);
            sf = sf\<lparr>b_slush := bslush_RecordSuccessfulPoll choice (b_slush sf)\<rparr>;
            (cs, fin) = confidence_loop cnt (b_terminationConditions sf) (b_confidence sf)
        in sf\<lparr>b_confidence := cs, b_finalized := (fin \<or> b_finalized sf)\<rparr>)"

record binarySnowball =
  bs_flake :: binarySnowflake
  bs_preference :: nat
  bs_preferenceStrength :: "int arr2"

definition newBinarySnowball :: "int \<Rightarrow> terminationCondition list \<Rightarrow> nat \<Rightarrow> binarySnowball" where
  "newBinarySnowball ap tcs choice =
     \<lparr>bs_flake = newBinarySnowflake ap tcs choice, bs_preference = choice,
      bs_preferenceStrength = (0, 0)\<rparr>"

definition bball_Preference :: "binarySnowball \<Rightarrow> nat" where
  "bball_Preference sb =
     (if b_finalized (bs_flake sb) then bflake_Preference (bs_flake sb) else bs_preference sb)"

definition bball_RecordPoll :: "int \<Rightarrow> nat \<Rightarrow> binarySnowball \<Rightarrow> binarySnowball" where
  "bball_RecordPoll cnt choice sb =
     (let sb = (if cnt \<ge> b_alphaPreference (bs_flake sb) then
                  let sb = sb\<lparr>bs_preferenceStrength :=
                             set2 (bs_preferenceStrength sb) choice
                               (get2 (bs_preferenceStrength sb) choice + 1)\<rparr>
                  in if get2 (bs_preferenceStrength sb) choice >
                        get2 (bs_preferenceStrength sb) (1 - choice)
                     then sb\<lparr>bs_preference := choice\<rparr> else sb
                else sb)
      in sb\<lparr>bs_flake := bflake_RecordPoll cnt choice (bs_flake sb)\<rparr>)"

text \<open>\<open>Extend\<close> and \<open>Clone\<close> of the unary instances.\<close>

definition uflake_Extend :: "nat \<Rightarrow> unarySnowflake \<Rightarrow> binarySnowflake" where
  "uflake_Extend choice sf =
     \<lparr>b_slush = \<lparr>bsl_preference = choice\<rparr>, b_alphaPreference = u_alphaPreference sf,
      b_terminationConditions = u_terminationConditions sf,
      b_confidence = u_confidence sf, b_finalized = u_finalized sf\<rparr>"

definition uball_Extend :: "nat \<Rightarrow> unarySnowball \<Rightarrow> binarySnowball" where
  "uball_Extend choice sb =
     \<lparr>bs_flake = uflake_Extend choice (us_flake sb), bs_preference = choice,
      bs_preferenceStrength = set2 (0, 0) choice (us_preferenceStrength sb)\<rparr>"

subsection \<open>N-ary instances\<close>

record nnarySlush =
  nsl_preference :: ID

definition newNnarySlush :: "ID \<Rightarrow> nnarySlush" where
  "newNnarySlush choice = \<lparr>nsl_preference = choice\<rparr>"

definition nslush_RecordSuccessfulPoll :: "ID \<Rightarrow> nnarySlush \<Rightarrow> nnarySlush" where
  "nslush_RecordSuccessfulPoll choice sl = sl\<lparr>nsl_preference := choice\<rparr>"

record nnarySnowflake =
  n_slush :: nnarySlush
  n_alphaPreference :: int
  n_terminationConditions :: "terminationCondition list"
  n_confidence :: "int list"
  n_finalized :: bool

definition newNnarySnowflake :: "int \<Rightarrow> terminationCondition list \<Rightarrow> ID \<Rightarrow> nnarySnowflake" where
  "newNnarySnowflake ap tcs choice =
     \<lparr>n_slush = newNnarySlush choice, n_alphaPreference = ap, n_terminationConditions = tcs,
      n_confidence = replicate (length tcs) 0, n_finalized = False\<rparr>"

definition nflake_Preference :: "nnarySnowflake \<Rightarrow> ID" where
  "nflake_Preference sf = nsl_preference (n_slush sf)"

definition nflake_Add :: "ID \<Rightarrow> nnarySnowflake \<Rightarrow> nnarySnowflake" where
  "nflake_Add choice sf = sf"

definition nflake_RecordUnsuccessfulPoll :: "nnarySnowflake \<Rightarrow> nnarySnowflake" where
  "nflake_RecordUnsuccessfulPoll sf = sf\<lparr>n_confidence := clear (n_confidence sf)\<rparr>"

definition nflake_RecordPoll :: "int \<Rightarrow> ID \<Rightarrow> nnarySnowflake \<Rightarrow> nnarySnowflake" where
  "nflake_RecordPoll cnt choice sf =
     (if n_finalized sf then sf
      else if cnt < n_alphaPreference sf then nflake_RecordUnsuccessfulPoll sf
      else
        let sf = (if choice \<noteq> nflake_Preference sf
                  then sf\<lparr>n_confidence := clear (n_confidence sf)\<rparr> else sf);
            sf = sf\<lparr>n_slush := nslush_RecordSuccessfulPoll choice (n_slush sf)\<rparr>;
            (cs, fin) = confidence_loop cnt (n_terminationConditions sf) (n_confidence sf)
        in sf\<lparr>n_confidence := cs, n_finalized := (fin \<or> n_finalized sf)\<rparr>)"

record nnarySnowball =
  ns_flake :: nnarySnowflake
  ns_preference :: ID
  ns_maxPreferenceStrength :: int
  ns_preferenceStrength :: "(ID, int) gomap"

definition newNnarySnowball :: "int \<Rightarrow> terminationCondition list \<Rightarrow> ID \<Rightarrow> nnarySnowball" where
  "newNnarySnowball ap tcs choice =
     \<lparr>ns_flake = newNnarySnowflake ap tcs choice, ns_preference = choice,
      ns_maxPreferenceStrength = 0, ns_preferenceStrength = []\<rparr>"

definition nball_Preference :: "nnarySnowball \<Rightarrow> ID" where
  "nball_Preference sb =
     (if n_finalized (ns_flake sb) then nflake_Preference (ns_flake sb) else ns_preference sb)"

definition nball_RecordPoll :: "int \<Rightarrow> ID \<Rightarrow> nnarySnowball \<Rightarrow> nnarySnowball" where
  "nball_RecordPoll cnt choice sb =
     (let sb = (if cnt \<ge> n_alphaPreference (ns_flake sb) then
                  let strength = mget_or 0 (ns_preferenceStrength sb) choice + 1;
                      sb = sb\<lparr>ns_preferenceStrength := mput choice strength (ns_preferenceStrength sb)\<rparr>
                  in if strength > ns_maxPreferenceStrength sb
                     then sb\<lparr>ns_preference := choice, ns_maxPreferenceStrength := strength\<rparr> else sb
                else sb)
      in sb\<lparr>ns_flake := nflake_RecordPoll cnt choice (ns_flake sb)\<rparr>)"

subsection \<open>The interfaces and the factories\<close>

text \<open>The Go interfaces \<open>Unary\<close>, \<open>Binary\<close> and \<open>Nnary\<close> with their two implementations each.\<close>

datatype Unary = USnowflake unarySnowflake | USnowball unarySnowball
datatype Binary = BSnowflake binarySnowflake | BSnowball binarySnowball
datatype Nnary = NSnowflake nnarySnowflake | NSnowball nnarySnowball

fun unary_flake :: "Unary \<Rightarrow> unarySnowflake" where
  "unary_flake (USnowflake sf) = sf"
| "unary_flake (USnowball sb) = us_flake sb"

fun unary_RecordPoll :: "int \<Rightarrow> Unary \<Rightarrow> Unary" where
  "unary_RecordPoll cnt (USnowflake sf) = USnowflake (uflake_RecordPoll cnt sf)"
| "unary_RecordPoll cnt (USnowball sb) = USnowball (uball_RecordPoll cnt sb)"

fun unary_RecordUnsuccessfulPoll :: "Unary \<Rightarrow> Unary" where
  "unary_RecordUnsuccessfulPoll (USnowflake sf) = USnowflake (uflake_RecordUnsuccessfulPoll sf)"
| "unary_RecordUnsuccessfulPoll (USnowball sb) =
     USnowball (sb\<lparr>us_flake := uflake_RecordUnsuccessfulPoll (us_flake sb)\<rparr>)"

definition unary_Finalized :: "Unary \<Rightarrow> bool" where
  "unary_Finalized u = u_finalized (unary_flake u)"

fun unary_Extend :: "nat \<Rightarrow> Unary \<Rightarrow> Binary" where
  "unary_Extend choice (USnowflake sf) = BSnowflake (uflake_Extend choice sf)"
| "unary_Extend choice (USnowball sb) = BSnowball (uball_Extend choice sb)"

text \<open>\<open>Clone\<close> copies the struct and its confidence slice: the identity on values.\<close>

definition unary_Clone :: "Unary \<Rightarrow> Unary" where
  "unary_Clone u = u"

fun binary_flake :: "Binary \<Rightarrow> binarySnowflake" where
  "binary_flake (BSnowflake sf) = sf"
| "binary_flake (BSnowball sb) = bs_flake sb"

fun binary_Preference :: "Binary \<Rightarrow> nat" where
  "binary_Preference (BSnowflake sf) = bflake_Preference sf"
| "binary_Preference (BSnowball sb) = bball_Preference sb"

fun binary_RecordPoll :: "int \<Rightarrow> nat \<Rightarrow> Binary \<Rightarrow> Binary" where
  "binary_RecordPoll cnt choice (BSnowflake sf) = BSnowflake (bflake_RecordPoll cnt choice sf)"
| "binary_RecordPoll cnt choice (BSnowball sb) = BSnowball (bball_RecordPoll cnt choice sb)"

fun binary_RecordUnsuccessfulPoll :: "Binary \<Rightarrow> Binary" where
  "binary_RecordUnsuccessfulPoll (BSnowflake sf) = BSnowflake (bflake_RecordUnsuccessfulPoll sf)"
| "binary_RecordUnsuccessfulPoll (BSnowball sb) =
     BSnowball (sb\<lparr>bs_flake := bflake_RecordUnsuccessfulPoll (bs_flake sb)\<rparr>)"

definition binary_Finalized :: "Binary \<Rightarrow> bool" where
  "binary_Finalized b = b_finalized (binary_flake b)"

fun nnary_flake :: "Nnary \<Rightarrow> nnarySnowflake" where
  "nnary_flake (NSnowflake sf) = sf"
| "nnary_flake (NSnowball sb) = ns_flake sb"

fun nnary_Preference :: "Nnary \<Rightarrow> ID" where
  "nnary_Preference (NSnowflake sf) = nflake_Preference sf"
| "nnary_Preference (NSnowball sb) = nball_Preference sb"

fun nnary_RecordPoll :: "int \<Rightarrow> ID \<Rightarrow> Nnary \<Rightarrow> Nnary" where
  "nnary_RecordPoll cnt choice (NSnowflake sf) = NSnowflake (nflake_RecordPoll cnt choice sf)"
| "nnary_RecordPoll cnt choice (NSnowball sb) = NSnowball (nball_RecordPoll cnt choice sb)"

fun nnary_RecordUnsuccessfulPoll :: "Nnary \<Rightarrow> Nnary" where
  "nnary_RecordUnsuccessfulPoll (NSnowflake sf) = NSnowflake (nflake_RecordUnsuccessfulPoll sf)"
| "nnary_RecordUnsuccessfulPoll (NSnowball sb) =
     NSnowball (sb\<lparr>ns_flake := nflake_RecordUnsuccessfulPoll (ns_flake sb)\<rparr>)"

definition nnary_Finalized :: "Nnary \<Rightarrow> bool" where
  "nnary_Finalized n = n_finalized (nnary_flake n)"

datatype Factory = SnowballFactory | SnowflakeFactory

fun NewNnary :: "Factory \<Rightarrow> Parameters \<Rightarrow> ID \<Rightarrow> Nnary" where
  "NewNnary SnowballFactory params choice =
     NSnowball (newNnarySnowball (AlphaPreference params)
       (newSingleTerminationCondition (AlphaConfidence params) (Beta params)) choice)"
| "NewNnary SnowflakeFactory params choice =
     NSnowflake (newNnarySnowflake (AlphaPreference params)
       (newSingleTerminationCondition (AlphaConfidence params) (Beta params)) choice)"

fun NewUnary :: "Factory \<Rightarrow> Parameters \<Rightarrow> Unary" where
  "NewUnary SnowballFactory params =
     USnowball (newUnarySnowball (AlphaPreference params)
       (newSingleTerminationCondition (AlphaConfidence params) (Beta params)))"
| "NewUnary SnowflakeFactory params =
     USnowflake (newUnarySnowflake (AlphaPreference params)
       (newSingleTerminationCondition (AlphaConfidence params) (Beta params)))"

text \<open>\<open>Flat\<close> wraps one n-ary instance (\<open>flat.go\<close>).\<close>

record Flat =
  flat_nnary :: Nnary
  flat_params :: Parameters

definition NewFlat :: "Factory \<Rightarrow> Parameters \<Rightarrow> ID \<Rightarrow> Flat" where
  "NewFlat factory params choice = \<lparr>flat_nnary = NewNnary factory params choice, flat_params = params\<rparr>"

definition flat_RecordPoll :: "ID bag \<Rightarrow> Flat \<Rightarrow> Flat \<times> bool" where
  "flat_RecordPoll votes f =
     (let (pollMode, numVotes) = Mode Empty votes
      in (f\<lparr>flat_nnary := nnary_RecordPoll numVotes pollMode (flat_nnary f)\<rparr>,
          numVotes \<ge> AlphaPreference (flat_params f)))"

subsection \<open>Parameter validation\<close>

lemma Verify_None_iff:
  "Verify p = None \<longleftrightarrow>
     go_div (K_param p) 2 < AlphaPreference p \<and> AlphaPreference p \<le> AlphaConfidence p \<and>
     AlphaConfidence p \<le> K_param p \<and> 0 < ConcurrentRepolls p \<and> ConcurrentRepolls p \<le> Beta p \<and>
     0 < OptimalProcessing p \<and> 0 < MaxOutstandingItems p \<and> 0 < MaxItemProcessingTime p"
  by (auto simp: Verify_def)

lemma go_div_2_lt: "go_div k 2 < a \<Longrightarrow> a \<le> k \<Longrightarrow> 0 < k \<and> k < 2 * a"
  by (cases "0 < k"; cases "k = 0") (auto simp: go_div_def)

text \<open>Valid parameters make \<open>AlphaPreference\<close> a strict majority of a positive sample size.\<close>

lemma Verify_majority:
  assumes "Verify p = None"
  shows "0 < K_param p" "K_param p < 2 * AlphaPreference p" "0 < AlphaPreference p" "0 < Beta p"
    "AlphaPreference p \<le> AlphaConfidence p"
  using assms go_div_2_lt [of "K_param p" "AlphaPreference p"] by (auto simp: Verify_None_iff)

subsection \<open>The confidence counters\<close>

lemma clear_simps [simp]: "length (clear cs) = length cs" "clear (map f xs) = map (\<lambda>_. 0) xs"
  by (simp_all add: clear_def)

definition ascending :: "terminationCondition list \<Rightarrow> bool" where
  "ascending tcs \<longleftrightarrow> sorted_wrt (\<lambda>x y. alphaConfidence x < alphaConfidence y) tcs"

lemma confidence_loop_spec:
  assumes "ascending tcs" "confidence_loop n tcs (map f tcs) = (cs, fin)"
  shows "(fin \<longleftrightarrow> (\<exists>tc \<in> set tcs. alphaConfidence tc \<le> n \<and> beta tc \<le> f tc + 1)) \<and>
    (\<not> fin \<longrightarrow> cs = map (\<lambda>tc. if n < alphaConfidence tc then 0 else f tc + 1) tcs)"
  using assms
proof (induction tcs arbitrary: cs)
  case (Cons tc tcs)
  have asc: "ascending tcs" "\<forall>t \<in> set tcs. alphaConfidence tc < alphaConfidence t"
    using Cons.prems by (auto simp: ascending_def)
  obtain cs' fin' where rec: "confidence_loop n tcs (map f tcs) = (cs', fin')" by (rule prod.exhaust)
  show ?case
  proof (cases "n < alphaConfidence tc \<or> beta tc \<le> f tc + 1")
    case True
    then show ?thesis using Cons.prems(2) asc(2) by (fastforce split: if_splits)
  next
    case False
    then have "fin = fin'" "cs = (f tc + 1) # cs'" using Cons.prems(2) rec by auto
    moreover note Cons.IH [OF asc(1)] rec
    ultimately show ?thesis using False by auto
  qed
qed auto

text \<open>
  One poll of a snowflake instance on its preference, confidence counters and finalized flag.
  Binary and n-ary instances are both instances of this step.
\<close>

definition flake_step ::
  "int \<Rightarrow> terminationCondition list \<Rightarrow> int \<Rightarrow> 'c \<Rightarrow> 'c \<times> int list \<times> bool \<Rightarrow> 'c \<times> int list \<times> bool" where
  "flake_step ap tcs n c = (\<lambda>(p, cs, fin).
     if fin then (p, cs, fin)
     else if n < ap then (p, clear cs, fin)
     else let (cs', fin') = confidence_loop n tcs (if c \<noteq> p then clear cs else cs)
          in (c, cs', fin'))"

text \<open>
  A poll history lists polls \<open>(count, choice)\<close>, the latest first.  \<open>streak a h\<close> is the length of the
  current run of polls for one choice that all reached \<open>a\<close> votes.
\<close>

fun streak :: "int \<Rightarrow> (int \<times> 'c) list \<Rightarrow> nat" where
  "streak a [] = 0"
| "streak a ((n, c) # h) = length (takeWhile (\<lambda>(n', c'). a \<le> n' \<and> c' = c) ((n, c) # h))"

fun last_choice :: "int \<Rightarrow> 'c \<Rightarrow> (int \<times> 'c) list \<Rightarrow> 'c" where
  "last_choice ap p [] = p"
| "last_choice ap p ((n, c) # h) = (if ap \<le> n then c else last_choice ap p h)"

lemma streak_below: "n < a \<Longrightarrow> streak a ((n, c) # h) = 0"
  by simp

lemma streak_Cons:
  assumes "a \<le> n" "ap \<le> a"
  shows "streak a ((n, c) # h) = Suc (if c = last_choice ap p h then streak a h else 0)"
proof (cases h)
  case (Cons q h')
  then show ?thesis using assms by (cases q) auto
qed (use assms in simp)

definition reached :: "terminationCondition list \<Rightarrow> (int \<times> 'c) list \<Rightarrow> bool" where
  "reached tcs h \<longleftrightarrow> (\<exists>tc \<in> set tcs. beta tc \<le> int (streak (alphaConfidence tc) h))"

text \<open>Some moment of the history completed a run of \<open>beta\<close> polls.\<close>

fun decided :: "terminationCondition list \<Rightarrow> (int \<times> 'c) list \<Rightarrow> bool" where
  "decided tcs [] = False"
| "decided tcs (q # h) = (reached tcs (q # h) \<or> decided tcs h)"

text \<open>
  \<open>snowflake_instance\<close> is the contract of the snowflake implementations: a poll acts on
  preference, counters and flag as \<open>flake_step\<close> does and keeps the configuration.  What a whole
  history of polls does to an instance is proved once, from this contract.
\<close>

locale snowflake_instance =
  fixes poll :: "int \<Rightarrow> 'c \<Rightarrow> 's \<Rightarrow> 's"
    and pref :: "'s \<Rightarrow> 'c"
    and conf :: "'s \<Rightarrow> int list"
    and fin :: "'s \<Rightarrow> bool"
    and ap :: "'s \<Rightarrow> int"
    and conds :: "'s \<Rightarrow> terminationCondition list"
  assumes poll_step:
      "(pref (poll n c s), conf (poll n c s), fin (poll n c s)) =
         flake_step (ap s) (conds s) n c (pref s, conf s, fin s)"
    and ap_poll [simp]: "ap (poll n c s) = ap s"
    and conds_poll [simp]: "conds (poll n c s) = conds s"
begin

lemma poll_finalized:
  assumes "fin s"
  shows "pref (poll n c s) = pref s" "conf (poll n c s) = conf s" "fin (poll n c s)"
  using poll_step [of n c s] assms by (simp_all add: flake_step_def)

lemma poll_unsuccessful:
  assumes "\<not> fin s" "n < ap s"
  shows "pref (poll n c s) = pref s" "conf (poll n c s) = clear (conf s)" "\<not> fin (poll n c s)"
  using poll_step [of n c s] assms by (simp_all add: flake_step_def)

lemma poll_successful:
  assumes "\<not> fin s" "ap s \<le> n"
  shows "pref (poll n c s) = c"
    and "confidence_loop n (conds s) (if c \<noteq> pref s then clear (conf s) else conf s) =
      (conf (poll n c s), fin (poll n c s))"
  using poll_step [of n c s] assms by (auto simp: flake_step_def split: prod.splits)

definition run :: "(int \<times> 'c) list \<Rightarrow> 's \<Rightarrow> 's" where
  "run h s = foldr (\<lambda>(n, c). poll n c) h s"

lemma run_simps [simp]: "run [] s = s" "run ((n, c) # h) s = poll n c (run h s)"
  by (simp_all add: run_def)

lemma run_config [simp]: "ap (run h s) = ap s" "conds (run h s) = conds s"
  by (induction h) auto

definition fresh :: "'s \<Rightarrow> bool" where
  "fresh s \<longleftrightarrow> \<not> fin s \<and> conf s = map (\<lambda>_. 0) (conds s) \<and> ascending (conds s) \<and>
     (\<forall>tc \<in> set (conds s). ap s \<le> alphaConfidence tc \<and> 0 < beta tc)"

text \<open>
  From a fresh instance, the instance is finalized exactly when some run of polls was long
  enough; until then each counter is the length of the current run for its threshold and the
  preference is the latest choice that reached \<open>alphaPreference\<close>.
\<close>

lemma run_spec:
  assumes "fresh s"
  shows "(fin (run h s) \<longleftrightarrow> decided (conds s) h) \<and>
    (\<not> fin (run h s) \<longrightarrow>
       conf (run h s) = map (\<lambda>tc. int (streak (alphaConfidence tc) h)) (conds s) \<and>
       pref (run h s) = last_choice (ap s) (pref s) h)"
proof (induction h)
  case Nil
  then show ?case using assms by (simp add: fresh_def)
next
  case (Cons q h)
  obtain n c where q [simp]: "q = (n, c)" by (cases q)
  let ?r = "run h s" and ?tcs = "conds s"
  have asc: "ascending ?tcs" and tcs: "\<And>tc. tc \<in> set ?tcs \<Longrightarrow> ap s \<le> alphaConfidence tc \<and> 0 < beta tc"
    using assms by (auto simp: fresh_def)
  show ?case
  proof (cases "fin ?r")
    case True
    then show ?thesis using Cons.IH poll_finalized(3) by auto
  next
    case nfin: False
    then have conf: "conf ?r = map (\<lambda>tc. int (streak (alphaConfidence tc) h)) ?tcs"
      and pref: "pref ?r = last_choice (ap s) (pref s) h" and ndec: "\<not> decided ?tcs h"
      using Cons.IH by auto
    show ?thesis
    proof (cases "n < ap s")
      case True
      then have below: "\<And>tc. tc \<in> set ?tcs \<Longrightarrow> n < alphaConfidence tc" using tcs by fastforce
      then have "\<not> reached ?tcs (q # h)" using tcs by (force simp: reached_def streak_below)
      then show ?thesis
        using poll_unsuccessful [of ?r n c] nfin True ndec below pref conf by (auto simp: not_le)
    next
      case False
      define f where "f tc = (if c = pref ?r then int (streak (alphaConfidence tc) h) else 0)"
        for tc :: terminationCondition
      have cs: "(if c \<noteq> pref ?r then clear (conf ?r) else conf ?r) = map f ?tcs"
        by (simp add: conf f_def)
      have st: "int (streak (alphaConfidence tc) (q # h)) = f tc + 1"
        if "tc \<in> set ?tcs" "alphaConfidence tc \<le> n" for tc
        using streak_Cons [of "alphaConfidence tc" n "ap s" c h "pref s"] that tcs pref
        by (simp add: f_def)
      have loop: "confidence_loop n ?tcs (map f ?tcs) = (conf (run (q # h) s), fin (run (q # h) s))"
        using poll_successful(2) [of ?r n c] nfin False cs by simp
      note spec = confidence_loop_spec [OF asc loop]
      have "alphaConfidence tc \<le> n \<and> beta tc \<le> f tc + 1 \<longleftrightarrow>
          beta tc \<le> int (streak (alphaConfidence tc) (q # h))" if "tc \<in> set ?tcs" for tc
        using st [OF that] tcs [OF that] streak_below [of n "alphaConfidence tc" c h]
        by (cases "alphaConfidence tc \<le> n") auto
      then have "fin (run (q # h) s) \<longleftrightarrow> reached ?tcs (q # h)"
        unfolding reached_def using spec by blast
      moreover have "conf (run (q # h) s) = map (\<lambda>tc. int (streak (alphaConfidence tc) (q # h))) ?tcs"
        if "\<not> fin (run (q # h) s)"
        using spec that st streak_below [of n _ c h] by (auto simp: not_less)
      moreover have "pref (run (q # h) s) = c"
        using poll_successful(1) [of ?r n c] nfin False by simp
      ultimately show ?thesis using ndec False by auto
    qed
  qed
qed

lemma run_finalized_stable:
  "fin s \<Longrightarrow> pref (run h s) = pref s \<and> conf (run h s) = conf s \<and> fin (run h s)"
  by (induction h) (auto simp: poll_finalized)

end

lemma nflake_poll_step:
  "(nflake_Preference (nflake_RecordPoll n c s), n_confidence (nflake_RecordPoll n c s),
    n_finalized (nflake_RecordPoll n c s)) =
   flake_step (n_alphaPreference s) (n_terminationConditions s) n c
     (nflake_Preference s, n_confidence s, n_finalized s)"
  by (simp add: nflake_RecordPoll_def flake_step_def nflake_RecordUnsuccessfulPoll_def
      nflake_Preference_def nslush_RecordSuccessfulPoll_def Let_def split: prod.split)

lemma nflake_config [simp]:
  "n_alphaPreference (nflake_RecordPoll n c s) = n_alphaPreference s"
  "n_terminationConditions (nflake_RecordPoll n c s) = n_terminationConditions s"
  by (simp_all add: nflake_RecordPoll_def nflake_RecordUnsuccessfulPoll_def Let_def split: prod.split)

interpretation nflake: snowflake_instance nflake_RecordPoll nflake_Preference n_confidence n_finalized
  n_alphaPreference n_terminationConditions
  by unfold_locales (simp_all add: nflake_poll_step)

lemma bflake_poll_step:
  "(bflake_Preference (bflake_RecordPoll n c s), b_confidence (bflake_RecordPoll n c s),
    b_finalized (bflake_RecordPoll n c s)) =
   flake_step (b_alphaPreference s) (b_terminationConditions s) n c
     (bflake_Preference s, b_confidence s, b_finalized s)"
  by (simp add: bflake_RecordPoll_def flake_step_def bflake_RecordUnsuccessfulPoll_def
      bflake_Preference_def bslush_RecordSuccessfulPoll_def Let_def split: prod.split)

lemma bflake_config [simp]:
  "b_alphaPreference (bflake_RecordPoll n c s) = b_alphaPreference s"
  "b_terminationConditions (bflake_RecordPoll n c s) = b_terminationConditions s"
  by (simp_all add: bflake_RecordPoll_def bflake_RecordUnsuccessfulPoll_def Let_def split: prod.split)

interpretation bflake: snowflake_instance bflake_RecordPoll bflake_Preference b_confidence b_finalized
  b_alphaPreference b_terminationConditions
  by unfold_locales (simp_all add: bflake_poll_step)

lemma fresh_newNnarySnowflake:
  assumes "ascending tcs" "\<forall>tc \<in> set tcs. ap \<le> alphaConfidence tc \<and> 0 < beta tc"
  shows "nflake.fresh (newNnarySnowflake ap tcs c)"
  using assms by (simp add: nflake.fresh_def newNnarySnowflake_def map_replicate_const)

lemma fresh_newBinarySnowflake:
  assumes "ascending tcs" "\<forall>tc \<in> set tcs. ap \<le> alphaConfidence tc \<and> 0 < beta tc"
  shows "bflake.fresh (newBinarySnowflake ap tcs c)"
  using assms by (simp add: bflake.fresh_def newBinarySnowflake_def map_replicate_const)

lemma single_conditions:
  assumes "Verify p = None"
  shows "ascending (newSingleTerminationCondition (AlphaConfidence p) (Beta p))"
    "\<forall>tc \<in> set (newSingleTerminationCondition (AlphaConfidence p) (Beta p)).
       AlphaPreference p \<le> alphaConfidence tc \<and> 0 < beta tc"
  using Verify_majority [OF assms] by (simp_all add: newSingleTerminationCondition_def ascending_def)

subsection \<open>Snowball preferences\<close>

text \<open>\<open>wins ap h c\<close>: the number of polls in which \<open>c\<close> reached \<open>alphaPreference\<close>.\<close>

definition wins :: "int \<Rightarrow> (int \<times> 'c) list \<Rightarrow> 'c \<Rightarrow> nat" where
  "wins ap h c = length (filter (\<lambda>(n, c'). ap \<le> n \<and> c' = c) h)"

lemma wins_simps [simp]:
  "wins ap [] c = 0"
  "wins ap ((n, c') # h) c = (if ap \<le> n \<and> c' = c then Suc (wins ap h c) else wins ap h c)"
  by (simp_all add: wins_def)

definition nball_run :: "(int \<times> ID) list \<Rightarrow> nnarySnowball \<Rightarrow> nnarySnowball" where
  "nball_run h sb = foldr (\<lambda>(n, c). nball_RecordPoll n c) h sb"

definition bball_run :: "(int \<times> nat) list \<Rightarrow> binarySnowball \<Rightarrow> binarySnowball" where
  "bball_run h sb = foldr (\<lambda>(n, c). bball_RecordPoll n c) h sb"

lemma nball_flake [simp]: "ns_flake (nball_RecordPoll n c sb) = nflake_RecordPoll n c (ns_flake sb)"
  by (simp add: nball_RecordPoll_def Let_def)

lemma bball_flake [simp]: "bs_flake (bball_RecordPoll n c sb) = bflake_RecordPoll n c (bs_flake sb)"
  by (simp add: bball_RecordPoll_def Let_def)

lemma nball_run_flake: "ns_flake (nball_run h sb) = nflake.run h (ns_flake sb)"
  by (induction h) (auto simp: nball_run_def nflake.run_def)

lemma bball_run_flake: "bs_flake (bball_run h sb) = bflake.run h (bs_flake sb)"
  by (induction h) (auto simp: bball_run_def bflake.run_def)

text \<open>The counters of a snowball instance agree with the history of its polls.\<close>

definition nball_counts :: "(int \<times> ID) list \<Rightarrow> nnarySnowball \<Rightarrow> bool" where
  "nball_counts h sb \<longleftrightarrow>
     (\<forall>c. mget_or 0 (ns_preferenceStrength sb) c = int (wins (n_alphaPreference (ns_flake sb)) h c)) \<and>
     (\<forall>c. int (wins (n_alphaPreference (ns_flake sb)) h c) \<le> ns_maxPreferenceStrength sb) \<and>
     int (wins (n_alphaPreference (ns_flake sb)) h (ns_preference sb)) = ns_maxPreferenceStrength sb"

lemma nball_counts_poll:
  assumes "nball_counts h sb"
  shows "nball_counts ((n, c) # h) (nball_RecordPoll n c sb)"
proof (cases "n_alphaPreference (ns_flake sb) \<le> n")
  case True
  let ?w = "wins (n_alphaPreference (ns_flake sb)) h"
  have w: "mget_or 0 (ns_preferenceStrength sb) x = int (?w x)"
    "int (?w x) \<le> ns_maxPreferenceStrength sb"
    "int (?w (ns_preference sb)) = ns_maxPreferenceStrength sb" for x
    using assms by (simp_all add: nball_counts_def)
  show ?thesis
  proof (cases "ns_maxPreferenceStrength sb < int (?w c) + 1")
    case less: True
    have "int (?w x) \<le> int (?w c) + 1" for x using w(2) [of x] less by linarith
    then show ?thesis
      using True less w by (simp add: nball_counts_def nball_RecordPoll_def Let_def)
  next
    case False
    then have "c \<noteq> ns_preference sb" using w(3) by auto
    then show ?thesis
      using True False w by (simp add: nball_counts_def nball_RecordPoll_def Let_def)
  qed
next
  case False
  then show ?thesis using assms by (simp add: nball_counts_def nball_RecordPoll_def Let_def)
qed

lemma nball_counts_run: "nball_counts h (nball_run h (newNnarySnowball ap tcs c0))"
proof (induction h)
  case Nil
  then show ?case by (simp add: nball_run_def nball_counts_def newNnarySnowball_def)
next
  case (Cons q h)
  then show ?case using nball_counts_poll by (cases q) (simp add: nball_run_def)
qed

definition bball_counts :: "(int \<times> nat) list \<Rightarrow> binarySnowball \<Rightarrow> bool" where
  "bball_counts h sb \<longleftrightarrow>
     fst (bs_preferenceStrength sb) = int (wins (b_alphaPreference (bs_flake sb)) h 0) \<and>
     snd (bs_preferenceStrength sb) = int (wins (b_alphaPreference (bs_flake sb)) h 1) \<and>
     bs_preference sb < 2 \<and>
     get2 (bs_preferenceStrength sb) (1 - bs_preference sb) \<le> get2 (bs_preferenceStrength sb) (bs_preference sb)"

lemma bball_counts_poll:
  assumes "bball_counts h sb" "c < 2"
  shows "bball_counts ((n, c) # h) (bball_RecordPoll n c sb)"
proof (cases "b_alphaPreference (bs_flake sb) \<le> n")
  case True
  have c: "c = 0 \<or> c = 1" and p: "bs_preference sb = 0 \<or> bs_preference sb = 1"
    using assms by (auto simp: bball_counts_def)
  show ?thesis
    using assms(1) True p c
    by (elim disjE) (simp_all add: bball_counts_def bball_RecordPoll_def Let_def get2_def set2_def)
next
  case False
  then show ?thesis using assms by (simp add: bball_counts_def bball_RecordPoll_def Let_def)
qed

lemma bball_counts_run:
  assumes "\<forall>(n, c) \<in> set h. c < 2" "c0 < 2"
  shows "bball_counts h (bball_run h (newBinarySnowball ap tcs c0))"
  using assms(1)
proof (induction h)
  case Nil
  then show ?case using assms(2)
    by (simp add: bball_run_def bball_counts_def newBinarySnowball_def get2_def)
next
  case (Cons q h)
  then show ?case using bball_counts_poll by (cases q) (simp add: bball_run_def)
qed

subsection \<open>Properties\<close>

text \<open>
  C20.  An \<open>nnarySnowflake\<close> built by the factory from verified parameters is finalized after a history
  of polls (latest first) exactly when at some moment the last \<open>Beta\<close> polls all gave the same choice
  at least \<open>AlphaConfidence\<close> votes; until then its counter is the length of the current such run
  and it prefers the latest choice that reached \<open>AlphaPreference\<close>.
\<close>

theorem nnarySnowflake_history:
  fixes h :: "(int \<times> ID) list" and c0 :: ID
  assumes "Verify p = None"
  defines "tcs \<equiv> newSingleTerminationCondition (AlphaConfidence p) (Beta p)"
  defines "s \<equiv> foldr (\<lambda>(n, c). nflake_RecordPoll n c) h (newNnarySnowflake (AlphaPreference p) tcs c0)"
  shows "(n_finalized s \<longleftrightarrow> decided tcs h) \<and>
    (\<not> n_finalized s \<longrightarrow> n_confidence s = [int (streak (AlphaConfidence p) h)] \<and>
      nflake_Preference s = last_choice (AlphaPreference p) c0 h)"
proof -
  let ?s0 = "newNnarySnowflake (AlphaPreference p) tcs c0"
  have "nflake.fresh ?s0"
    unfolding tcs_def using single_conditions [OF assms(1)] by (rule fresh_newNnarySnowflake)
  moreover have "n_terminationConditions ?s0 = tcs" "n_alphaPreference ?s0 = AlphaPreference p"
    "nflake_Preference ?s0 = c0" "s = nflake.run h ?s0"
    by (simp_all add: newNnarySnowflake_def newNnarySlush_def nflake_Preference_def s_def nflake.run_def)
  ultimately show ?thesis
    using nflake.run_spec [of ?s0 h] by (simp_all add: tcs_def newSingleTerminationCondition_def)
qed

theorem nnarySnowflake_history_witness:
  "n_finalized (foldr (\<lambda>(n, c). nflake_RecordPoll n c) (replicate 20 (15, 7))
     (newNnarySnowflake 15 (newSingleTerminationCondition 15 20) 5))"
proof -
  have v: "Verify DefaultParameters = None"
    by (simp add: Verify_None_iff DefaultParameters_def go_div_def)
  show ?thesis
    using nnarySnowflake_history [OF v, of "replicate 20 (15, 7)" 5]
    by (simp add: DefaultParameters_def newSingleTerminationCondition_def reached_def numeral_nat)
qed



text \<open>
  C22.  An \<open>nnarySnowball\<close> counts for every choice the polls in which it reached
  \<open>AlphaPreference\<close>, and until it is finalized it prefers a choice no other choice has beaten.
\<close>

theorem nnarySnowball_prefers_most_wins:
  fixes h :: "(int \<times> ID) list" and c0 :: ID and ap :: int and tcs :: "terminationCondition list"
  defines "s \<equiv> foldr (\<lambda>(n, c). nball_RecordPoll n c) h (newNnarySnowball ap tcs c0)"
  shows "mget_or 0 (ns_preferenceStrength s) c = int (wins ap h c) \<and>
    wins ap h c \<le> wins ap h (ns_preference s) \<and>
    nball_Preference s = (if n_finalized (ns_flake s) then nflake_Preference (ns_flake s) else ns_preference s)"
proof -
  have s: "s = nball_run h (newNnarySnowball ap tcs c0)" by (simp add: s_def nball_run_def)
  have ap: "n_alphaPreference (ns_flake s) = ap"
    by (simp add: s nball_run_flake newNnarySnowball_def newNnarySnowflake_def)
  have cs: "nball_counts h s" unfolding s by (rule nball_counts_run)
  have "int (wins ap h c) \<le> int (wins ap h (ns_preference s))"
    using cs by (simp add: nball_counts_def ap)
  then show ?thesis
    using cs by (simp add: nball_Preference_def nball_counts_def ap)
qed

text \<open>
  C23.  Parameters that \<open>Verify\<close> accepts make every preference threshold a strict majority of the
  sample, so no poll of \<open>K\<close> votes can reach it for two choices, and the confidence threshold can
  be met by a sample.
\<close>

theorem Verify_strict_majority:
  assumes "Verify p = None"
  shows "K_param p < 2 * AlphaPreference p \<and> AlphaPreference p \<le> AlphaConfidence p \<and>
    AlphaConfidence p \<le> K_param p \<and> 0 < Beta p"
  using Verify_majority [OF assms] assms by (auto simp: Verify_None_iff)

theorem Verify_strict_majority_witness:
  "K_param DefaultParameters < 2 * AlphaPreference DefaultParameters \<and>
   AlphaPreference DefaultParameters \<le> AlphaConfidence DefaultParameters \<and>
   AlphaConfidence DefaultParameters \<le> K_param DefaultParameters \<and> 0 < Beta DefaultParameters"
  by (rule Verify_strict_majority) (simp add: Verify_None_iff DefaultParameters_def go_div_def)

end
