(* ===== verification/SnowTree.thy ===== *)
theory SnowTree
  imports Snowflake
begin

text \<open>
  The multi-choice consensus instance as a modified patricia tree
  (\<open>src/snow/consensus/snowball/tree.go\<close>).  A \<open>unaryNode\<close> covers a range of identical bits, a
  \<open>binaryNode\<close> decides one bit.  The Go methods mutate the node they are called on and return the
  node that replaces it in the parent; \<open>node_RecordPoll\<close> therefore returns both, the mutated
  receiver first and the returned node second.  The back reference \<open>tree\<close> of the Go structs only
  serves to read \<open>params\<close> and \<open>factory\<close>, which are arguments here.
\<close>

datatype node =
    UnaryNode (u_preference: ID) (u_decidedPrefix: nat) (u_commonPrefix: nat) (u_snow: Unary)
      (u_shouldReset: bool) (u_child: "node option")
  | BinaryNode (b_preferences: "ID arr2") (b_bit: nat) (b_snow: Binary)
      (b_shouldReset: "bool arr2") (b_child0: "node option") (b_child1: "node option")

fun node_Preference :: "node \<Rightarrow> ID" where
  "node_Preference (UnaryNode p dp cp s r ch) = p"
| "node_Preference (BinaryNode ps bitv s r c0 c1) = get2 ps (binary_Preference s)"

fun node_DecidedPrefix :: "node \<Rightarrow> nat" where
  "node_DecidedPrefix (UnaryNode p dp cp s r ch) = dp"
| "node_DecidedPrefix (BinaryNode ps bitv s r c0 c1) = bitv"

fun node_Finalized :: "node \<Rightarrow> bool" where
  "node_Finalized (UnaryNode p dp cp s r ch) = unary_Finalized s"
| "node_Finalized (BinaryNode ps bitv s r c0 c1) = binary_Finalized s"

text \<open>
  The split of a unary node at the first differing bitv (the \<open>switch\<close> of \<open>unaryNode.Add\<close>, cases
  2 to 5 of its comment).  \<open>mkBinary\<close> places the two children by the preferred bitv.
\<close>

definition mkBinary ::
  "ID arr2 \<Rightarrow> nat \<Rightarrow> Binary \<Rightarrow> bool arr2 \<Rightarrow> node option arr2 \<Rightarrow> node" where
  "mkBinary ps index s r chs = BinaryNode ps index s r (fst chs) (snd chs)"

definition split_unary ::
  "Factory \<Rightarrow> Parameters \<Rightarrow> ID \<Rightarrow> nat \<Rightarrow> ID \<Rightarrow> nat \<Rightarrow> nat \<Rightarrow> Unary \<Rightarrow> bool \<Rightarrow> node option \<Rightarrow> node" where
  "split_unary factory params newChoice index preference decidedPrefix commonPrefix snow shouldReset child =
     (let bitv = Bit preference index;
          preferences = set2 (set2 (Empty, Empty) bitv preference) (1 - bitv) newChoice;
          b = mkBinary preferences index (unary_Extend bitv snow) (shouldReset, shouldReset);
          newChild = UnaryNode newChoice (index + 1) NumBits (NewUnary factory params) False None
      in if decidedPrefix + 1 = commonPrefix then
           let chs = set2 (None, None) bitv child;
               chs = (if child \<noteq> None then set2 chs (1 - bitv) (Some newChild) else chs)
           in b chs
         else if index = decidedPrefix then
           let u = UnaryNode preference (decidedPrefix + 1) commonPrefix snow shouldReset child
           in b (set2 (set2 (None, None) bitv (Some u)) (1 - bitv) (Some newChild))
         else if index + 1 = commonPrefix then
           let chs = set2 (None, None) bitv child;
               chs = (if child \<noteq> None then set2 chs (1 - bitv) (Some newChild) else chs)
           in UnaryNode preference decidedPrefix (commonPrefix - 1) snow shouldReset (Some (b chs))
         else
           let u = UnaryNode preference (index + 1) commonPrefix snow shouldReset child
           in UnaryNode preference decidedPrefix index (unary_Clone snow) False
                (Some (b (set2 (set2 (None, None) bitv (Some u)) (1 - bitv) (Some newChild)))))"

fun node_Add :: "Factory \<Rightarrow> Parameters \<Rightarrow> ID \<Rightarrow> node \<Rightarrow> node" where
  "node_Add factory params newChoice (UnaryNode preference dp cp snow reset child) =
     (if unary_Finalized snow then UnaryNode preference dp cp snow reset child
      else
        let (index, found) = FirstDifferenceSubset dp cp preference newChoice in
        if \<not> found then
          (case child of
             None \<Rightarrow> UnaryNode preference dp cp snow reset child
           | Some ch \<Rightarrow>
               UnaryNode preference dp cp snow reset (Some (node_Add factory params newChoice ch)))
        else split_unary factory params newChoice index preference dp cp snow reset child)"
| "node_Add factory params newChoice (BinaryNode ps bitv snow reset c0 c1) =
     (if Bit newChoice bitv = 0 then
        (case c0 of
           None \<Rightarrow> BinaryNode ps bitv snow reset c0 c1
         | Some ch \<Rightarrow> BinaryNode ps bitv snow reset (Some (node_Add factory params newChoice ch)) c1)
      else
        (case c1 of
           None \<Rightarrow> BinaryNode ps bitv snow reset c0 c1
         | Some ch \<Rightarrow> BinaryNode ps bitv snow reset c0 (Some (node_Add factory params newChoice ch))))"

text \<open>
  \<open>RecordPoll\<close>.  The binary case is written for the two values of the winning bitv; \<open>finish\<close> is
  the part after the recursive call, common to both.
\<close>

definition unary_finish ::
  "ID \<Rightarrow> nat \<Rightarrow> nat \<Rightarrow> Unary \<Rightarrow> bool \<Rightarrow> node \<times> node \<times> bool \<Rightarrow> node \<times> node \<times> bool" where
  "unary_finish preference dp cp snow reset = (\<lambda>(child, newChild, _).
     if unary_Finalized snow
     then (UnaryNode preference dp cp snow reset (Some child), newChild, True)
     else let u = UnaryNode (node_Preference child) dp cp snow False (Some child) in (u, u, True))"

definition binary_finish ::
  "nat \<Rightarrow> ID arr2 \<Rightarrow> nat \<Rightarrow> Binary \<Rightarrow> bool arr2 \<Rightarrow> node option arr2 \<Rightarrow> node \<times> node \<times> bool
   \<Rightarrow> node \<times> node \<times> bool" where
  "binary_finish bitv ps pos snow reset chs = (\<lambda>(child, newChild, _).
     if binary_Finalized snow
     then (mkBinary ps pos snow reset (set2 chs bitv (Some child)), newChild, True)
     else let b = mkBinary (set2 ps bitv (node_Preference newChild)) pos snow (set2 reset bitv False)
                    (set2 chs bitv (Some child))
          in (b, b, True))"

fun node_RecordPoll :: "Parameters \<Rightarrow> ID bag \<Rightarrow> bool \<Rightarrow> node \<Rightarrow> node \<times> node \<times> bool" where
  "node_RecordPoll params votes reset (UnaryNode preference dp cp snow shouldReset child) =
     (let snow = (if reset then unary_RecordUnsuccessfulPoll snow else snow);
          shouldReset = (reset \<or> shouldReset);
          numVotes = bag_Len votes in
      if numVotes < AlphaPreference params then
        let u = UnaryNode preference dp cp (unary_RecordUnsuccessfulPoll snow) True child
        in (u, u, False)
      else
        let snow = unary_RecordPoll numVotes snow in
        case child of
          None \<Rightarrow> let u = UnaryNode preference dp cp snow False None in (u, u, True)
        | Some ch \<Rightarrow>
            unary_finish preference dp cp snow shouldReset (node_RecordPoll params votes shouldReset ch))"
| "node_RecordPoll params votes reset (BinaryNode ps pos snow shouldReset c0 c1) =
     (let splitVotes = Split (\<lambda>id. Bit id pos = 1) votes;
          bitv = (if bag_Len (get2 splitVotes 1) \<ge> AlphaPreference params then 1 else 0);
          snow = (if reset then binary_RecordUnsuccessfulPoll snow else snow);
          shouldReset = (if reset then set2 shouldReset bitv True else shouldReset);
          shouldReset = set2 shouldReset (1 - bitv) True;
          prunedVotes = get2 splitVotes bitv;
          numVotes = bag_Len prunedVotes in
      if numVotes < AlphaPreference params then
        let b = BinaryNode ps pos (binary_RecordUnsuccessfulPoll snow) (set2 shouldReset bitv True) c0 c1
        in (b, b, False)
      else
        let snow = binary_RecordPoll numVotes bitv snow in
        if bitv = 0 then
          (case c0 of
             None \<Rightarrow> let b = BinaryNode ps pos snow (set2 shouldReset bitv False) c0 c1 in (b, b, True)
           | Some ch \<Rightarrow>
               binary_finish bitv ps pos snow shouldReset (c0, c1)
                 (node_RecordPoll params prunedVotes (get2 shouldReset bitv) ch))
        else
          (case c1 of
             None \<Rightarrow> let b = BinaryNode ps pos snow (set2 shouldReset bitv False) c0 c1 in (b, b, True)
           | Some ch \<Rightarrow>
               binary_finish bitv ps pos snow shouldReset (c0, c1)
                 (node_RecordPoll params prunedVotes (get2 shouldReset bitv) ch)))"

record Tree =
  tree_node :: node
  tree_params :: Parameters
  tree_shouldReset :: bool
  tree_factory :: Factory

definition NewTree :: "Factory \<Rightarrow> Parameters \<Rightarrow> ID \<Rightarrow> Tree" where
  "NewTree factory params choice =
     \<lparr>tree_node = UnaryNode choice 0 NumBits (NewUnary factory params) False None,
      tree_params = params, tree_shouldReset = False, tree_factory = factory\<rparr>"

definition tree_Preference :: "Tree \<Rightarrow> ID" where
  "tree_Preference t = node_Preference (tree_node t)"

definition tree_Finalized :: "Tree \<Rightarrow> bool" where
  "tree_Finalized t = node_Finalized (tree_node t)"

definition tree_Add :: "ID \<Rightarrow> Tree \<Rightarrow> Tree" where
  "tree_Add choice t =
     (let prefix = node_DecidedPrefix (tree_node t) in
      if EqualSubset 0 prefix (tree_Preference t) choice
      then t\<lparr>tree_node := node_Add (tree_factory t) (tree_params t) choice (tree_node t)\<rparr>
      else t)"

definition tree_RecordPoll :: "ID bag \<Rightarrow> Tree \<Rightarrow> Tree \<times> bool" where
  "tree_RecordPoll votes t =
     (let decidedPrefix = node_DecidedPrefix (tree_node t);
          preference = tree_Preference t;
          filteredVotes = Filter (\<lambda>id. EqualSubset 0 decidedPrefix preference id) votes;
          (_, newNode, successful) =
            node_RecordPoll (tree_params t) filteredVotes (tree_shouldReset t) (tree_node t)
      in (t\<lparr>tree_node := newNode, tree_shouldReset := False\<rparr>, successful))"

definition tree_RecordUnsuccessfulPoll :: "Tree \<Rightarrow> Tree" where
  "tree_RecordUnsuccessfulPoll t = t\<lparr>tree_shouldReset := True\<rparr>"

subsection \<open>The snow instances of a tree\<close>

text \<open>
  The factories build instances with one termination condition, so each instance has a single
  confidence counter (\<open>uconf\<close>, \<open>bconf\<close>).  \<open>u_ok\<close> and \<open>b_ok\<close> say that an instance is configured by
  the parameters and that its counter is below \<open>Beta\<close> as long as it is not finalized.
\<close>

definition uconf :: "Unary \<Rightarrow> int" where
  "uconf s = hd (u_confidence (unary_flake s))"

definition bconf :: "Binary \<Rightarrow> int" where
  "bconf s = hd (b_confidence (binary_flake s))"

definition bslush :: "Binary \<Rightarrow> nat" where
  "bslush s = bflake_Preference (binary_flake s)"

definition u_ok :: "Parameters \<Rightarrow> Unary \<Rightarrow> bool" where
  "u_ok ps s \<longleftrightarrow>
     u_alphaPreference (unary_flake s) = AlphaPreference ps \<and>
     u_terminationConditions (unary_flake s) = newSingleTerminationCondition (AlphaConfidence ps) (Beta ps) \<and>
     (\<exists>c. u_confidence (unary_flake s) = [c] \<and> 0 \<le> c \<and> (unary_Finalized s \<or> c < Beta ps))"

definition b_ok :: "Parameters \<Rightarrow> Binary \<Rightarrow> bool" where
  "b_ok ps s \<longleftrightarrow>
     b_alphaPreference (binary_flake s) = AlphaPreference ps \<and>
     b_terminationConditions (binary_flake s) = newSingleTerminationCondition (AlphaConfidence ps) (Beta ps) \<and>
     (\<exists>c. b_confidence (binary_flake s) = [c] \<and> 0 \<le> c \<and> (binary_Finalized s \<or> c < Beta ps)) \<and>
     bslush s < 2 \<and> binary_Preference s < 2"

lemma uflake_poll_simps:
  "unary_flake (unary_RecordPoll n s) = uflake_RecordPoll n (unary_flake s)"
  "unary_flake (unary_RecordUnsuccessfulPoll s) = uflake_RecordUnsuccessfulPoll (unary_flake s)"
  by (cases s; simp add: uball_RecordPoll_def Let_def)+

lemma confidence_loop_single [simp]:
  "confidence_loop n (newSingleTerminationCondition ac b) [c] =
     (if n < ac then ([0], False) else ([c + 1], b \<le> c + 1))"
  by (simp add: newSingleTerminationCondition_def)

lemma u_okD:
  assumes "u_ok ps s"
  shows "0 \<le> uconf s" "\<not> unary_Finalized s \<Longrightarrow> uconf s < Beta ps"
  using assms by (auto simp: u_ok_def uconf_def)

lemma b_okD:
  assumes "b_ok ps s"
  shows "0 \<le> bconf s" "\<not> binary_Finalized s \<Longrightarrow> bconf s < Beta ps" "bslush s < 2" "binary_Preference s < 2"
  using assms by (auto simp: b_ok_def bconf_def)

lemma u_ok_RecordUnsuccessfulPoll:
  assumes "u_ok ps s" "0 < Beta ps"
  shows "u_ok ps (unary_RecordUnsuccessfulPoll s)" "uconf (unary_RecordUnsuccessfulPoll s) = 0"
    "unary_Finalized (unary_RecordUnsuccessfulPoll s) = unary_Finalized s"
  using assms
  by (auto simp: u_ok_def uconf_def uflake_poll_simps uflake_RecordUnsuccessfulPoll_def
      clear_def unary_Finalized_def)

lemma u_ok_RecordPoll:
  assumes "u_ok ps s" "0 < Beta ps"
  shows "u_ok ps (unary_RecordPoll n s)"
    and "uconf (unary_RecordPoll n s) = (if n < AlphaConfidence ps then 0 else uconf s + 1)"
    and "unary_Finalized (unary_RecordPoll n s) \<longleftrightarrow>
      unary_Finalized s \<or> AlphaConfidence ps \<le> n \<and> Beta ps \<le> uconf s + 1"
  using assms
  by (auto simp: u_ok_def uconf_def uflake_poll_simps uflake_RecordPoll_def unary_Finalized_def
      split: if_splits)

lemma u_ok_NewUnary:
  assumes "0 < Beta ps"
  shows "u_ok ps (NewUnary f ps)" "uconf (NewUnary f ps) = 0" "\<not> unary_Finalized (NewUnary f ps)"
  using assms
  by (cases f; simp add: u_ok_def uconf_def unary_Finalized_def newUnarySnowball_def
      newUnarySnowflake_def newSingleTerminationCondition_def)+

lemma b_ok_Extend:
  assumes "u_ok ps s" "i < 2"
  shows "b_ok ps (unary_Extend i s)" "bconf (unary_Extend i s) = uconf s"
    "binary_Finalized (unary_Extend i s) = unary_Finalized s"
    "bslush (unary_Extend i s) = i" "binary_Preference (unary_Extend i s) = i"
  using assms
  by (cases s; simp add: u_ok_def b_ok_def uconf_def bconf_def bslush_def uball_Extend_def
      uflake_Extend_def bflake_Preference_def bball_Preference_def unary_Finalized_def
      binary_Finalized_def)+

lemma bflake_poll_simps:
  "binary_flake (binary_RecordPoll n c s) = bflake_RecordPoll n c (binary_flake s)"
  "binary_flake (binary_RecordUnsuccessfulPoll s) = bflake_RecordUnsuccessfulPoll (binary_flake s)"
  by (cases s; simp)+

lemma binary_Preference_Unsuccessful [simp]:
  "binary_Preference (binary_RecordUnsuccessfulPoll s) = binary_Preference s"
  by (cases s) (simp_all add: bflake_Preference_def bball_Preference_def bflake_RecordUnsuccessfulPoll_def)

lemma b_ok_RecordUnsuccessfulPoll:
  assumes "b_ok ps s" "0 < Beta ps"
  shows "b_ok ps (binary_RecordUnsuccessfulPoll s)" "bconf (binary_RecordUnsuccessfulPoll s) = 0"
    "binary_Finalized (binary_RecordUnsuccessfulPoll s) = binary_Finalized s"
    "bslush (binary_RecordUnsuccessfulPoll s) = bslush s"
  using assms
  by (auto simp: b_ok_def bconf_def bslush_def bflake_poll_simps
      bflake_RecordUnsuccessfulPoll_def clear_def binary_Finalized_def bflake_Preference_def)

lemma bflake_poll_cases:
  assumes "b_ok ps s" "AlphaPreference ps \<le> n" "\<not> binary_Finalized s"
  shows "bflake_RecordPoll n c (binary_flake s) =
    (let conf = (if n < AlphaConfidence ps then 0 else (if c = bslush s then bconf s else 0) + 1)
     in (binary_flake s)\<lparr>b_slush := \<lparr>bsl_preference = c\<rparr>, b_confidence := [conf],
          b_finalized := (AlphaConfidence ps \<le> n \<and> Beta ps \<le> conf)\<rparr>)"
  using assms
  by (auto simp: bflake_RecordPoll_def b_ok_def bconf_def bslush_def binary_Finalized_def
      bflake_Preference_def bslush_RecordSuccessfulPoll_def clear_def Let_def)

lemma bball_RecordPoll_preference:
  "bs_preference (bball_RecordPoll n c sb) = c \<or> bs_preference (bball_RecordPoll n c sb) = bs_preference sb"
  by (simp add: bball_RecordPoll_def Let_def)

lemma b_ok_RecordPoll:
  assumes "b_ok ps s" "AlphaPreference ps \<le> n" "\<not> binary_Finalized s" "c < 2" "0 < Beta ps"
  defines "s' \<equiv> binary_RecordPoll n c s"
  shows "b_ok ps s'"
    and "bconf s' = (if n < AlphaConfidence ps then 0 else (if c = bslush s then bconf s else 0) + 1)"
    and "binary_Finalized s' \<longleftrightarrow> AlphaConfidence ps \<le> n \<and> Beta ps \<le> bconf s'"
    and "bslush s' = c"
    and "binary_Finalized s' \<Longrightarrow> binary_Preference s' = c"
proof -
  note flake = bflake_poll_cases [OF assms(1-3), of c]
  have f: "binary_flake s' = bflake_RecordPoll n c (binary_flake s)"
    by (simp add: s'_def bflake_poll_simps)
  show conf: "bconf s' = (if n < AlphaConfidence ps then 0 else (if c = bslush s then bconf s else 0) + 1)"
    by (simp add: bconf_def [of s'] f flake Let_def)
  show fin: "binary_Finalized s' \<longleftrightarrow> AlphaConfidence ps \<le> n \<and> Beta ps \<le> bconf s'"
    unfolding conf by (simp add: binary_Finalized_def [of s'] f flake Let_def)
  show sl: "bslush s' = c"
    by (simp add: bslush_def [of s'] f flake Let_def bflake_Preference_def)
  have pref: "binary_Preference s' = c \<or> \<not> binary_Finalized s' \<and> binary_Preference s' = binary_Preference s"
  proof (cases s)
    case (BSnowflake sf)
    then show ?thesis using sl by (simp add: s'_def bslush_def)
  next
    case (BSnowball sb)
    then show ?thesis using sl assms(3) bball_RecordPoll_preference [of n c sb]
      by (auto simp: s'_def bslush_def bball_Preference_def binary_Finalized_def)
  qed
  then show "binary_Preference s' = c" if "binary_Finalized s'" using that by blast
  have "0 \<le> bconf s" using b_okD(1) [OF assms(1)] .
  then have "0 \<le> bconf s'" unfolding conf by simp
  moreover have "b_confidence (binary_flake s') = [bconf s']"
    unfolding conf by (simp add: f flake Let_def)
  moreover have "binary_Finalized s' \<or> bconf s' < Beta ps"
    using fin conf assms(5) by auto
  moreover have "binary_Preference s' < 2" using pref assms(1,4) b_okD(4) by auto
  ultimately show "b_ok ps s'"
    using sl assms(1,4) by (simp add: b_ok_def f flake Let_def)
qed

lemma binary_RecordPoll_finalized:
  assumes "binary_Finalized s"
  shows "binary_flake (binary_RecordPoll n c s) = binary_flake s" "binary_Finalized (binary_RecordPoll n c s)"
    "binary_Preference (binary_RecordPoll n c s) = binary_Preference s"
  using assms
  by (cases s; simp add: binary_Finalized_def bflake_RecordPoll_def bball_Preference_def)+

subsection \<open>The confidence invariant\<close>

text \<open>
  A node that has a child is not finalized, and its confidence bounds the one of the child unless
  the child has a reset pending.  This is what makes the comment of \<open>unaryNode.RecordPoll\<close> (a
  child never decides before its parent) true.
\<close>

fun nconf :: "node \<Rightarrow> int" where
  "nconf (UnaryNode p dp cp s r ch) = uconf s"
| "nconf (BinaryNode ps bitv s r c0 c1) = bconf s"

fun okc :: "Parameters \<Rightarrow> node \<Rightarrow> bool" where
  "okc prm (UnaryNode p dp cp s r None) = u_ok prm s"
| "okc prm (UnaryNode p dp cp s r (Some ch)) =
     (u_ok prm s \<and> \<not> unary_Finalized s \<and> okc prm ch \<and> \<not> node_Finalized ch \<and> (r \<or> nconf ch \<le> uconf s))"
| "okc prm (BinaryNode ps bitv s r (Some c0) (Some c1)) =
     (b_ok prm s \<and> \<not> binary_Finalized s \<and> okc prm c0 \<and> okc prm c1 \<and>
      \<not> node_Finalized c0 \<and> \<not> node_Finalized c1 \<and>
      (get2 r 0 \<or> nconf c0 \<le> (if bslush s = 0 then bconf s else 0)) \<and>
      (get2 r 1 \<or> nconf c1 \<le> (if bslush s = 1 then bconf s else 0)))"
| "okc prm (BinaryNode ps bitv s r c0 c1) = (c0 = None \<and> c1 = None \<and> b_ok prm s)"

definition good_params :: "Parameters \<Rightarrow> bool" where
  "good_params prm \<longleftrightarrow> 0 < Beta prm \<and> 0 < AlphaPreference prm \<and>
     AlphaPreference prm \<le> AlphaConfidence prm \<and> K_param prm < 2 * AlphaPreference prm"

lemma good_params_Verify: "Verify prm = None \<Longrightarrow> good_params prm"
  using Verify_majority [of prm] by (auto simp: good_params_def)

lemma okc_nconf:
  "okc prm n \<Longrightarrow> 0 \<le> nconf n \<and> (\<not> node_Finalized n \<longrightarrow> nconf n < Beta prm)"
  by (induction prm n rule: okc.induct) (auto dest: u_okD b_okD)

lemma okc_u: "okc prm (UnaryNode p dp cp s r ch) \<Longrightarrow> u_ok prm s"
  by (cases ch) auto

lemma okc_b: "okc prm (BinaryNode ps bitv s r c0 c1) \<Longrightarrow> b_ok prm s"
  by (cases c0; cases c1) auto

text \<open>The result of a poll on a node that is not finalized, as one relation.\<close>

definition poll_ok :: "Parameters \<Rightarrow> int \<Rightarrow> int \<Rightarrow> node \<times> node \<times> bool \<Rightarrow> bool" where
  "poll_ok prm n e = (\<lambda>(m, res, _).
     0 \<le> nconf m \<and> nconf m \<le> (if AlphaConfidence prm \<le> n then e + 1 else 0) \<and>
     (node_Finalized m \<longrightarrow> Beta prm \<le> nconf m) \<and> (\<not> node_Finalized m \<longrightarrow> res = m) \<and> okc prm res)"

lemma poll_ok_mono:
  assumes "poll_ok prm n e r" "n \<le> n'" "e \<le> e'" "0 \<le> e'"
  shows "poll_ok prm n' e' r"
  using assms by (auto simp: poll_ok_def split: if_splits)

lemma poll_ok_unary_finish:
  assumes "poll_ok prm n e' r" "u_ok prm s" "0 \<le> e"
    and conf: "uconf s = (if n < AlphaConfidence prm then 0 else e + 1)"
    and fin: "unary_Finalized s \<longleftrightarrow> AlphaConfidence prm \<le> n \<and> Beta prm \<le> uconf s"
    and "e' \<le> e" "0 < Beta prm"
  shows "poll_ok prm n e (unary_finish p dp cp s rs r)"
proof -
  obtain m res ok where r: "r = (m, res, ok)" by (cases r)
  from poll_ok_mono [OF assms(1) order_refl assms(6,3)]
  have "poll_ok prm n e (m, res, ok)" by (simp add: r)
  then show ?thesis
    using assms(2,3,7) unfolding r
    by (auto simp: poll_ok_def unary_finish_def fin conf Let_def split: if_splits)
qed

lemma poll_ok_binary_finish:
  assumes "poll_ok prm n e' r" "b_ok prm s" "0 \<le> e"
    and conf: "bconf s = (if n < AlphaConfidence prm then 0 else e + 1)"
    and fin: "binary_Finalized s \<longleftrightarrow> AlphaConfidence prm \<le> n \<and> Beta prm \<le> bconf s"
    and "bslush s = w" "w < 2" "chs = (Some c0, Some c1)"
    and "e' \<le> e" "0 < Beta prm" "get2 rs (1 - w)" "okc prm c0" "okc prm c1"
    and "\<not> node_Finalized c0" "\<not> node_Finalized c1"
  shows "poll_ok prm n e (binary_finish w ps pos s rs chs r)"
proof -
  obtain m res ok where r: "r = (m, res, ok)" by (cases r)
  from poll_ok_mono [OF assms(1) order_refl assms(9,3)]
  have p: "poll_ok prm n e (m, res, ok)" by (simp add: r)
  from assms(7) consider "w = 0" | "w = 1" by linarith
  then show ?thesis
    using p assms(2,3,6,8,10-15) unfolding r
    by cases (auto simp: poll_ok_def binary_finish_def mkBinary_def fin conf Let_def
        get2_def set2_def split: if_splits)
qed

lemma Split_Len:
  assumes "bag_inv votes"
  shows "bag_Len (get2 (Split P votes) 1) = bag_Len (Filter P votes)"
    "bag_Len (get2 (Split P votes) 0) = bag_Len (Filter (Not \<circ> P) votes)"
    "w < 2 \<Longrightarrow> bag_inv (get2 (Split P votes) w)"
    "w < 2 \<Longrightarrow> bag_Len (get2 (Split P votes) w) \<le> bag_Len votes"
  using assms by (auto simp: Split_Filter get2_def Len_Filter_le bag_inv_Filter)

text \<open>The side of a binary node that a poll goes to, the votes passed on, and the reset flags.\<close>

definition winner :: "Parameters \<Rightarrow> ID bag \<Rightarrow> nat \<Rightarrow> nat" where
  "winner prm votes pos =
     (if bag_Len (get2 (Split (\<lambda>id. Bit id pos = 1) votes) 1) \<ge> AlphaPreference prm then 1 else 0)"

definition pruned :: "Parameters \<Rightarrow> ID bag \<Rightarrow> nat \<Rightarrow> ID bag" where
  "pruned prm votes pos = get2 (Split (\<lambda>id. Bit id pos = 1) votes) (winner prm votes pos)"

definition poll_resets :: "bool \<Rightarrow> nat \<Rightarrow> bool arr2 \<Rightarrow> bool arr2" where
  "poll_resets reset w r = set2 (if reset then set2 r w True else r) (1 - w) True"

lemma winner_lt2 [simp]: "winner prm votes pos < 2"
  by (simp add: winner_def)

lemma winner_cases: "winner prm votes pos = 0 \<or> winner prm votes pos = 1"
  by (simp add: winner_def)

lemma poll_resets_simps [simp]:
  assumes "w < 2"
  shows "get2 (poll_resets reset w r) w \<longleftrightarrow> reset \<or> get2 r w" "get2 (poll_resets reset w r) (1 - w)"
    "get2 (poll_resets reset w r) (Suc 0 - w)"
proof -
  from assms have "w = 0 \<or> w = 1" by linarith
  then show "get2 (poll_resets reset w r) w \<longleftrightarrow> reset \<or> get2 r w" "get2 (poll_resets reset w r) (1 - w)"
    "get2 (poll_resets reset w r) (Suc 0 - w)"
    by (auto simp: poll_resets_def get2_def set2_def)
qed

lemma pruned_simps:
  assumes "bag_inv votes"
  shows "bag_inv (pruned prm votes pos)" "bag_Len (pruned prm votes pos) \<le> bag_Len votes"
  using assms by (auto simp: pruned_def Split_Len)

lemma RecordPoll_binary:
  "node_RecordPoll prm votes reset (BinaryNode ps pos s r c0 c1) =
     (let w = winner prm votes pos; pv = pruned prm votes pos; r0 = poll_resets reset w r;
          s0 = (if reset then binary_RecordUnsuccessfulPoll s else s) in
      if bag_Len pv < AlphaPreference prm then
        let b = BinaryNode ps pos (binary_RecordUnsuccessfulPoll s0) (set2 r0 w True) c0 c1
        in (b, b, False)
      else
        let s1 = binary_RecordPoll (bag_Len pv) w s0 in
        case get2 (c0, c1) w of
          None \<Rightarrow> let b = BinaryNode ps pos s1 (set2 r0 w False) c0 c1 in (b, b, True)
        | Some ch \<Rightarrow> binary_finish w ps pos s1 r0 (c0, c1) (node_RecordPoll prm pv (get2 r0 w) ch))"
  unfolding node_RecordPoll.simps(2) Let_def winner_def [symmetric] pruned_def [symmetric]
    poll_resets_def [symmetric]
  using winner_cases [of prm votes pos] by (auto simp: get2_def)

declare node_RecordPoll.simps(2) [simp del]

lemma node_RecordPoll_ok:
  assumes "good_params prm" "okc prm n" "\<not> node_Finalized n" "bag_inv votes"
  shows "poll_ok prm (bag_Len votes) (if reset then 0 else nconf n) (node_RecordPoll prm votes reset n)"
  using assms(2-)
proof (induction n arbitrary: votes reset)
  case (UnaryNode p dp cp s r ch)
  have gp: "0 < Beta prm" "AlphaPreference prm \<le> AlphaConfidence prm"
    using assms(1) by (auto simp: good_params_def)
  define s0 where "s0 = (if reset then unary_RecordUnsuccessfulPoll s else s)"
  have u: "u_ok prm s" using okc_u UnaryNode.prems(1) by blast
  have s0: "u_ok prm s0" "\<not> unary_Finalized s0" "uconf s0 = (if reset then 0 else uconf s)"
    using u_ok_RecordUnsuccessfulPoll [OF u gp(1)] u UnaryNode.prems(2) by (auto simp: s0_def)
  note s1 = u_ok_RecordPoll [OF s0(1) gp(1), of "bag_Len votes"]
  note s2 = u_ok_RecordUnsuccessfulPoll [OF s0(1) gp(1)]
  have e: "0 \<le> uconf s0" using u_okD(1) [OF s0(1)] .
  show ?case
  proof (cases "bag_Len votes < AlphaPreference prm")
    case True
    then show ?thesis
      using s2 s0(2) UnaryNode.prems gp
      by (cases ch) (auto simp: poll_ok_def s0_def [symmetric] Let_def)
  next
    case False
    show ?thesis
    proof (cases ch)
      case None
      then show ?thesis
        using s1 s0(2,3) e False gp
        by (auto simp: poll_ok_def s0_def [symmetric] Let_def split: if_splits)
    next
      case (Some c)
      have c: "okc prm c" "\<not> node_Finalized c" "r \<or> nconf c \<le> uconf s"
        using UnaryNode.prems by (auto simp: Some)
      have IH: "poll_ok prm (bag_Len votes) (if reset \<or> r then 0 else nconf c)
          (node_RecordPoll prm votes (reset \<or> r) c)"
        using UnaryNode.IH [of c] c UnaryNode.prems(3) by (simp add: Some)
      have "poll_ok prm (bag_Len votes) (uconf s0)
          (unary_finish p dp cp (unary_RecordPoll (bag_Len votes) s0) (reset \<or> r)
            (node_RecordPoll prm votes (reset \<or> r) c))"
        using s1(3) s0(2,3) c(3) e gp s1(2)
        by (intro poll_ok_unary_finish [OF IH s1(1)]) (auto split: if_splits)
      then show ?thesis
        using False s0(3) by (cases reset) (simp_all add: Some s0_def)
    qed
  qed
next
  case (BinaryNode ps pos s r c0 c1)
  define s0 where "s0 = (if reset then binary_RecordUnsuccessfulPoll s else s)"
  define w pv r0 where "w = winner prm votes pos" "pv = pruned prm votes pos" "r0 = poll_resets reset w r"
  have gp: "0 < Beta prm" "AlphaPreference prm \<le> AlphaConfidence prm"
    using assms(1) by (auto simp: good_params_def)
  have b: "b_ok prm s" using okc_b BinaryNode.prems(1) by blast
  have s0: "b_ok prm s0" "\<not> binary_Finalized s0" "bconf s0 = (if reset then 0 else bconf s)"
      "bslush s0 = bslush s"
    using b_ok_RecordUnsuccessfulPoll [OF b gp(1)] b BinaryNode.prems(2) by (auto simp: s0_def)
  note e = b_okD(1) [OF s0(1)] b_okD(1) [OF b]
  have w: "w < 2" by (simp add: w_pv_r0_def)
  have pv: "bag_inv pv" "bag_Len pv \<le> bag_Len votes"
    using pruned_simps [OF BinaryNode.prems(3)] by (auto simp: w_pv_r0_def)
  have r0: "get2 r0 w \<longleftrightarrow> reset \<or> get2 r w" "get2 r0 (1 - w)" using w by (simp_all add: w_pv_r0_def)
  show ?case
  proof (cases "bag_Len pv < AlphaPreference prm")
    case True
    note s2 = b_ok_RecordUnsuccessfulPoll [OF s0(1) gp(1)]
    have "okc prm (BinaryNode ps pos (binary_RecordUnsuccessfulPoll s0) (set2 r0 w True) c0 c1)"
      using BinaryNode.prems(1) s2 s0(2) r0(2) w
      by (cases c0; cases c1; cases "w = 0") (auto simp: get2_def set2_def)
    then show ?thesis
      using True s2 s0(2) e
      by (simp add: RecordPoll_binary s0_def [symmetric] w_pv_r0_def [symmetric] Let_def poll_ok_def)
  next
    case False
    note s1 = b_ok_RecordPoll [OF s0(1) _ s0(2) w gp(1), of "bag_Len pv"]
    define e' where "e' = (if w = bslush s0 then bconf s0 else 0)"
    have e': "0 \<le> e'" "e' \<le> (if reset then 0 else bconf s)" using e s0 by (auto simp: e'_def)
    have "poll_ok prm (bag_Len pv) e' (node_RecordPoll prm votes reset (BinaryNode ps pos s r c0 c1))"
    proof (cases "c0 = None")
      case True
      then have "c1 = None" using BinaryNode.prems(1) by (cases c1) auto
      then show ?thesis
        using s1 False True gp e'
        by (auto simp: RecordPoll_binary s0_def [symmetric] w_pv_r0_def [symmetric] Let_def poll_ok_def
            get2_def e'_def)
    next
      case c0: False
      then obtain d0 d1 where d: "c0 = Some d0" "c1 = Some d1"
        using BinaryNode.prems(1) by (cases c0; cases c1) auto
      have dd: "okc prm d0" "okc prm d1" "\<not> node_Finalized d0" "\<not> node_Finalized d1"
        using BinaryNode.prems(1) by (simp_all add: d)
      define ch where "ch = (if w = 0 then d0 else d1)"
      have ch: "get2 (c0, c1) w = Some ch" "okc prm ch" "\<not> node_Finalized ch"
          "get2 r w \<or> nconf ch \<le> (if bslush s = w then bconf s else 0)"
        using BinaryNode.prems(1) w by (auto simp: d ch_def get2_def less_Suc_eq numeral_2_eq_2)
      have IH: "poll_ok prm (bag_Len pv) (if get2 r0 w then 0 else nconf ch)
          (node_RecordPoll prm pv (get2 r0 w) ch)"
      proof (cases "w = 0")
        case True
        then show ?thesis
          using ch(2,3) pv(1) by (intro BinaryNode.IH(1)) (simp_all add: d ch_def)
      next
        case False
        then show ?thesis
          using ch(2,3) pv(1) by (intro BinaryNode.IH(2)) (simp_all add: d ch_def)
      qed
      have "poll_ok prm (bag_Len pv) e'
          (binary_finish w ps pos (binary_RecordPoll (bag_Len pv) w s0) r0 (c0, c1)
            (node_RecordPoll prm pv (get2 r0 w) ch))"
      proof (rule poll_ok_binary_finish [where ?c0.0 = d0 and ?c1.0 = d1, OF IH s1(1) e'(1) _ s1(3) s1(4) w])
        show "bconf (binary_RecordPoll (bag_Len pv) w s0) = (if bag_Len pv < AlphaConfidence prm then 0 else e' + 1)"
          using s1(2) False by (simp add: e'_def)
        show "(if get2 r0 w then 0 else nconf ch) \<le> e'"
          using ch(4) e'(1) s0(3,4) r0(1) by (auto simp: e'_def)
      qed (use False d dd gp(1) r0(2) in simp_all)
      then show ?thesis using False ch(1)
        by (simp add: RecordPoll_binary s0_def [symmetric] w_pv_r0_def [symmetric])
    qed
    then show ?thesis using pv(2) e' by (rule_tac poll_ok_mono) (auto split: if_splits)
  qed
qed

subsection \<open>The shape of the tree\<close>

text \<open>
  \<open>members\<close> are the choices at the leaves.  \<open>wf_node\<close> says that the bit ranges of the nodes are
  contiguous, that the leaves below a node agree on the decided prefix, that the two sides of a
  binary node differ at its bit, and that every cached preference is the one of the child.
\<close>

fun members :: "node \<Rightarrow> ID set" where
  "members (UnaryNode p dp cp s r None) = {p}"
| "members (UnaryNode p dp cp s r (Some ch)) = members ch"
| "members (BinaryNode ps pos s r (Some c0) (Some c1)) = members c0 \<union> members c1"
| "members (BinaryNode ps pos s r c0 c1) = {get2 ps 0, get2 ps 1}"

definition agree_all :: "nat \<Rightarrow> ID set \<Rightarrow> bool" where
  "agree_all k S \<longleftrightarrow> (\<forall>x \<in> S. \<forall>y \<in> S. agree 0 k x y)"

fun wf_node :: "node \<Rightarrow> bool" where
  "wf_node (UnaryNode p dp cp s r None) = (dp < cp \<and> cp = 256)"
| "wf_node (UnaryNode p dp cp s r (Some ch)) =
     (dp < cp \<and> cp = node_DecidedPrefix ch \<and> wf_node ch \<and> p = node_Preference ch)"
| "wf_node (BinaryNode ps pos s r (Some c0) (Some c1)) =
     (node_DecidedPrefix c0 = pos + 1 \<and> node_DecidedPrefix c1 = pos + 1 \<and> wf_node c0 \<and> wf_node c1 \<and>
      get2 ps 0 = node_Preference c0 \<and> get2 ps 1 = node_Preference c1 \<and>
      (\<forall>x \<in> members c0. Bit x pos = 0) \<and> (\<forall>x \<in> members c1. Bit x pos = 1) \<and>
      agree_all pos (members c0 \<union> members c1) \<and> binary_Preference s < 2)"
| "wf_node (BinaryNode ps pos s r c0 c1) =
     (c0 = None \<and> c1 = None \<and> pos = 255 \<and> Bit (get2 ps 0) pos = 0 \<and> Bit (get2 ps 1) pos = 1 \<and>
      agree_all pos {get2 ps 0, get2 ps 1} \<and> binary_Preference s < 2)"

lemma wf_node_prefix: "wf_node n \<Longrightarrow> node_DecidedPrefix n < 256"
  by (induction n rule: wf_node.induct) auto

lemma Preference_member: "wf_node n \<Longrightarrow> node_Preference n \<in> members n"
  by (induction n rule: wf_node.induct) (auto simp: get2_def)

lemma agree_all_mono: "agree_all k S \<Longrightarrow> j \<le> k \<Longrightarrow> agree_all j S"
  unfolding agree_all_def by (blast intro: agree_mono)

lemma wf_node_agree: "wf_node n \<Longrightarrow> agree_all (node_DecidedPrefix n) (members n)"
  by (induction n rule: wf_node.induct) (auto intro: agree_all_mono simp: agree_all_def [of _ "{_}"])

text \<open>
  \<open>fork\<close> is the binary node that \<open>unaryNode.Add\<close> builds, with the old subtree (if any) on the
  preferred side and the new leaf on the other one.
\<close>

definition new_leaf :: "Factory \<Rightarrow> Parameters \<Rightarrow> ID \<Rightarrow> nat \<Rightarrow> node" where
  "new_leaf fac prm x i = UnaryNode x (i + 1) NumBits (NewUnary fac prm) False None"

definition fork :: "Factory \<Rightarrow> Parameters \<Rightarrow> ID \<Rightarrow> nat \<Rightarrow> ID \<Rightarrow> Unary \<Rightarrow> bool \<Rightarrow> node option \<Rightarrow> node" where
  "fork fac prm x i p s r c =
     (if Bit p i = 0
      then BinaryNode (p, x) i (unary_Extend 0 s) (r, r) c (map_option (\<lambda>_. new_leaf fac prm x i) c)
      else BinaryNode (x, p) i (unary_Extend 1 s) (r, r) (map_option (\<lambda>_. new_leaf fac prm x i) c) c)"

lemma Bit_cases: "Bit x i = 0 \<or> Bit x i = 1"
  using Bit_lt2 [of x i] by linarith

lemma split_unary_fork:
  "split_unary fac prm x i p dp cp s r ch =
     (if dp + 1 = cp then fork fac prm x i p s r ch
      else if i = dp then fork fac prm x i p s r (Some (UnaryNode p (dp + 1) cp s r ch))
      else if i + 1 = cp then UnaryNode p dp (cp - 1) s r (Some (fork fac prm x i p s r ch))
      else UnaryNode p dp i (unary_Clone s) False
             (Some (fork fac prm x i p s r (Some (UnaryNode p (i + 1) cp s r ch)))))"
  using Bit_cases [of p i]
  by (cases ch) (auto simp: split_unary_def fork_def new_leaf_def mkBinary_def set2_def Let_def)

lemma new_leaf_simps [simp]:
  "node_DecidedPrefix (new_leaf fac prm x i) = i + 1" "node_Preference (new_leaf fac prm x i) = x"
  "members (new_leaf fac prm x i) = {x}" "wf_node (new_leaf fac prm x i) \<longleftrightarrow> i < 255"
  by (auto simp: new_leaf_def NumBits_def)

lemma new_leaf_ok [simp]:
  assumes "0 < Beta prm"
  shows "okc prm (new_leaf fac prm x i)" "\<not> node_Finalized (new_leaf fac prm x i)"
    "nconf (new_leaf fac prm x i) = 0"
  using u_ok_NewUnary [OF assms] by (simp_all add: new_leaf_def)

lemma fork_simps:
  assumes "u_ok prm s" "\<not> unary_Finalized s"
  shows "node_DecidedPrefix (fork fac prm x i p s r c) = i" "node_Preference (fork fac prm x i p s r c) = p"
    "\<not> node_Finalized (fork fac prm x i p s r c)" "nconf (fork fac prm x i p s r c) = uconf s"
  using b_ok_Extend [OF assms(1), of 0] b_ok_Extend [OF assms(1), of 1] assms(2)
  by (auto simp: fork_def get2_def)

lemma fork_None:
  assumes "u_ok prm s" "Bit x 255 \<noteq> Bit p 255" "agree 0 255 p x"
  shows "wf_node (fork fac prm x 255 p s r None)" "okc prm (fork fac prm x 255 p s r None)"
    "members (fork fac prm x 255 p s r None) = {p, x}"
  using b_ok_Extend [OF assms(1), of 0] b_ok_Extend [OF assms(1), of 1] assms(2,3)
    Bit_cases [of p 255] Bit_cases [of x 255]
  by (auto simp: fork_def agree_all_def agree_sym)

lemma fork_Some:
  assumes "u_ok prm s" "\<not> unary_Finalized s" "0 < Beta prm"
    and x: "Bit x i \<noteq> Bit p i" "agree 0 i p x"
    and c: "node_DecidedPrefix c = i + 1" "wf_node c" "node_Preference c = p"
    and ok: "okc prm c" "\<not> node_Finalized c" "r \<or> nconf c \<le> uconf s"
  shows "wf_node (fork fac prm x i p s r (Some c))" "okc prm (fork fac prm x i p s r (Some c))"
    "members (fork fac prm x i p s r (Some c)) = insert x (members c)"
proof -
  have i: "i < 255" using wf_node_prefix [OF c(2)] c(1) by simp
  have pm: "agree 0 (i + 1) p y" if "y \<in> members c" for y
    using wf_node_agree [OF c(2)] Preference_member [OF c(2)] that c by (simp add: agree_all_def)
  then have bits: "Bit y i = Bit p i" "agree 0 i p y" if "y \<in> members c" for y
    using that by (auto simp: agree_Suc Bit_eq)
  have all: "agree_all i (insert x (members c))"
    using bits(2) x(2) unfolding agree_all_def by (blast intro: agree_sym agree_trans)
  note ext = b_ok_Extend [OF assms(1), of 0] b_ok_Extend [OF assms(1), of 1]
  note pc = Bit_cases [of p i] Bit_cases [of x i]
  show "wf_node (fork fac prm x i p s r (Some c))"
    using i bits(1) all c ext pc x(1) by (auto simp: fork_def)
  show "okc prm (fork fac prm x i p s r (Some c))"
    using assms(2,3) ext ok pc u_okD(1) [OF assms(1)] by (auto simp: fork_def)
  show "members (fork fac prm x i p s r (Some c)) = insert x (members c)"
    by (auto simp: fork_def)
qed

definition add_ok :: "Parameters \<Rightarrow> ID \<Rightarrow> node \<Rightarrow> node \<Rightarrow> bool" where
  "add_ok prm x n n' \<longleftrightarrow> wf_node n' \<and> okc prm n' \<and>
     members n' = (if node_Finalized n then members n else insert x (members n)) \<and>
     node_Preference n' = node_Preference n \<and> node_DecidedPrefix n' = node_DecidedPrefix n \<and>
     node_Finalized n' = node_Finalized n \<and> nconf n' = nconf n"

lemma unary_Clone_simps [simp]: "unary_Clone s = s"
  by (simp add: unary_Clone_def)

lemma split_unary_ok:
  assumes wf: "wf_node (UnaryNode p dp cp s r ch)" and ok: "okc prm (UnaryNode p dp cp s r ch)"
    and "0 < Beta prm" "\<not> unary_Finalized s" "agree 0 dp p x" "first_diff dp cp p x i"
  shows "add_ok prm x (UnaryNode p dp cp s r ch) (split_unary fac prm x i p dp cp s r ch)"
proof -
  have i: "dp \<le> i" "i < cp" "Bit x i \<noteq> Bit p i" "agree 0 i p x" "dp < cp"
    using assms(5,6) wf by (auto simp: first_diff_def Bit_neq_iff agree_join)
  note u = okc_u [OF ok] assms(4)
  note sim = fork_simps [OF u]
  have whole: "wf_node (fork fac prm x i p s r (Some (UnaryNode p (i + 1) cp s r ch)))"
      "okc prm (fork fac prm x i p s r (Some (UnaryNode p (i + 1) cp s r ch)))"
      "members (fork fac prm x i p s r (Some (UnaryNode p (i + 1) cp s r ch))) =
        insert x (members (UnaryNode p dp cp s r ch))" if "i + 1 < cp"
  proof -
    have "wf_node (UnaryNode p (i + 1) cp s r ch)" "okc prm (UnaryNode p (i + 1) cp s r ch)"
      using wf ok that by (cases ch; simp)+
    from fork_Some [OF u assms(3) i(3,4) _ this(1) _ this(2)]
    show "wf_node (fork fac prm x i p s r (Some (UnaryNode p (i + 1) cp s r ch)))"
      "okc prm (fork fac prm x i p s r (Some (UnaryNode p (i + 1) cp s r ch)))"
      "members (fork fac prm x i p s r (Some (UnaryNode p (i + 1) cp s r ch))) =
        insert x (members (UnaryNode p dp cp s r ch))"
      using assms(4) by (cases ch; simp)+
  qed
  have last: "wf_node (fork fac prm x i p s r ch)" "okc prm (fork fac prm x i p s r ch)"
      "members (fork fac prm x i p s r ch) = insert x (members (UnaryNode p dp cp s r ch))"
    if "i + 1 = cp"
  proof -
    have "wf_node (fork fac prm x i p s r ch) \<and> okc prm (fork fac prm x i p s r ch) \<and>
      members (fork fac prm x i p s r ch) = insert x (members (UnaryNode p dp cp s r ch))"
    proof (cases ch)
      case None
      then have "i = 255" using wf that by simp
      then show ?thesis using fork_None [OF u(1)] i by (auto simp: None)
    next
      case (Some c)
      then show ?thesis
        using fork_Some [OF u assms(3) i(3,4), where c = c and r = r and fac = fac] wf ok that by simp
    qed
    then show "wf_node (fork fac prm x i p s r ch)" "okc prm (fork fac prm x i p s r ch)"
      "members (fork fac prm x i p s r ch) = insert x (members (UnaryNode p dp cp s r ch))" by auto
  qed
  show ?thesis
    using whole last sim i assms(4) u
    by (auto simp: split_unary_fork add_ok_def)
qed

lemma agree_Bit: "agree 0 i y x \<Longrightarrow> Bit y i = Bit x i \<Longrightarrow> agree 0 (i + 1) y x"
  using Bit_neq_iff [of y i x] by (simp add: agree_Suc)

lemma node_Add_ok:
  assumes "0 < Beta prm" "wf_node n" "okc prm n" "agree 0 (node_DecidedPrefix n) (node_Preference n) x"
  shows "add_ok prm x n (node_Add fac prm x n)"
  using assms(2-)
proof (induction n)
  case (UnaryNode p dp cp s r ch)
  obtain i f where fd: "FirstDifferenceSubset dp cp p x = (i, f)" by (rule prod.exhaust)
  have cp: "cp \<le> 256" using UnaryNode.prems(1) by (cases ch) (auto dest: wf_node_prefix)
  show ?case
  proof (cases "unary_Finalized s \<or> f")
    case True
    then show ?thesis
      using UnaryNode.prems fd split_unary_ok [OF UnaryNode.prems(1,2) assms(1)]
        FirstDifferenceSubset_True(1) [of dp cp p x i]
      by (cases "unary_Finalized s") (auto simp: add_ok_def [of _ _ _ "UnaryNode p dp cp s r ch"])
  next
    case False
    then have a: "agree 0 cp p x"
      using FirstDifferenceSubset_False [of dp cp p x i] fd cp UnaryNode.prems(3) agree_join by auto
    show ?thesis
    proof (cases ch)
      case None
      then have "x = p" using a UnaryNode.prems(1) agree_all_eq by auto
      then show ?thesis using False fd UnaryNode.prems None by (simp add: add_ok_def)
    next
      case (Some c)
      have "add_ok prm x c (node_Add fac prm x c)"
        using UnaryNode.IH [of c] UnaryNode.prems(1,2) a by (simp add: Some)
      then show ?thesis using False fd UnaryNode.prems Some by (auto simp: add_ok_def)
    qed
  qed
next
  case (BinaryNode ps pos s r c0 c1)
  have mem: "node_Preference (BinaryNode ps pos s r c0 c1) \<in> members (BinaryNode ps pos s r c0 c1)"
    using Preference_member BinaryNode.prems(1) by blast
  have agr: "agree 0 pos y x" if "y \<in> members (BinaryNode ps pos s r c0 c1)" for y
    using wf_node_agree [OF BinaryNode.prems(1)] mem that BinaryNode.prems(3)
    unfolding agree_all_def by (auto intro: agree_trans simp del: node_Preference.simps)
  show ?case
  proof (cases "c0 = None")
    case True
    then have l: "c1 = None" "pos = 255" using BinaryNode.prems(1) by (cases c1; simp)+
    have "get2 ps 0 = x \<or> get2 ps 1 = x"
    proof -
      have "Bit (get2 ps 0) pos = Bit x pos \<or> Bit (get2 ps 1) pos = Bit x pos"
        using BinaryNode.prems(1) Bit_cases [of x pos] by (auto simp: True l)
      moreover have "agree 0 pos (get2 ps 0) x" "agree 0 pos (get2 ps 1) x"
        using agr by (simp_all add: True l)
      ultimately have "agree 0 (pos + 1) (get2 ps 0) x \<or> agree 0 (pos + 1) (get2 ps 1) x"
        using agree_Bit by blast
      then show ?thesis by (simp add: l agree_all_eq)
    qed
    then have "x \<in> members (BinaryNode ps pos s r c0 c1)"
      by (auto simp: True l)
    then show ?thesis
      using BinaryNode.prems(1,2) by (simp add: add_ok_def True l insert_absorb)
  next
    case False
    then obtain d0 d1 where d: "c0 = Some d0" "c1 = Some d1"
      using BinaryNode.prems(1) by (cases c0; cases c1) auto
    have P: "node_Preference d0 \<in> members d0" "node_Preference d1 \<in> members d1"
      using Preference_member BinaryNode.prems(1) by (auto simp: d)
    have IH0: "add_ok prm x d0 (node_Add fac prm x d0)" if "Bit x pos = 0"
      using BinaryNode.IH(1) [of d0] BinaryNode.prems(1,2) P agr [of "node_Preference d0"] that
        agree_Bit [of pos "node_Preference d0" x]
      by (simp add: d)
    have IH1: "add_ok prm x d1 (node_Add fac prm x d1)" if "Bit x pos = 1"
      using BinaryNode.IH(2) [of d1] BinaryNode.prems(1,2) P agr [of "node_Preference d1"] that
        agree_Bit [of pos "node_Preference d1" x]
      by (simp add: d)
    have all: "agree_all pos (insert x (members d0 \<union> members d1))"
      using agr wf_node_agree [OF BinaryNode.prems(1)]
      unfolding agree_all_def d members.simps node_DecidedPrefix.simps by (blast intro: agree_sym)
    from Bit_cases [of x pos] show ?thesis
      using IH0 IH1 all BinaryNode.prems(1,2) by (elim disjE) (auto simp: d add_ok_def)
  qed
qed

definition poll_wf :: "node \<Rightarrow> node \<times> node \<times> bool \<Rightarrow> bool" where
  "poll_wf n = (\<lambda>(m, res, _). wf_node res \<and> members res \<subseteq> members n \<and>
     node_DecidedPrefix n \<le> node_DecidedPrefix res \<and>
     (\<not> node_Finalized m \<longrightarrow> members res = members n \<and> node_DecidedPrefix res = node_DecidedPrefix n))"

lemma node_RecordPoll_wf_unary:
  assumes "poll_ok prm k e (unary_finish p dp cp s1 rs t)" "poll_ok prm k e' t" "poll_wf c t"
    and "wf_node (UnaryNode p dp cp s r (Some c))"
  shows "poll_wf (UnaryNode p dp cp s r (Some c)) (unary_finish p dp cp s1 rs t)"
proof -
  obtain m res ok where t: "t = (m, res, ok)" by (cases t)
  show ?thesis
    using assms by (cases "unary_Finalized s1") (auto simp: t poll_wf_def poll_ok_def unary_finish_def Let_def)
qed

lemma node_RecordPoll_wf_binary:
  assumes "poll_ok prm k e (binary_finish w ps pos s1 rs (Some d0, Some d1) t)" "poll_ok prm k' e' t"
    and "poll_wf c t" "w = 0 \<and> c = d0 \<or> w = 1 \<and> c = d1"
    and wf: "wf_node (BinaryNode ps pos s r (Some d0) (Some d1))" and s1: "binary_Preference s1 < 2"
  shows "poll_wf (BinaryNode ps pos s r (Some d0) (Some d1)) (binary_finish w ps pos s1 rs (Some d0, Some d1) t)"
proof -
  obtain m res ok where t: "t = (m, res, ok)" by (cases t)
  show ?thesis
  proof (cases "binary_Finalized s1")
    case True
    then show ?thesis
      using assms(1-4) wf by (auto simp: t poll_wf_def poll_ok_def binary_finish_def mkBinary_def Let_def)
  next
    case False
    then have m: "\<not> node_Finalized m" "res = m"
      using assms(1,2,4) wf
      by (auto simp: t poll_ok_def binary_finish_def mkBinary_def Let_def set2_def split: if_splits)
    then show ?thesis
      using False assms(3,4) wf s1
      by (auto simp: t poll_wf_def binary_finish_def mkBinary_def Let_def set2_def get2_def)
  qed
qed

lemma binary_poll_Preference:
  fixes reset :: bool
  assumes "b_ok prm s" "0 < Beta prm" "\<not> binary_Finalized s" "AlphaPreference prm \<le> k" "w < 2"
  defines "s0 \<equiv> if reset then binary_RecordUnsuccessfulPoll s else s"
  shows "binary_Preference (binary_RecordUnsuccessfulPoll s0) < 2"
    "binary_Preference (binary_RecordPoll k w s0) < 2"
proof -
  have s0: "b_ok prm s0" "\<not> binary_Finalized s0"
    using b_ok_RecordUnsuccessfulPoll [OF assms(1,2)] assms(1,3) by (auto simp: s0_def)
  show "binary_Preference (binary_RecordUnsuccessfulPoll s0) < 2"
    using b_okD(4) b_ok_RecordUnsuccessfulPoll(1) [OF s0(1) assms(2)] by blast
  show "binary_Preference (binary_RecordPoll k w s0) < 2"
    using b_okD(4) b_ok_RecordPoll(1) [OF s0(1) assms(4) s0(2) assms(5,2)] by blast
qed

lemma node_RecordPoll_wf:
  assumes "good_params prm" "okc prm n" "\<not> node_Finalized n" "bag_inv votes" "wf_node n"
  shows "poll_wf n (node_RecordPoll prm votes reset n)"
  using assms(2-)
proof (induction n arbitrary: votes reset)
  case (UnaryNode p dp cp s r ch)
  show ?case
  proof (cases "bag_Len votes < AlphaPreference prm \<or> ch = None")
    case True
    then show ?thesis using UnaryNode.prems by (cases ch) (auto simp: poll_wf_def Let_def)
  next
    case False
    then obtain c where c: "ch = Some c" by auto
    have pc: "okc prm c" "\<not> node_Finalized c" "wf_node c" using UnaryNode.prems(1,4) by (auto simp: c)
    have IH: "poll_wf c (node_RecordPoll prm votes (reset \<or> r) c)"
      using UnaryNode.IH [of c] pc UnaryNode.prems(3) by (simp add: c)
    show ?thesis
      using False node_RecordPoll_ok [OF assms(1) UnaryNode.prems(1-3), of reset] UnaryNode.prems(4)
        node_RecordPoll_wf_unary [OF _ node_RecordPoll_ok [OF assms(1) pc(1,2) UnaryNode.prems(3)] IH]
      by (simp add: c Let_def)
  qed
next
  case (BinaryNode ps pos s r c0 c1)
  define s0 where "s0 = (if reset then binary_RecordUnsuccessfulPoll s else s)"
  define w pv r0 where "w = winner prm votes pos" "pv = pruned prm votes pos" "r0 = poll_resets reset w r"
  note folded = RecordPoll_binary s0_def [symmetric] w_pv_r0_def [symmetric] Let_def
  have w: "w < 2" "w = 0 \<or> w = 1" using winner_cases [of prm votes pos] by (auto simp: w_pv_r0_def)
  have pv: "bag_inv pv" using pruned_simps [OF BinaryNode.prems(3)] by (auto simp: w_pv_r0_def)
  have bok: "b_ok prm s" "\<not> binary_Finalized s" using okc_b BinaryNode.prems by auto
  have bp: "binary_Preference (binary_RecordUnsuccessfulPoll s0) < 2"
      "AlphaPreference prm \<le> k \<Longrightarrow> binary_Preference (binary_RecordPoll k w s0) < 2" for k
    using binary_poll_Preference [OF bok(1) _ bok(2) _ w(1), of _ reset] assms(1)
    unfolding s0_def good_params_def by blast+
  show ?case
  proof (cases "bag_Len pv < AlphaPreference prm \<or> c0 = None")
    case True
    have "get2 (c0, c1) w = None" if "c0 = None"
      using that BinaryNode.prems(1) by (cases c1) (auto simp: get2_def)
    with True have "\<exists>s' r' ok. node_RecordPoll prm votes reset (BinaryNode ps pos s r c0 c1) =
        (BinaryNode ps pos s' r' c0 c1, BinaryNode ps pos s' r' c0 c1, ok) \<and> binary_Preference s' < 2"
      using bp by (cases "bag_Len pv < AlphaPreference prm") (auto simp: folded)
    then show ?thesis
      using BinaryNode.prems(4) by (cases c0; cases c1) (auto simp: poll_wf_def)
  next
    case False
    then obtain d0 d1 where d: "c0 = Some d0" "c1 = Some d1"
      using BinaryNode.prems(1) by (cases c0; cases c1) auto
    define ch where "ch = (if w = 0 then d0 else d1)"
    have dd: "okc prm ch" "\<not> node_Finalized ch" "wf_node ch" "get2 (c0, c1) w = Some ch"
      using BinaryNode.prems(1,4) w by (auto simp: ch_def d)
    have IH: "poll_wf ch (node_RecordPoll prm pv (get2 r0 w) ch)"
      using BinaryNode.IH(1) [of d0 pv "get2 r0 w"] BinaryNode.IH(2) [of d1 pv "get2 r0 w"] dd pv
      by (cases "w = 0") (simp_all add: ch_def d)
    have eq: "node_RecordPoll prm votes reset (BinaryNode ps pos s r c0 c1) =
        binary_finish w ps pos (binary_RecordPoll (bag_Len pv) w s0) r0 (c0, c1)
          (node_RecordPoll prm pv (get2 r0 w) ch)"
      using False dd(4) by (simp add: folded)
    have ok: "poll_ok prm (bag_Len pv) (if get2 r0 w then 0 else nconf ch) (node_RecordPoll prm pv (get2 r0 w) ch)"
      by (rule node_RecordPoll_ok [OF assms(1) dd(1,2) pv])
    have "poll_ok prm (bag_Len votes) (if reset then 0 else bconf s)
        (binary_finish w ps pos (binary_RecordPoll (bag_Len pv) w s0) r0 (c0, c1)
          (node_RecordPoll prm pv (get2 r0 w) ch))"
      using node_RecordPoll_ok [OF assms(1) BinaryNode.prems(1-3), of reset]
      unfolding eq nconf.simps .
    then show ?thesis
      unfolding eq unfolding d using False BinaryNode.prems(4) w bp
      by (intro node_RecordPoll_wf_binary [OF _ ok IH]) (auto simp: ch_def d)
  qed
qed

text \<open>A finalized root is a leaf, and no later operation changes what it decided.\<close>

lemma RecordPoll_finalized:
  assumes "good_params prm" "okc prm n" "node_Finalized n" "wf_node n" "bag_inv votes"
  shows "\<exists>m ok. node_RecordPoll prm votes reset n = (m, m, ok) \<and> wf_node m \<and> okc prm m \<and>
    node_Finalized m \<and> node_Preference m = node_Preference n \<and> members m = members n \<and>
    node_DecidedPrefix m = node_DecidedPrefix n"
proof (cases n)
  case (UnaryNode p dp cp s r ch)
  have ch: "ch = None" using assms(2,3) by (cases ch) (auto simp: UnaryNode)
  have "0 < Beta prm" using assms(1) by (simp add: good_params_def)
  moreover define s0 where "s0 = (if reset then unary_RecordUnsuccessfulPoll s else s)"
  ultimately have "u_ok prm s0" "unary_Finalized s0" "0 < Beta prm"
    using assms(2,3) u_ok_RecordUnsuccessfulPoll [of prm s] by (auto simp: UnaryNode ch)
  then show ?thesis
    using assms(4) u_ok_RecordUnsuccessfulPoll [of prm s0] u_ok_RecordPoll [of prm s0 "bag_Len votes"]
    by (cases "bag_Len votes < AlphaPreference prm") (auto simp: UnaryNode ch s0_def [symmetric] Let_def)
next
  case (BinaryNode ps pos s r c0 c1)
  have cs: "c0 = None" "c1 = None" using assms(2,3) by (cases c0; cases c1; simp add: BinaryNode)+
  have b: "0 < Beta prm" "b_ok prm s" using assms(1,2) by (auto simp: good_params_def BinaryNode cs)
  define s0 where "s0 = (if reset then binary_RecordUnsuccessfulPoll s else s)"
  have s0: "b_ok prm s0" "binary_Finalized s0" "binary_Preference s0 = binary_Preference s"
    using b assms(3) b_ok_RecordUnsuccessfulPoll [of prm s] binary_Preference_Unsuccessful [of s]
    by (auto simp: BinaryNode s0_def)
  define w pv where "w = winner prm votes pos" "pv = pruned prm votes pos"
  have n0: "get2 (None, None) w = (None :: node option)" by (simp add: get2_def)
  note s1 = binary_RecordPoll_finalized [OF s0(2), of "bag_Len pv" w]
  have ok1: "b_ok prm (binary_RecordPoll (bag_Len pv) w s0)"
    using s0 s1 by (simp add: b_ok_def bslush_def)
  have "\<exists>s' r' ok. node_RecordPoll prm votes reset (BinaryNode ps pos s r None None) =
      (BinaryNode ps pos s' r' None None, BinaryNode ps pos s' r' None None, ok) \<and>
      b_ok prm s' \<and> binary_Finalized s' \<and> binary_Preference s' = binary_Preference s"
    using s0 s1 ok1 b_ok_RecordUnsuccessfulPoll [OF s0(1) b(1)]
    by (cases "bag_Len pv < AlphaPreference prm")
      (auto simp: RecordPoll_binary s0_def [symmetric] w_pv_def [symmetric] Let_def n0)
  then show ?thesis
    using assms(4) by (auto simp: BinaryNode cs)
qed

subsection \<open>Runs of the tree\<close>

text \<open>
  \<open>tree_step\<close> is one call of \<open>Add\<close>, \<open>RecordPoll\<close> or \<open>RecordUnsuccessfulPoll\<close>; \<open>tree_reach S t\<close>
  holds of the trees obtained from \<open>NewTree\<close> with verified parameters, where \<open>S\<close> collects the
  choices given to \<open>NewTree\<close> and \<open>Add\<close>.
\<close>

inductive tree_step :: "Tree \<Rightarrow> Tree \<Rightarrow> bool" where
  step_Add: "tree_step t (tree_Add x t)"
| step_Poll: "bag_inv votes \<Longrightarrow> tree_step t (fst (tree_RecordPoll votes t))"
| step_Unsuccessful: "tree_step t (tree_RecordUnsuccessfulPoll t)"

inductive tree_reach :: "ID set \<Rightarrow> Tree \<Rightarrow> bool" where
  reach_New: "Verify prm = None \<Longrightarrow> tree_reach {c} (NewTree fac prm c)"
| reach_Add: "tree_reach S t \<Longrightarrow> tree_reach (insert x S) (tree_Add x t)"
| reach_Poll: "tree_reach S t \<Longrightarrow> bag_inv votes \<Longrightarrow> tree_reach S (fst (tree_RecordPoll votes t))"
| reach_Unsuccessful: "tree_reach S t \<Longrightarrow> tree_reach S (tree_RecordUnsuccessfulPoll t)"

definition tree_inv :: "Tree \<Rightarrow> bool" where
  "tree_inv t \<longleftrightarrow> good_params (tree_params t) \<and> wf_node (tree_node t) \<and> okc (tree_params t) (tree_node t)"

abbreviation tree_prefix :: "Tree \<Rightarrow> nat" where
  "tree_prefix t \<equiv> node_DecidedPrefix (tree_node t)"

lemma EqualSubset_prefix: "k \<le> 256 \<Longrightarrow> EqualSubset 0 k a b \<longleftrightarrow> agree 0 k a b"
  by (cases "0 < k") (simp_all add: EqualSubset_iff)

text \<open>Everything one step does to a tree that satisfies the invariant.\<close>

definition step_ok :: "ID set \<Rightarrow> Tree \<Rightarrow> Tree \<Rightarrow> bool" where
  "step_ok X t t' \<longleftrightarrow> tree_inv t' \<and> tree_prefix t \<le> tree_prefix t' \<and>
     members (tree_node t') \<subseteq> members (tree_node t) \<union> X \<and>
     agree 0 (tree_prefix t) (tree_Preference t) (tree_Preference t') \<and>
     (tree_Finalized t \<longrightarrow> tree_Finalized t' \<and> tree_Preference t' = tree_Preference t)"

lemma tree_Add_ok:
  assumes "tree_inv t"
  shows "step_ok {x} t (tree_Add x t)"
    and "\<not> tree_Finalized t \<Longrightarrow> agree 0 (tree_prefix t) (tree_Preference t) x \<Longrightarrow>
      members (tree_node (tree_Add x t)) = insert x (members (tree_node t))"
    and "tree_Preference (tree_Add x t) = tree_Preference t"
proof -
  have g: "0 < Beta (tree_params t)" "wf_node (tree_node t)" "okc (tree_params t) (tree_node t)"
    using assms by (auto simp: tree_inv_def good_params_def)
  have eq: "EqualSubset 0 (tree_prefix t) (tree_Preference t) x \<longleftrightarrow>
      agree 0 (tree_prefix t) (node_Preference (tree_node t)) x"
    using wf_node_prefix [OF g(2)] by (simp add: EqualSubset_prefix tree_Preference_def)
  note ok = node_Add_ok [OF g, of x "tree_factory t"]
  show "step_ok {x} t (tree_Add x t)"
    using ok assms eq
    by (auto simp: step_ok_def add_ok_def tree_inv_def tree_Add_def Let_def tree_Finalized_def
        tree_Preference_def)
  show "members (tree_node (tree_Add x t)) = insert x (members (tree_node t))"
    if "\<not> tree_Finalized t" "agree 0 (tree_prefix t) (tree_Preference t) x"
    using ok eq that by (simp add: add_ok_def tree_Add_def tree_Finalized_def tree_Preference_def)
  show "tree_Preference (tree_Add x t) = tree_Preference t"
    using ok eq by (simp add: add_ok_def tree_Add_def tree_Preference_def Let_def)
qed

lemma tree_Add_fin:
  assumes "tree_inv t"
  shows "tree_Finalized (tree_Add x t) = tree_Finalized t"
  using node_Add_ok [of "tree_params t" "tree_node t" x "tree_factory t"] assms
    wf_node_prefix [of "tree_node t"]
  by (auto simp: add_ok_def tree_inv_def tree_Add_def Let_def tree_Finalized_def tree_Preference_def
      good_params_def EqualSubset_prefix)

lemma tree_RecordPoll_ok:
  assumes "tree_inv t" "bag_inv votes"
  shows "step_ok {} t (fst (tree_RecordPoll votes t))"
proof -
  have g: "good_params (tree_params t)" "okc (tree_params t) (tree_node t)" "wf_node (tree_node t)"
    using assms by (auto simp: tree_inv_def)
  define v where "v = Filter (\<lambda>id. EqualSubset 0 (tree_prefix t) (tree_Preference t) id) votes"
  have v: "bag_inv v" by (simp add: v_def)
  obtain m res ok where r: "node_RecordPoll (tree_params t) v (tree_shouldReset t) (tree_node t) = (m, res, ok)"
    by (rule prod_cases3)
  have t': "fst (tree_RecordPoll votes t) = t\<lparr>tree_node := res, tree_shouldReset := False\<rparr>"
    by (simp add: tree_RecordPoll_def Let_def v_def [symmetric] r)
  show ?thesis
  proof (cases "node_Finalized (tree_node t)")
    case True
    then show ?thesis
      using RecordPoll_finalized [OF g(1,2) _ g(3) v, of "tree_shouldReset t"] g(1)
      by (auto simp: t' r step_ok_def tree_inv_def tree_Finalized_def tree_Preference_def)
  next
    case False
    have "poll_wf (tree_node t) (m, res, ok)" and "okc (tree_params t) res"
      using node_RecordPoll_wf [OF g(1,2) False v g(3), of "tree_shouldReset t"]
        node_RecordPoll_ok [OF g(1,2) False v, of "tree_shouldReset t"] by (auto simp: r poll_ok_def)
    then have w: "wf_node res" "members res \<subseteq> members (tree_node t)" "tree_prefix t \<le> node_DecidedPrefix res"
      by (auto simp: poll_wf_def)
    have "agree 0 (tree_prefix t) (node_Preference (tree_node t)) (node_Preference res)"
      using wf_node_agree [OF g(3)] Preference_member [OF w(1)] Preference_member [OF g(3)] w(2)
      unfolding agree_all_def by blast
    then show ?thesis
      using w g(1) False \<open>okc (tree_params t) res\<close>
      by (simp add: t' step_ok_def tree_inv_def tree_Finalized_def tree_Preference_def)
  qed
qed

lemma tree_RecordUnsuccessfulPoll_ok: "tree_inv t \<Longrightarrow> step_ok {} t (tree_RecordUnsuccessfulPoll t)"
  by (simp add: step_ok_def tree_inv_def tree_RecordUnsuccessfulPoll_def tree_Finalized_def tree_Preference_def)

lemma NewTree_inv:
  assumes "Verify prm = None"
  shows "tree_inv (NewTree fac prm c)" "members (tree_node (NewTree fac prm c)) = {c}"
    "\<not> tree_Finalized (NewTree fac prm c)"
  using good_params_Verify [OF assms] u_ok_NewUnary [of prm fac]
  by (auto simp: tree_inv_def NewTree_def NumBits_def good_params_def tree_Finalized_def)

lemma NewTree_simps [simp]:
  "tree_Preference (NewTree fac prm c) = c" "tree_prefix (NewTree fac prm c) = 0"
  "tree_params (NewTree fac prm c) = prm"
  by (simp_all add: NewTree_def tree_Preference_def)

lemma tree_params_Add [simp]: "tree_params (tree_Add x t) = tree_params t"
  by (simp add: tree_Add_def Let_def)

lemma tree_step_ok: "tree_step t t' \<Longrightarrow> tree_inv t \<Longrightarrow> \<exists>X. step_ok X t t'"
  by (induction rule: tree_step.induct)
    (blast intro: tree_Add_ok(1) tree_RecordPoll_ok tree_RecordUnsuccessfulPoll_ok)+

lemma tree_reach_inv: "tree_reach S t \<Longrightarrow> tree_inv t \<and> members (tree_node t) \<subseteq> S"
proof (induction rule: tree_reach.induct)
  case (reach_New prm c fac)
  then show ?case using NewTree_inv [of prm fac c] by simp
next
  case (reach_Add S t x)
  then show ?case using tree_Add_ok(1) [of t x] by (auto simp: step_ok_def)
next
  case (reach_Poll S t votes)
  then show ?case using tree_RecordPoll_ok [of t votes] by (auto simp: step_ok_def)
next
  case (reach_Unsuccessful S t)
  then show ?case using tree_RecordUnsuccessfulPoll_ok [of t] by (auto simp: step_ok_def)
qed

lemma tree_Preference_member: "tree_inv t \<Longrightarrow> tree_Preference t \<in> members (tree_node t)"
  by (simp add: tree_inv_def tree_Preference_def Preference_member)

lemma tree_steps_ok:
  assumes "tree_step\<^sup>*\<^sup>* t t'" "tree_inv t"
  shows "\<exists>X. step_ok X t t'"
  using assms
proof (induction rule: rtranclp_induct)
  case base
  then show ?case by (auto simp: step_ok_def)
next
  case (step u v)
  then obtain X Y where X: "step_ok X t u" and Y: "step_ok Y u v"
    using tree_step_ok [of u v] unfolding step_ok_def by blast
  have "agree 0 (tree_prefix t) (tree_Preference t) (tree_Preference v)"
    using X Y agree_mono [of 0 "tree_prefix u" "tree_Preference u" "tree_Preference v" 0 "tree_prefix t"]
    unfolding step_ok_def by (blast intro: agree_trans)
  then have "step_ok (X \<union> Y) t v" using X Y by (auto simp: step_ok_def)
  then show ?case ..
qed

subsection \<open>Finalization under repeated confident polls\<close>

text \<open>
  \<open>led c k n\<close>: along the path to the leaf \<open>c\<close>, every instance has counted at least \<open>k\<close> consecutive
  polls for the side of \<open>c\<close> and no reset is pending.
\<close>

fun led :: "ID \<Rightarrow> nat \<Rightarrow> node \<Rightarrow> bool" where
  "led c k (UnaryNode p dp cp s r None) = (unary_Finalized s \<or> int k \<le> uconf s)"
| "led c k (UnaryNode p dp cp s r (Some ch)) = (int k \<le> uconf s \<and> (0 < k \<longrightarrow> \<not> r) \<and> led c k ch)"
| "led c k (BinaryNode ps pos s r (Some c0) (Some c1)) =
     (int k \<le> bconf s \<and> (0 < k \<longrightarrow> bslush s = Bit c pos \<and> \<not> get2 r (Bit c pos)) \<and>
      led c k (if Bit c pos = 0 then c0 else c1))"
| "led c k (BinaryNode ps pos s r c0 c1) =
     ((binary_Finalized s \<or> int k \<le> bconf s) \<and> (0 < k \<longrightarrow> bslush s = Bit c pos) \<and>
      (binary_Finalized s \<longrightarrow> 0 < k \<and> binary_Preference s = Bit c pos))"

text \<open>A poll in which \<open>c\<close> alone has a confident majority of at most \<open>K\<close> votes.\<close>

definition confident :: "Parameters \<Rightarrow> ID \<Rightarrow> ID bag \<Rightarrow> bool" where
  "confident prm c votes \<longleftrightarrow> bag_inv votes \<and> bag_Len votes \<le> K_param prm \<and> AlphaConfidence prm \<le> Count votes c"

lemma Count_le_Len: "bag_inv b \<Longrightarrow> Count b x \<le> bag_Len b"
  using Len_nonneg [OF bag_inv_Remove, of b x] by simp

lemma confident_Len:
  assumes "good_params prm" "confident prm c votes"
  shows "AlphaConfidence prm \<le> bag_Len votes" "AlphaPreference prm \<le> bag_Len votes" "bag_inv votes"
  using assms Count_le_Len [of votes c] by (auto simp: confident_def good_params_def)

lemma confident_pruned:
  assumes "good_params prm" "confident prm c votes"
  shows "winner prm votes pos = Bit c pos" "confident prm c (pruned prm votes pos)"
proof -
  define P where "P = (\<lambda>id. Bit id pos = 1)"
  have v: "bag_inv votes" "bag_Len votes \<le> K_param prm" "AlphaConfidence prm \<le> Count votes c"
    using assms(2) by (auto simp: confident_def)
  have gp: "AlphaPreference prm \<le> AlphaConfidence prm" "K_param prm < 2 * AlphaPreference prm"
    using assms(1) by (auto simp: good_params_def)
  note len = Len_Filter_compl [OF v(1), of P]
    Count_le_Len [OF bag_inv_Filter, of P votes c] Count_le_Len [OF bag_inv_Filter, of "Not \<circ> P" votes c]
    Count_Filter [OF v(1), of P c] Count_Filter [OF v(1), of "Not \<circ> P" c]
  have "Bit c pos = 1 \<and> AlphaPreference prm \<le> bag_Len (Filter P votes) \<or>
      Bit c pos = 0 \<and> bag_Len (Filter P votes) < AlphaPreference prm"
    using Bit_cases [of c pos] len v gp by (auto simp: P_def)
  then show w: "winner prm votes pos = Bit c pos"
    by (auto simp: winner_def Split_Filter P_def)
  show "confident prm c (pruned prm votes pos)"
    using Bit_cases [of c pos] v pruned_simps [OF v(1), of prm pos] len
    by (elim disjE) (auto simp: confident_def pruned_def w Split_Filter Count_Filter [OF v(1)] get2_def)
qed

lemma led_0: "okc prm n \<Longrightarrow> \<not> node_Finalized n \<Longrightarrow> led c 0 n"
  by (induction c "0::nat" n rule: led.induct) (auto dest: u_okD b_okD)

lemma members_side:
  assumes "wf_node (BinaryNode ps pos s r (Some d0) (Some d1))"
    and "c \<in> members (BinaryNode ps pos s r (Some d0) (Some d1))"
  shows "c \<in> members (if Bit c pos = 0 then d0 else d1)"
  using assms by auto

lemma node_RecordPoll_led_unary:
  assumes gp: "good_params prm" and conf: "confident prm c votes"
    and n: "okc prm (UnaryNode p dp cp s r ch)" "led c k (UnaryNode p dp cp s r ch)"
    and reset: "reset \<longrightarrow> k = 0"
  defines "s1 \<equiv> unary_RecordPoll (bag_Len votes) (if reset then unary_RecordUnsuccessfulPoll s else s)"
  shows "unary_Finalized s1 \<or> int (Suc k) \<le> uconf s1" "ch \<noteq> None \<longrightarrow> int (Suc k) \<le> uconf s1"
proof -
  define s0 where "s0 = (if reset then unary_RecordUnsuccessfulPoll s else s)"
  have b: "0 < Beta prm" using gp by (simp add: good_params_def)
  have s0: "u_ok prm s0" "uconf s0 = (if reset then 0 else uconf s)" "unary_Finalized s0 = unary_Finalized s"
    using u_ok_RecordUnsuccessfulPoll [OF okc_u [OF n(1)] b] okc_u [OF n(1)] by (auto simp: s0_def)
  note s1 = u_ok_RecordPoll [OF s0(1) b, of "bag_Len votes", folded s0_def]
  have c1: "uconf s1 = uconf s0 + 1"
    using s1(2) confident_Len [OF gp conf] by (simp add: s1_def s0_def)
  have f1: "unary_Finalized s \<Longrightarrow> unary_Finalized s1" using s1(3) s0(3) by (simp add: s1_def s0_def)
  have "unary_Finalized s \<or> int k \<le> uconf s0" "ch \<noteq> None \<longrightarrow> int k \<le> uconf s0"
    using n(2) s0(2) reset u_okD(1) [OF s0(1)] by (cases ch; auto)+
  then show "unary_Finalized s1 \<or> int (Suc k) \<le> uconf s1" "ch \<noteq> None \<longrightarrow> int (Suc k) \<le> uconf s1"
    using c1 f1 by auto
qed

lemma node_RecordPoll_led_binary:
  assumes gp: "good_params prm" and conf: "confident prm c votes"
    and n: "okc prm (BinaryNode ps pos s r c0 c1)" "led c k (BinaryNode ps pos s r c0 c1)"
    and reset: "reset \<longrightarrow> k = 0"
  defines "s1 \<equiv> binary_RecordPoll (bag_Len votes) (Bit c pos)
    (if reset then binary_RecordUnsuccessfulPoll s else s)"
  shows "binary_Finalized s1 \<or> int (Suc k) \<le> bconf s1" "c0 \<noteq> None \<longrightarrow> int (Suc k) \<le> bconf s1"
    "bslush s1 = Bit c pos" "binary_Finalized s1 \<Longrightarrow> binary_Preference s1 = Bit c pos"
proof -
  define s0 where "s0 = (if reset then binary_RecordUnsuccessfulPoll s else s)"
  have b: "0 < Beta prm" using gp by (simp add: good_params_def)
  have s0: "b_ok prm s0" "bconf s0 = (if reset then 0 else bconf s)" "binary_Finalized s0 = binary_Finalized s"
      "bslush s0 = bslush s" "binary_Preference s0 = binary_Preference s"
    using b_ok_RecordUnsuccessfulPoll [OF okc_b [OF n(1)] b] okc_b [OF n(1)] by (auto simp: s0_def)
  have inner: "\<not> binary_Finalized s" if "c0 \<noteq> None"
    using that n(1) by (cases c0; cases c1) auto
  have fin: "0 < k \<and> binary_Preference s = Bit c pos" if "binary_Finalized s"
    using that n by (cases c0; cases c1) auto
  have lead: "0 < k \<longrightarrow> bslush s = Bit c pos" "binary_Finalized s \<or> int k \<le> bconf s"
    using n by (cases c0; cases c1; auto)+
  have "(binary_Finalized s1 \<or> int (Suc k) \<le> bconf s1) \<and> (c0 \<noteq> None \<longrightarrow> int (Suc k) \<le> bconf s1) \<and>
      bslush s1 = Bit c pos \<and> (binary_Finalized s1 \<longrightarrow> binary_Preference s1 = Bit c pos)"
  proof (cases "binary_Finalized s")
    case True
    then show ?thesis
      using binary_RecordPoll_finalized [of s0 "bag_Len votes" "Bit c pos"] fin lead inner s0
      by (auto simp: s1_def s0_def [symmetric] bslush_def)
  next
    case False
    note s1 = b_ok_RecordPoll [OF s0(1) confident_Len(2) [OF gp conf] _ Bit_lt2 b, of c pos]
    have "bconf s1 = (if Bit c pos = bslush s0 then bconf s0 else 0) + 1"
      using s1(2) False s0(3) confident_Len(1) [OF gp conf] by (simp add: s1_def s0_def)
    then have "int (Suc k) \<le> bconf s1"
      using lead False s0(2,4) reset b_okD(1) [OF s0(1)] by auto
    then show ?thesis using s1(4,5) False s0(3) by (simp add: s1_def s0_def)
  qed
  then show "binary_Finalized s1 \<or> int (Suc k) \<le> bconf s1" "c0 \<noteq> None \<longrightarrow> int (Suc k) \<le> bconf s1"
    "bslush s1 = Bit c pos" "binary_Finalized s1 \<Longrightarrow> binary_Preference s1 = Bit c pos" by auto
qed

definition poll_led :: "ID \<Rightarrow> nat \<Rightarrow> node \<times> node \<times> bool \<Rightarrow> bool" where
  "poll_led c k = (\<lambda>(m, res, _). led c k res \<and> c \<in> members res)"

lemma poll_led_unary_finish:
  assumes "poll_led c k t" "poll_ok prm j e t" "poll_ok prm j' e' (unary_finish p dp cp s rs t)"
    and "int k \<le> uconf s"
  shows "poll_led c k (unary_finish p dp cp s rs t)"
proof -
  obtain m res ok where t: "t = (m, res, ok)" by (cases t)
  show ?thesis
    using assms by (cases "unary_Finalized s") (auto simp: t poll_led_def poll_ok_def unary_finish_def Let_def)
qed

lemma poll_led_binary_finish:
  assumes "poll_led c k t" "poll_ok prm j e t"
    and "poll_ok prm j' e' (binary_finish (Bit c pos) ps pos s rs (Some d0, Some d1) t)"
    and "int k \<le> bconf s" "bslush s = Bit c pos"
  shows "poll_led c k (binary_finish (Bit c pos) ps pos s rs (Some d0, Some d1) t)"
proof -
  obtain m res ok where t: "t = (m, res, ok)" by (cases t)
  show ?thesis
    using assms Bit_cases [of c pos]
    by (cases "binary_Finalized s"; elim disjE)
      (auto simp: t poll_led_def poll_ok_def binary_finish_def mkBinary_def set2_def Let_def)
qed

lemma node_RecordPoll_led:
  assumes "good_params prm" "confident prm c votes" "okc prm n" "wf_node n" "led c k n"
    and "c \<in> members n" "reset \<longrightarrow> k = 0"
  shows "poll_led c (Suc k) (node_RecordPoll prm votes reset n)"
  using assms(2-)
proof (induction n arbitrary: votes reset)
  case (UnaryNode p dp cp s r ch)
  define s1 where "s1 = unary_RecordPoll (bag_Len votes) (if reset then unary_RecordUnsuccessfulPoll s else s)"
  note len = confident_Len [OF assms(1) UnaryNode.prems(1)]
  note s1 = node_RecordPoll_led_unary [OF assms(1) UnaryNode.prems(1,2,4,6), folded s1_def]
  show ?case
  proof (cases ch)
    case None
    then show ?thesis
      using s1 len UnaryNode.prems(5) by (auto simp: poll_led_def Let_def s1_def)
  next
    case (Some d)
    have d: "okc prm d" "wf_node d" "led c k d" "c \<in> members d" "reset \<or> r \<longrightarrow> k = 0"
        "\<not> node_Finalized d" "\<not> unary_Finalized s"
      using UnaryNode.prems by (auto simp: Some)
    have IH: "poll_led c (Suc k) (node_RecordPoll prm votes (reset \<or> r) d)"
      by (rule UnaryNode.IH) (use d UnaryNode.prems(1) Some in auto)
    have eq: "node_RecordPoll prm votes reset (UnaryNode p dp cp s r ch) =
        unary_finish p dp cp s1 (reset \<or> r) (node_RecordPoll prm votes (reset \<or> r) d)"
      using len(2) by (simp add: Some s1_def)
    have "poll_ok prm (bag_Len votes) (if reset then 0 else uconf s)
        (unary_finish p dp cp s1 (reset \<or> r) (node_RecordPoll prm votes (reset \<or> r) d))"
      using node_RecordPoll_ok [OF assms(1) UnaryNode.prems(2) _ len(3), of reset] d(7)
      unfolding eq nconf.simps node_Finalized.simps by blast
    then show ?thesis
      unfolding eq using s1(2)
      by (intro poll_led_unary_finish [OF IH node_RecordPoll_ok [OF assms(1) d(1,6) len(3)]]) (auto simp: Some)
  qed
next
  case (BinaryNode ps pos s r c0 c1)
  define pv where "pv = pruned prm votes pos"
  define s0 where "s0 = (if reset then binary_RecordUnsuccessfulPoll s else s)"
  define s1 where "s1 = binary_RecordPoll (bag_Len pv) (Bit c pos) s0"
  define r0 where "r0 = poll_resets reset (Bit c pos) r"
  have w: "winner prm votes pos = Bit c pos" and pv: "confident prm c pv"
    using confident_pruned [OF assms(1) BinaryNode.prems(1), of pos] by (simp_all add: pv_def)
  note len = confident_Len [OF assms(1) pv]
  note s1 = node_RecordPoll_led_binary [OF assms(1) pv BinaryNode.prems(2,4,6), folded s0_def, folded s1_def]
  have eq: "node_RecordPoll prm votes reset (BinaryNode ps pos s r c0 c1) =
      (case get2 (c0, c1) (Bit c pos) of
         None \<Rightarrow> let b = BinaryNode ps pos s1 (set2 r0 (Bit c pos) False) c0 c1 in (b, b, True)
       | Some ch \<Rightarrow> binary_finish (Bit c pos) ps pos s1 r0 (c0, c1)
           (node_RecordPoll prm pv (get2 r0 (Bit c pos)) ch))"
    using len(2) unfolding RecordPoll_binary w pv_def s0_def s1_def r0_def Let_def by simp
  show ?case
  proof (cases "c0 = None")
    case True
    then have c1: "c1 = None" using BinaryNode.prems(2) by (cases c1) auto
    then have "get2 (c0, c1) (Bit c pos) = None" using True by (simp add: get2_def)
    then show ?thesis
      using s1 BinaryNode.prems(5) unfolding eq by (simp add: poll_led_def True c1 Let_def)
  next
    case False
    then obtain d0 d1 where cs: "c0 = Some d0" "c1 = Some d1"
      using BinaryNode.prems(2) by (cases c0; cases c1) auto
    define d where "d = (if Bit c pos = 0 then d0 else d1)"
    have d: "okc prm d" "wf_node d" "led c k d" "c \<in> members d" "\<not> node_Finalized d" "\<not> binary_Finalized s"
        "get2 (c0, c1) (Bit c pos) = Some d" "get2 r (Bit c pos) \<longrightarrow> k = 0"
      using BinaryNode.prems(2-5) Bit_cases [of c pos] by (auto simp: cs d_def)
    have r0: "get2 r0 (Bit c pos) \<longrightarrow> k = 0" using d(8) BinaryNode.prems(6) by (auto simp: r0_def Bit_lt2)
    have IH: "poll_led c (Suc k) (node_RecordPoll prm pv (get2 r0 (Bit c pos)) d)"
    proof (cases "Bit c pos = 0")
      case True
      show ?thesis by (rule BinaryNode.IH(1)) (use True d r0 pv in \<open>simp_all add: cs d_def\<close>)
    next
      case False
      show ?thesis by (rule BinaryNode.IH(2)) (use False d r0 pv in \<open>simp_all add: cs d_def\<close>)
    qed
    have "poll_ok prm (bag_Len votes) (if reset then 0 else bconf s)
        (binary_finish (Bit c pos) ps pos s1 r0 (c0, c1) (node_RecordPoll prm pv (get2 r0 (Bit c pos)) d))"
      using node_RecordPoll_ok [OF assms(1) BinaryNode.prems(2) _ confident_Len(3) [OF assms(1) BinaryNode.prems(1)], of reset]
        d(6,7) unfolding eq nconf.simps node_Finalized.simps by simp
    then show ?thesis
      unfolding eq d(7) using s1(2,3) False
      by (auto simp: cs intro: poll_led_binary_finish [OF IH node_RecordPoll_ok [OF assms(1) d(1,5) len(3)]])
  qed
qed

definition tree_led :: "ID \<Rightarrow> nat \<Rightarrow> Tree \<Rightarrow> bool" where
  "tree_led c k t \<longleftrightarrow> tree_inv t \<and> c \<in> members (tree_node t) \<and> led c k (tree_node t) \<and>
     (tree_shouldReset t \<longrightarrow> k = 0)"

lemma tree_led_step:
  assumes "tree_led c k t" "confident (tree_params t) c votes"
  shows "tree_led c (Suc k) (fst (tree_RecordPoll votes t))"
proof -
  have t: "good_params (tree_params t)" "okc (tree_params t) (tree_node t)" "wf_node (tree_node t)"
      "led c k (tree_node t)" "c \<in> members (tree_node t)" "tree_shouldReset t \<longrightarrow> k = 0"
    using assms(1) by (auto simp: tree_led_def tree_inv_def)
  have v: "bag_inv votes" using assms(2) by (simp add: confident_def)
  define fv where "fv = Filter (\<lambda>id. EqualSubset 0 (tree_prefix t) (tree_Preference t) id) votes"
  have "agree 0 (tree_prefix t) (tree_Preference t) c"
    using wf_node_agree [OF t(3)] Preference_member [OF t(3)] t(5)
    by (simp add: agree_all_def tree_Preference_def)
  then have "EqualSubset 0 (tree_prefix t) (tree_Preference t) c"
    using wf_node_prefix [OF t(3)] by (simp add: EqualSubset_prefix)
  then have fv: "confident (tree_params t) c fv"
    using assms(2) v Len_Filter_le [OF v] by (auto simp: confident_def fv_def Count_Filter intro: order_trans)
  obtain m res ok where r: "node_RecordPoll (tree_params t) fv (tree_shouldReset t) (tree_node t) = (m, res, ok)"
    by (rule prod_cases3)
  have "led c (Suc k) res" "c \<in> members res"
    using node_RecordPoll_led [OF t(1) fv t(2-6)] by (simp_all add: r poll_led_def)
  moreover have "tree_inv (fst (tree_RecordPoll votes t))"
    using tree_RecordPoll_ok [of t votes] assms(1) v by (simp add: tree_led_def step_ok_def)
  ultimately show ?thesis
    by (simp add: tree_led_def tree_RecordPoll_def Let_def fv_def [symmetric] r)
qed

lemma tree_led_end:
  assumes "tree_led c k t" "Beta (tree_params t) \<le> int k"
  shows "tree_Finalized t \<and> tree_Preference t = c"
proof -
  have t: "okc (tree_params t) (tree_node t)" "wf_node (tree_node t)" "led c k (tree_node t)"
      "c \<in> members (tree_node t)"
    using assms(1) by (auto simp: tree_led_def tree_inv_def)
  then have "node_Finalized (tree_node t)"
    using okc_nconf [OF t(1)] assms(2)
    by (cases "(c, k, tree_node t)" rule: led.cases) auto
  then show ?thesis
    using t by (cases "(c, k, tree_node t)" rule: led.cases)
      (auto simp: tree_Finalized_def tree_Preference_def)
qed

definition tree_polls :: "ID bag list \<Rightarrow> Tree \<Rightarrow> Tree" where
  "tree_polls vs t = fold (\<lambda>v t. fst (tree_RecordPoll v t)) vs t"

lemma tree_params_RecordPoll [simp]: "tree_params (fst (tree_RecordPoll v t)) = tree_params t"
  by (simp add: tree_RecordPoll_def Let_def split: prod.splits)

lemma tree_led_polls:
  assumes "tree_led c k t" "\<And>v. v \<in> set vs \<Longrightarrow> confident (tree_params t) c v"
  shows "tree_led c (k + length vs) (tree_polls vs t)" "tree_params (tree_polls vs t) = tree_params t"
  using assms
proof (induction vs arbitrary: k t)
  case Nil
  { case 1 then show ?case by (simp add: tree_polls_def)
  next case 2 then show ?case by (simp add: tree_polls_def) }
next
  case (Cons v vs)
  { case 1
    have "tree_led c (Suc k + length vs) (tree_polls vs (fst (tree_RecordPoll v t)))"
      using 1 by (intro Cons.IH(1) tree_led_step) auto
    then show ?case by (simp add: tree_polls_def)
  next
    case 2
    have "tree_params (tree_polls vs (fst (tree_RecordPoll v t))) = tree_params (fst (tree_RecordPoll v t))"
      using 2 by (intro Cons.IH(2) [where k = "Suc k"] tree_led_step) auto
    then show ?case by (simp add: tree_polls_def) }
qed

lemma tree_finalizes:
  assumes "tree_inv t" "\<not> tree_Finalized t" "c \<in> members (tree_node t)"
    and "\<And>v. v \<in> set vs \<Longrightarrow> confident (tree_params t) c v" "Beta (tree_params t) \<le> int (length vs)"
  shows "tree_Finalized (tree_polls vs t) \<and> tree_Preference (tree_polls vs t) = c"
proof -
  have "tree_led c 0 t"
    using assms(1-3) led_0 [of "tree_params t" "tree_node t" c]
    by (auto simp: tree_led_def tree_inv_def tree_Finalized_def)
  from tree_led_polls [OF this assms(4)] show ?thesis
    using tree_led_end [of c "length vs" "tree_polls vs t"] assms(5) by simp
qed

subsection \<open>A small instance\<close>

text \<open>Parameters of a network of one validator, used by the witnesses.\<close>

definition solo_params :: Parameters where
  "solo_params = DefaultParameters\<lparr>K_param := 1, AlphaPreference := 1, AlphaConfidence := 1, Beta := 1,
     ConcurrentRepolls := 1\<rparr>"

definition solo_tree :: Tree where
  "solo_tree = tree_Add 3 (NewTree SnowballFactory solo_params 5)"

lemma solo_Verify: "Verify solo_params = None"
  by (simp add: Verify_None_iff solo_params_def DefaultParameters_def go_div_def)

lemma solo_reach: "tree_reach {3, 5} solo_tree"
  unfolding solo_tree_def using solo_Verify by (intro reach_Add reach_New)

lemma solo_simps:
  "tree_params solo_tree = solo_params" "tree_inv solo_tree" "\<not> tree_Finalized solo_tree"
  "3 \<in> members (tree_node solo_tree)" "tree_Preference solo_tree = 5"
proof -
  let ?n = "NewTree SnowballFactory solo_params 5"
  note new = NewTree_inv [OF solo_Verify, of SnowballFactory 5]
  have "agree 0 (tree_prefix ?n) (tree_Preference ?n) 3" by simp
  with tree_Add_ok [OF new(1), of 3] new(3) tree_Add_fin [OF new(1), of 3]
  show "tree_inv solo_tree" "\<not> tree_Finalized solo_tree" "3 \<in> members (tree_node solo_tree)"
    "tree_Preference solo_tree = 5"
    by (auto simp: solo_tree_def step_ok_def)
  show "tree_params solo_tree = solo_params" by (simp add: solo_tree_def)
qed

lemma solo_vote:
  "confident solo_params c (bag_Of [c])"
  by (simp add: confident_def solo_params_def bag_Of_def bag_Add_def)

lemma solo_decided:
  "tree_Finalized (tree_polls [bag_Of [3]] solo_tree) \<and> tree_Preference (tree_polls [bag_Of [3]] solo_tree) = 3"
  using solo_vote [of 3] by (intro tree_finalizes) (auto simp: solo_simps solo_params_def)

subsection \<open>Properties\<close>

text \<open>
  C4.  Whatever sequence of \<open>Add\<close>, \<open>RecordPoll\<close> and \<open>RecordUnsuccessfulPoll\<close> calls a tree with
  verified parameters has seen, it prefers one of the choices it was given.
\<close>

theorem tree_prefers_added_choice:
  assumes "tree_reach S t"
  shows "tree_Preference t \<in> S"
  using tree_reach_inv [OF assms] tree_Preference_member [of t] by blast

theorem tree_prefers_added_choice_witness:
  "tree_Preference (tree_Add 3 (NewTree SnowballFactory DefaultParameters 5)) \<in> {3, 5}"
  by (rule tree_prefers_added_choice, rule reach_Add, rule reach_New)
    (simp add: Verify_None_iff DefaultParameters_def go_div_def)

text \<open>
  C2.  A decision of the tree is final: after it, every further operation leaves the tree finalized
  with the same preference.
\<close>

theorem tree_decision_final:
  assumes "tree_reach S t" "tree_step\<^sup>*\<^sup>* t t'" "tree_Finalized t"
  shows "tree_Finalized t' \<and> tree_Preference t' = tree_Preference t"
  using tree_steps_ok [OF assms(2)] tree_reach_inv [OF assms(1)] assms(3) by (auto simp: step_ok_def)

theorem tree_decision_final_witness:
  "tree_Finalized (tree_RecordUnsuccessfulPoll (tree_polls [bag_Of [3]] solo_tree)) \<and>
   tree_Preference (tree_RecordUnsuccessfulPoll (tree_polls [bag_Of [3]] solo_tree)) =
   tree_Preference (tree_polls [bag_Of [3]] solo_tree)"
proof (rule tree_decision_final)
  show "tree_reach {3, 5} (tree_polls [bag_Of [3]] solo_tree)"
    using reach_Poll [OF solo_reach, of "bag_Of [3]"] by (simp add: tree_polls_def)
qed (use solo_decided in \<open>auto intro: step_Unsuccessful\<close>)

text \<open>
  C3.  The decided prefix never shrinks, and every later preference agrees with the earlier one on
  all the bits decided so far: no bit is ever decided twice.
\<close>

theorem tree_prefix_kept:
  assumes "tree_reach S t" "tree_step\<^sup>*\<^sup>* t t'"
  shows "node_DecidedPrefix (tree_node t) \<le> node_DecidedPrefix (tree_node t') \<and>
    map (Bit (tree_Preference t')) [0..<node_DecidedPrefix (tree_node t)] =
    map (Bit (tree_Preference t)) [0..<node_DecidedPrefix (tree_node t)]"
  using tree_steps_ok [OF assms(2)] tree_reach_inv [OF assms(1)]
  by (auto simp: step_ok_def agree_def Bit_eq)

theorem tree_prefix_kept_witness:
  "node_DecidedPrefix (tree_node solo_tree) \<le> node_DecidedPrefix (tree_node (tree_polls [bag_Of [3]] solo_tree)) \<and>
   map (Bit (tree_Preference (tree_polls [bag_Of [3]] solo_tree))) [0..<node_DecidedPrefix (tree_node solo_tree)] =
   map (Bit (tree_Preference solo_tree)) [0..<node_DecidedPrefix (tree_node solo_tree)]"
  using step_Poll [of "bag_Of [3]" solo_tree]
  by (intro tree_prefix_kept [OF solo_reach]) (auto simp: tree_polls_def)

text \<open>
  C1.  Progress: once a choice that is not ruled out has been added to an undecided tree, \<open>Beta\<close>
  polls in a row in which it gets \<open>AlphaConfidence\<close> of at most \<open>K\<close> votes finalize the tree on it,
  however the other votes are spread and whatever resets were pending.
\<close>

theorem tree_confident_polls_finalize:
  assumes "tree_reach S t" "\<not> tree_Finalized t"
    and "EqualSubset 0 (node_DecidedPrefix (tree_node t)) (tree_Preference t) c"
    and "\<forall>v \<in> set vs. bag_inv v \<and> bag_Len v \<le> K_param (tree_params t) \<and>
      AlphaConfidence (tree_params t) \<le> Count v c"
    and "Beta (tree_params t) \<le> int (length vs)"
  shows "tree_Finalized (tree_polls vs (tree_Add c t)) \<and> tree_Preference (tree_polls vs (tree_Add c t)) = c"
proof -
  have t: "tree_inv t" using tree_reach_inv [OF assms(1)] by blast
  then have "agree 0 (tree_prefix t) (tree_Preference t) c"
    using assms(3) wf_node_prefix [of "tree_node t"] by (simp add: EqualSubset_prefix tree_inv_def)
  note add = tree_Add_ok [OF t, of c] this
  have "tree_inv (tree_Add c t)" "tree_params (tree_Add c t) = tree_params t"
    "c \<in> members (tree_node (tree_Add c t))" "\<not> tree_Finalized (tree_Add c t)"
    using add assms(2) tree_Add_fin [OF t, of c] by (auto simp: step_ok_def tree_Add_def Let_def)
  then show ?thesis using assms(4,5) by (intro tree_finalizes) (auto simp: confident_def)
qed

theorem tree_confident_polls_finalize_witness:
  "tree_Finalized (tree_polls [bag_Of [7]] (tree_Add 7 (NewTree SnowballFactory solo_params 5))) \<and>
   tree_Preference (tree_polls [bag_Of [7]] (tree_Add 7 (NewTree SnowballFactory solo_params 5))) = 7"
proof (rule tree_confident_polls_finalize)
  show "tree_reach {5} (NewTree SnowballFactory solo_params 5)"
    by (rule reach_New [OF solo_Verify])
  show "\<not> tree_Finalized (NewTree SnowballFactory solo_params 5)"
    by (rule NewTree_inv(3) [OF solo_Verify])
qed (use solo_vote [of 7] in \<open>auto simp: EqualSubset_iff confident_def solo_params_def\<close>)

text \<open>
  C5.  Adding a choice that agrees with the decided prefix to an undecided tree adds exactly that
  choice to the leaves, wherever the node has to be split, and changes neither the preference nor
  the decided prefix.
\<close>

theorem tree_Add_adds_leaf:
  assumes "tree_reach S t" "\<not> tree_Finalized t"
    and "EqualSubset 0 (node_DecidedPrefix (tree_node t)) (tree_Preference t) c"
  shows "members (tree_node (tree_Add c t)) = insert c (members (tree_node t)) \<and>
    tree_Preference (tree_Add c t) = tree_Preference t"
proof -
  have t: "tree_inv t" using tree_reach_inv [OF assms(1)] by blast
  then have "agree 0 (tree_prefix t) (tree_Preference t) c"
    using assms(3) wf_node_prefix [of "tree_node t"] by (simp add: EqualSubset_prefix tree_inv_def)
  then show ?thesis using tree_Add_ok(2,3) [OF t, of c] assms(2) by blast
qed

theorem tree_Add_adds_leaf_witness:
  "members (tree_node (tree_Add 9 (NewTree SnowflakeFactory solo_params 5))) = {9, 5} \<and>
   tree_Preference (tree_Add 9 (NewTree SnowflakeFactory solo_params 5)) = 5"
  using tree_Add_adds_leaf [OF reach_New [OF solo_Verify, of 5 SnowflakeFactory], of 9]
    NewTree_inv [OF solo_Verify, of SnowflakeFactory 5]
  by (simp add: EqualSubset_iff)

end
