(* ===== verification/Topological.thy ===== *)
theory Topological
  imports SnowTree "HOL-Library.Monad_Syntax"
begin

text \<open>
  Chain consensus (\<open>src/snow/consensus/snowman/topological.go\<close>, \<open>snowman_block.go\<close>): the last accepted block, the
  tree of processing blocks above it, and one snowball tree for each block that has children.  A poll is propagated
  towards the last accepted block, recorded on the blocks with enough votes, and blocks are accepted
  and rejected as the snowball trees finalize.

  \<open>ts.blocks\<close> maps identifiers to pointers that no other structure keeps, so the map holds the blocks themselves and an
  update through a pointer is a write to the map.  The calls into the virtual machine are recorded in
  \<open>calls\<close>; \<open>vm\<close> says which of them returns an error, given the calls made before.  \<open>pick\<close> is the element that
  \<open>Set.Pop\<close> takes.  \<open>None\<close> stands for a nil dereference or a loop that does not end.
\<close>

record Block =
  blk_ID :: ID
  blk_Parent :: ID
  blk_Height :: "64 word"

record snowmanBlock =
  sm_blk :: "Block option"
  shouldFalter :: bool
  sm_sb :: "Tree option"
  sm_children :: "(ID, Block) gomap"

record kahnNode =
  inDegree :: int
  kahn_votes :: "ID bag"

record votes =
  vote_parentID :: ID
  vote_votes :: "ID bag"

datatype vm_call = NotifyAcceptor ID | CallAccept ID | CallReject ID

type_synonym 'e vm = "vm_call list \<Rightarrow> vm_call \<Rightarrow> 'e option"

record Topological =
  ts_Factory :: Factory
  ts_params :: Parameters
  pollNumber :: "64 word"
  lastAcceptedID :: ID
  lastAcceptedHeight :: "64 word"
  blocks :: "(ID, snowmanBlock) gomap"
  preferredIDs :: "ID list"
  preferredHeights :: "(64 word, ID) gomap"
  preference :: ID
  leaves :: "ID list"
  kahnNodes :: "(ID, kahnNode) gomap"
  calls :: "vm_call list"

datatype topological_error = errDuplicateAdd | errUnknownParentBlock

subsection \<open>Blocks\<close>

definition AddChild :: "Factory \<Rightarrow> Parameters \<Rightarrow> Block \<Rightarrow> snowmanBlock \<Rightarrow> snowmanBlock" where
  "AddChild factory params child n =
     (let childID = blk_ID child;
          n = (case sm_sb n of
                 None \<Rightarrow> n\<lparr>sm_sb := Some (NewTree factory params childID), sm_children := []\<rparr>
               | Some sb \<Rightarrow> n\<lparr>sm_sb := Some (tree_Add childID sb)\<rparr>)
      in n\<lparr>sm_children := mput childID child (sm_children n)\<rparr>)"

definition Decided :: "Topological \<Rightarrow> snowmanBlock \<Rightarrow> bool" where
  "Decided ts n \<longleftrightarrow> (case sm_blk n of None \<Rightarrow> True | Some blk \<Rightarrow> blk_Height blk \<le> lastAcceptedHeight ts)"

subsection \<open>Queries\<close>

definition newSnowmanBlock :: "Block option \<Rightarrow> snowmanBlock" where
  "newSnowmanBlock blk = \<lparr>sm_blk = blk, shouldFalter = False, sm_sb = None, sm_children = []\<rparr>"

definition ts_Initialize :: "Factory \<Rightarrow> Parameters \<Rightarrow> ID \<Rightarrow> 64 word \<Rightarrow> ErrParametersInvalid + Topological" where
  "ts_Initialize factory params lastID lastHeight =
     (case Verify params of
        Some err \<Rightarrow> Inl err
      | None \<Rightarrow>
          Inr \<lparr>ts_Factory = factory, ts_params = params, pollNumber = 0, lastAcceptedID = lastID,
               lastAcceptedHeight = lastHeight, blocks = [(lastID, newSnowmanBlock None)],
               preferredIDs = [], preferredHeights = [], preference = lastID, leaves = [],
               kahnNodes = [], calls = []\<rparr>)"

definition NumProcessing :: "Topological \<Rightarrow> int" where
  "NumProcessing ts = int (length (blocks ts)) - 1"

definition Processing :: "ID \<Rightarrow> Topological \<Rightarrow> bool" where
  "Processing blkID ts \<longleftrightarrow> (if blkID = lastAcceptedID ts then False else mget (blocks ts) blkID \<noteq> None)"

definition IsPreferred :: "ID \<Rightarrow> Topological \<Rightarrow> bool" where
  "IsPreferred blkID ts \<longleftrightarrow> blkID = lastAcceptedID ts \<or> blkID \<in> set (preferredIDs ts)"

definition LastAccepted :: "Topological \<Rightarrow> ID \<times> 64 word" where
  "LastAccepted ts = (lastAcceptedID ts, lastAcceptedHeight ts)"

definition ts_Preference :: "Topological \<Rightarrow> ID" where
  "ts_Preference ts = preference ts"

definition PreferenceAtHeight :: "64 word \<Rightarrow> Topological \<Rightarrow> ID option" where
  "PreferenceAtHeight height ts =
     (if height = lastAcceptedHeight ts then Some (lastAcceptedID ts) else mget (preferredHeights ts) height)"

definition GetParent :: "ID \<Rightarrow> Topological \<Rightarrow> ID option" where
  "GetParent blkID ts =
     (case mget (blocks ts) blkID of
        None \<Rightarrow> None
      | Some block \<Rightarrow> (case sm_blk block of None \<Rightarrow> None | Some blk \<Rightarrow> Some (blk_Parent blk)))"

subsection \<open>Adding a block\<close>

definition ts_Add :: "Block \<Rightarrow> Topological \<Rightarrow> Topological \<times> topological_error option" where
  "ts_Add blk ts =
     (let blkID = blk_ID blk; height = blk_Height blk in
      if Processing blkID ts then (ts, Some errDuplicateAdd)
      else let parentID = blk_Parent blk in
           case mget (blocks ts) parentID of
             None \<Rightarrow> (ts, Some errUnknownParentBlock)
           | Some parentNode \<Rightarrow>
               let parentNode = AddChild (ts_Factory ts) (ts_params ts) blk parentNode;
                   ts = ts\<lparr>blocks := mput blkID (newSnowmanBlock (Some blk)) (mput parentID parentNode (blocks ts))\<rparr>;
                   ts = (if preference ts = parentID
                         then ts\<lparr>preference := blkID, preferredIDs := List.insert blkID (preferredIDs ts),
                                 preferredHeights := mput height blkID (preferredHeights ts)\<rparr>
                         else ts)
               in (ts, None))"

subsection \<open>Propagating votes\<close>

definition kahnZero :: kahnNode where
  "kahnZero = \<lparr>inDegree = 0, kahn_votes = empty_bag\<rparr>"

text \<open>The inner loop of \<open>calculateInDegree\<close>: it walks from a newly seen block to the first block seen before.\<close>

partial_function (option) markAncestors :: "ID \<Rightarrow> Topological \<Rightarrow> Topological option" where
  [code]: "markAncestors parentID ts =
     do { n \<leftarrow> mget (blocks ts) parentID;
          if Decided ts n then Some ts
          else do {
            blk \<leftarrow> sm_blk n;
            let parentID = blk_Parent blk;
            let previouslySeen = (mget (kahnNodes ts) parentID \<noteq> None);
            let kahn = mget_or kahnZero (kahnNodes ts) parentID;
            let ts = ts\<lparr>kahnNodes := mput parentID (kahn\<lparr>inDegree := inDegree kahn + 1\<rparr>) (kahnNodes ts)\<rparr>;
            if previouslySeen then Some (ts\<lparr>leaves := removeAll parentID (leaves ts)\<rparr>)
            else markAncestors parentID ts } }"

fun inDegreeLoop :: "ID bag \<Rightarrow> ID list \<Rightarrow> Topological \<Rightarrow> Topological option" where
  "inDegreeLoop votes [] ts = Some ts"
| "inDegreeLoop votes (vote # vs) ts =
     (case mget (blocks ts) vote of
        None \<Rightarrow> inDegreeLoop votes vs ts
      | Some votedBlock \<Rightarrow>
          if Decided ts votedBlock then inDegreeLoop votes vs ts
          else do {
            blk \<leftarrow> sm_blk votedBlock;
            let parentID = blk_Parent blk;
            let numVotes = Count votes vote;
            let previouslySeen = (mget (kahnNodes ts) parentID \<noteq> None);
            let kahn = mget_or kahnZero (kahnNodes ts) parentID;
            let ts = ts\<lparr>kahnNodes := mput parentID (kahn\<lparr>kahn_votes := AddCount vote numVotes (kahn_votes kahn)\<rparr>) (kahnNodes ts)\<rparr>;
            if previouslySeen then inDegreeLoop votes vs ts
            else do {
              ts \<leftarrow> markAncestors parentID (ts\<lparr>leaves := List.insert parentID (leaves ts)\<rparr>);
              inDegreeLoop votes vs ts } })"

definition calculateInDegree :: "ID bag \<Rightarrow> Topological \<Rightarrow> Topological option" where
  "calculateInDegree votes ts = inDegreeLoop votes (bag_List votes) (ts\<lparr>kahnNodes := [], leaves := []\<rparr>)"

partial_function (option) pushLoop :: "(ID list \<Rightarrow> ID) \<Rightarrow> votes list \<Rightarrow> Topological \<Rightarrow> (Topological \<times> votes list) option" where
  [code]: "pushLoop pick voteStack ts =
     (if leaves ts = [] then Some (ts, voteStack)
      else do {
        let leafID = pick (leaves ts);
        let ts = ts\<lparr>leaves := removeAll leafID (leaves ts)\<rparr>;
        let kahn = mget_or kahnZero (kahnNodes ts) leafID;
        block \<leftarrow> mget (blocks ts) leafID;
        let voteStack = (if bag_Len (kahn_votes kahn) \<ge> AlphaPreference (ts_params ts)
                         then voteStack @ [\<lparr>vote_parentID = leafID, vote_votes = kahn_votes kahn\<rparr>]
                         else voteStack);
        if Decided ts block then pushLoop pick voteStack ts
        else do {
          blk \<leftarrow> sm_blk block;
          let parentID = blk_Parent blk;
          let parentKahn = mget_or kahnZero (kahnNodes ts) parentID;
          let parentKahn = parentKahn\<lparr>inDegree := inDegree parentKahn - 1,
                             kahn_votes := AddCount leafID (bag_Len (kahn_votes kahn)) (kahn_votes parentKahn)\<rparr>;
          let ts = ts\<lparr>kahnNodes := mput parentID parentKahn (kahnNodes ts)\<rparr>;
          pushLoop pick voteStack
            (if inDegree parentKahn = 0 then ts\<lparr>leaves := List.insert parentID (leaves ts)\<rparr> else ts) } })"

definition pushVotes :: "(ID list \<Rightarrow> ID) \<Rightarrow> Topological \<Rightarrow> (Topological \<times> votes list) option" where
  "pushVotes pick ts = pushLoop pick [] ts"

subsection \<open>Accepting and rejecting\<close>

definition callVM :: "'e vm \<Rightarrow> vm_call \<Rightarrow> Topological \<Rightarrow> Topological \<times> 'e option" where
  "callVM vm c ts = (ts\<lparr>calls := calls ts @ [c]\<rparr>, vm (calls ts) c)"

text \<open>The rejections of the children of one block, in the order of the map.\<close>

fun rejectAll :: "'e vm \<Rightarrow> (ID, Block) gomap \<Rightarrow> Topological \<Rightarrow> Topological \<times> 'e option" where
  "rejectAll vm [] ts = (ts, None)"
| "rejectAll vm ((childID, child) # cs) ts =
     (case callVM vm (CallReject (blk_ID child)) ts of
        (ts, Some err) \<Rightarrow> (ts, Some err)
      | (ts, None) \<Rightarrow> rejectAll vm cs ts)"

partial_function (option) rejectTransitively :: "'e vm \<Rightarrow> ID list \<Rightarrow> Topological \<Rightarrow> (Topological \<times> 'e option) option" where
  [code]: "rejectTransitively vm rejected ts =
     (if rejected = [] then Some (ts, None)
      else do {
        let rejectedID = last rejected;
        let rejected = butlast rejected;
        rejectedNode \<leftarrow> mget (blocks ts) rejectedID;
        let ts = ts\<lparr>blocks := mdel rejectedID (blocks ts)\<rparr>;
        case rejectAll vm (sm_children rejectedNode) ts of
          (ts, Some err) \<Rightarrow> Some (ts, Some err)
        | (ts, None) \<Rightarrow> rejectTransitively vm (rejected @ mkeys (sm_children rejectedNode)) ts })"

definition acceptPreferredChild :: "'e vm \<Rightarrow> snowmanBlock \<Rightarrow> Topological \<Rightarrow> (Topological \<times> 'e option) option" where
  "acceptPreferredChild vm n ts =
     do { sb \<leftarrow> sm_sb n;
          let pref = tree_Preference sb;
          child \<leftarrow> mget (sm_children n) pref;
          case callVM vm (NotifyAcceptor pref) ts of
            (ts, Some err) \<Rightarrow> Some (ts, Some err)
          | (ts, None) \<Rightarrow>
              (case callVM vm (CallAccept (blk_ID child)) ts of
                 (ts, Some err) \<Rightarrow> Some (ts, Some err)
               | (ts, None) \<Rightarrow>
                   let height = blk_Height child;
                       ts = ts\<lparr>lastAcceptedID := pref, lastAcceptedHeight := height,
                               preferredIDs := removeAll pref (preferredIDs ts),
                               preferredHeights := mdel height (preferredHeights ts)\<rparr>;
                       rejects = filter (\<lambda>(childID, _). childID \<noteq> pref) (sm_children n)
                   in case rejectAll vm rejects ts of
                        (ts, Some err) \<Rightarrow> Some (ts, Some err)
                      | (ts, None) \<Rightarrow> rejectTransitively vm (mkeys rejects) ts) }"

subsection \<open>Voting\<close>

definition writeBlock :: "ID \<Rightarrow> snowmanBlock \<Rightarrow> Topological \<Rightarrow> Topological" where
  "writeBlock blkID n ts = ts\<lparr>blocks := mput blkID n (blocks ts)\<rparr>"

fun falterChildren :: "bool \<Rightarrow> ID \<Rightarrow> ID list \<Rightarrow> Topological \<Rightarrow> Topological" where
  "falterChildren transitively nextID [] ts = ts"
| "falterChildren transitively nextID (childID # childIDs) ts =
     falterChildren transitively nextID childIDs
       (if \<not> transitively \<and> childID = nextID then ts
        else case mget (blocks ts) childID of
               None \<Rightarrow> ts
             | Some childBlock \<Rightarrow> writeBlock childID (childBlock\<lparr>shouldFalter := True\<rparr>) ts)"

text \<open>The loop of \<open>vote\<close>; the head of the list is the top of the stack.\<close>

fun voteLoop :: "'e vm \<Rightarrow> votes list \<Rightarrow> ID \<Rightarrow> bool \<Rightarrow> Topological \<Rightarrow> (Topological \<times> ('e + ID)) option" where
  "voteLoop vm [] newPreferred onPreferredBranch ts = Some (ts, Inr newPreferred)"
| "voteLoop vm (vote # voteStack) newPreferred onPreferredBranch ts =
     (case mget (blocks ts) (vote_parentID vote) of
        None \<Rightarrow> Some (ts, Inr newPreferred)
      | Some parentBlock \<Rightarrow>
          do { sb \<leftarrow> sm_sb parentBlock;
               let shouldTransitivelyFalter = shouldFalter parentBlock;
               let sb = (if shouldTransitivelyFalter then tree_RecordUnsuccessfulPoll sb else sb);
               let sb = fst (tree_RecordPoll (vote_votes vote) sb);
               let parentBlock = parentBlock\<lparr>shouldFalter := False, sm_sb := Some sb\<rparr>;
               let ts = writeBlock (vote_parentID vote) parentBlock ts;
               (ts, err) \<leftarrow>
                 (if tree_Finalized sb \<and> lastAcceptedID ts = vote_parentID vote
                  then acceptPreferredChild vm parentBlock ts \<bind> (\<lambda>(ts, err). case err of
                         Some err \<Rightarrow> Some (ts, Some err)
                       | None \<Rightarrow> Some (ts\<lparr>blocks := mdel (vote_parentID vote) (blocks ts)\<rparr>, None))
                  else Some (ts, None));
               case err of
                 Some err \<Rightarrow> Some (ts, Inl err)
               | None \<Rightarrow>
                   let parentPreference = tree_Preference sb;
                       newPreferred = (if onPreferredBranch then parentPreference else newPreferred);
                       nextID = (case voteStack of [] \<Rightarrow> Empty | v # _ \<Rightarrow> vote_parentID v);
                       onPreferredBranch = (onPreferredBranch \<and> nextID = parentPreference);
                       ts = falterChildren shouldTransitivelyFalter nextID (mkeys (sm_children parentBlock)) ts
                   in voteLoop vm voteStack newPreferred onPreferredBranch ts })"

definition ts_vote :: "'e vm \<Rightarrow> votes list \<Rightarrow> Topological \<Rightarrow> (Topological \<times> ('e + ID)) option" where
  "ts_vote vm voteStack ts =
     (if voteStack = [] then
        do { lastAcceptedBlock \<leftarrow> mget (blocks ts) (lastAcceptedID ts);
             Some (writeBlock (lastAcceptedID ts) (lastAcceptedBlock\<lparr>shouldFalter := True\<rparr>) ts, Inr (preference ts)) }
      else voteLoop vm (rev voteStack) (lastAcceptedID ts) True ts)"

subsection \<open>Polls\<close>

text \<open>The two walks that recompute the preferred branch, up to the last accepted block and down to a leaf.\<close>

partial_function (option) preferUp :: "snowmanBlock \<Rightarrow> Topological \<Rightarrow> Topological option" where
  [code]: "preferUp block ts =
     (if Decided ts block then Some ts
      else do {
        blk \<leftarrow> sm_blk block;
        let ts = ts\<lparr>preferredIDs := List.insert (blk_ID blk) (preferredIDs ts),
                    preferredHeights := mput (blk_Height blk) (blk_ID blk) (preferredHeights ts)\<rparr>;
        block \<leftarrow> mget (blocks ts) (blk_Parent blk);
        preferUp block ts })"

partial_function (option) preferDown :: "snowmanBlock \<Rightarrow> Topological \<Rightarrow> Topological option" where
  [code]: "preferDown block ts =
     (case sm_sb block of
        None \<Rightarrow> Some ts
      | Some sb \<Rightarrow>
          do { let pref = tree_Preference sb;
               let ts = ts\<lparr>preference := pref, preferredIDs := List.insert pref (preferredIDs ts)\<rparr>;
               block \<leftarrow> mget (blocks ts) pref;
               blk \<leftarrow> sm_blk block;
               preferDown block (ts\<lparr>preferredHeights := mput (blk_Height blk) pref (preferredHeights ts)\<rparr>) })"

definition ts_RecordPoll :: "'e vm \<Rightarrow> (ID list \<Rightarrow> ID) \<Rightarrow> ID bag \<Rightarrow> Topological \<Rightarrow> (Topological \<times> 'e option) option" where
  "ts_RecordPoll vm pick voteBag ts =
     do { let ts = ts\<lparr>pollNumber := pollNumber ts + 1\<rparr>;
          (ts, voteStack) \<leftarrow>
            (if bag_Len voteBag \<ge> AlphaPreference (ts_params ts)
             then calculateInDegree voteBag ts \<bind> pushVotes pick
             else Some (ts, []));
          (ts, res) \<leftarrow> ts_vote vm voteStack ts;
          case res of
            Inl err \<Rightarrow> Some (ts, Some err)
          | Inr preferred \<Rightarrow>
              if preferred \<in> set (preferredIDs ts) then Some (ts, None)
              else do {
                let ts = ts\<lparr>preferredIDs := [], preferredHeights := [], preference := preferred\<rparr>;
                startBlock \<leftarrow> mget (blocks ts) preferred;
                ts \<leftarrow> preferUp startBlock ts;
                ts \<leftarrow> preferDown startBlock ts;
                Some (ts, None) } }"

end
