(* ===== verification/BlockTree.thy ===== *)
theory BlockTree
  imports Topological
begin

text \<open>
  Trees of blocks: a finite set of blocks with a root, in which every other block has its parent and is one higher.
  \<open>B\<close> gives the block of an identifier.  The weight of a subtree is what a poll propagated to its root
  counts; a path of blocks with a majority is unique.
\<close>

abbreviation par :: "(ID \<Rightarrow> Block) \<Rightarrow> ID \<Rightarrow> ID" where
  "par B x \<equiv> blk_Parent (B x)"

abbreviation ht :: "(ID \<Rightarrow> Block) \<Rightarrow> ID \<Rightarrow> nat" where
  "ht B x \<equiv> unat (blk_Height (B x))"

definition block_tree :: "(ID \<Rightarrow> Block) \<Rightarrow> ID set \<Rightarrow> ID \<Rightarrow> bool" where
  "block_tree B K r \<longleftrightarrow> finite K \<and> r \<in> K \<and> (\<forall>x\<in>K. x \<noteq> r \<longrightarrow> par B x \<in> K \<and> ht B x = Suc (ht B (par B x)))"

definition kids :: "(ID \<Rightarrow> Block) \<Rightarrow> ID set \<Rightarrow> ID \<Rightarrow> ID \<Rightarrow> ID set" where
  "kids B K r x = {c \<in> K. c \<noteq> r \<and> par B c = x}"

text \<open>\<open>anc B r x y\<close>: \<open>x\<close> is \<open>y\<close> or an ancestor of \<open>y\<close>, in the tree with root \<open>r\<close>.\<close>

inductive anc :: "(ID \<Rightarrow> Block) \<Rightarrow> ID \<Rightarrow> ID \<Rightarrow> ID \<Rightarrow> bool" for B r where
  anc_refl [simp]: "anc B r x x"
| anc_step: "y \<noteq> r \<Longrightarrow> anc B r x (par B y) \<Longrightarrow> anc B r x y"

lemma block_treeD:
  assumes "block_tree B K r"
  shows "finite K" "r \<in> K" "x \<in> K \<Longrightarrow> x \<noteq> r \<Longrightarrow> par B x \<in> K" "x \<in> K \<Longrightarrow> x \<noteq> r \<Longrightarrow> ht B x = Suc (ht B (par B x))"
  using assms by (auto simp: block_tree_def)

lemma anc_in: "anc B r x y \<Longrightarrow> block_tree B K r \<Longrightarrow> y \<in> K \<Longrightarrow> x \<in> K"
  by (induction rule: anc.induct) (auto dest: block_treeD)

lemma anc_ht: "anc B r x y \<Longrightarrow> block_tree B K r \<Longrightarrow> y \<in> K \<Longrightarrow> x = y \<or> ht B x < ht B y"
proof (induction rule: anc.induct)
  case (anc_step y x)
  then show ?case
    using block_treeD(3,4) [OF anc_step.prems(1)] by fastforce
qed simp

lemma root_anc: "block_tree B K r \<Longrightarrow> y \<in> K \<Longrightarrow> anc B r r y"
proof (induction "ht B y" arbitrary: y)
  case 0
  then show ?case
    using block_treeD(4) [of B K r y] by (cases "y = r") auto
next
  case (Suc n)
  then show ?case
    using block_treeD(3,4) [of B K r y] by (cases "y = r") (auto intro: anc_step)
qed

lemma root_ht: "block_tree B K r \<Longrightarrow> y \<in> K \<Longrightarrow> y \<noteq> r \<Longrightarrow> ht B r < ht B y"
  using anc_ht [OF root_anc] by blast

lemma anc_trans: "anc B r y z \<Longrightarrow> anc B r x y \<Longrightarrow> anc B r x z"
  by (induction rule: anc.induct) (auto intro: anc_step)

lemma anc_cases: "anc B r x y \<longleftrightarrow> x = y \<or> y \<noteq> r \<and> anc B r x (par B y)"
  by (subst anc.simps) blast

lemma anc_kid: "c \<noteq> r \<Longrightarrow> anc B r (par B c) c"
  by (simp add: anc_step)

lemma anc_linear: "anc B r x z \<Longrightarrow> anc B r y z \<Longrightarrow> anc B r x y \<or> anc B r y x"
proof (induction rule: anc.induct)
  case (anc_step z x)
  then show ?case
    by (metis anc.anc_step anc_cases)
qed simp

lemma anc_antisym: "block_tree B K r \<Longrightarrow> x \<in> K \<Longrightarrow> y \<in> K \<Longrightarrow> anc B r x y \<Longrightarrow> anc B r y x \<Longrightarrow> x = y"
  by (metis anc_ht less_asym)

lemma anc_same_ht:
  assumes "block_tree B K r" "z \<in> K" "anc B r x z" "anc B r y z" "ht B x = ht B y"
  shows "x = y"
  using anc_linear [OF assms(3,4)] anc_ht [of B r x y K] anc_ht [of B r y x K] anc_in [OF assms(3,1,2)] anc_in [OF assms(4,1,2)] assms(1,5)
  by auto

lemma anc_root: "anc B r x r \<longleftrightarrow> x = r"
  by (subst anc_cases) auto

lemma anc_first:
  assumes "anc B r x y" "x \<noteq> y" "block_tree B K r" "y \<in> K"
  obtains c where "c \<in> kids B K r x" "anc B r c y"
proof -
  have "anc B r x y \<Longrightarrow> x \<noteq> y \<Longrightarrow> y \<in> K \<Longrightarrow> \<exists>c\<in>kids B K r x. anc B r c y"
  proof (induction rule: anc.induct)
    case (anc_step y x)
    then show ?case
      using block_treeD(3) [OF assms(3), of y] by (cases "x = par B y") (auto simp: kids_def intro: anc.anc_step)
  qed simp
  then show thesis
    using assms that by blast
qed

lemma kidsD:
  assumes "block_tree B K r" "c \<in> kids B K r x"
  shows "c \<in> K" "c \<noteq> r" "par B c = x" "x \<in> K" "ht B c = Suc (ht B x)" "anc B r x c"
  using assms by (auto simp: kids_def block_tree_def intro: anc_step)

lemma kids_finite: "block_tree B K r \<Longrightarrow> finite (kids B K r x)"
  by (simp add: kids_def block_tree_def)

lemma kids_apart:
  assumes "block_tree B K r" "c \<in> kids B K r x" "d \<in> kids B K r x" "z \<in> K" "anc B r c z" "anc B r d z"
  shows "c = d"
  using anc_same_ht [OF assms(1,4-6)] kidsD(5) [OF assms(1)] assms(2,3) by simp

subsection \<open>Weights\<close>

definition subtree :: "(ID \<Rightarrow> Block) \<Rightarrow> ID set \<Rightarrow> ID \<Rightarrow> ID \<Rightarrow> ID set" where
  "subtree B K r x = {y \<in> K. anc B r x y}"

definition weight :: "(ID \<Rightarrow> Block) \<Rightarrow> ID set \<Rightarrow> ID \<Rightarrow> (ID \<Rightarrow> int) \<Rightarrow> ID \<Rightarrow> int" where
  "weight B K r w x = sum w (subtree B K r x)"

lemma subtree_split:
  assumes "block_tree B K r" "x \<in> K"
  shows "subtree B K r x = insert x (\<Union>c\<in>kids B K r x. subtree B K r c)"
proof (intro set_eqI iffI)
  fix y
  assume "y \<in> subtree B K r x"
  then have y: "y \<in> K" "anc B r x y"
    by (auto simp: subtree_def)
  show "y \<in> insert x (\<Union>c\<in>kids B K r x. subtree B K r c)"
  proof (cases "x = y")
    case False
    from anc_first [OF y(2) this assms(1) y(1)] show ?thesis
      using y(1) by (auto simp: subtree_def)
  qed simp
next
  fix y
  assume "y \<in> insert x (\<Union>c\<in>kids B K r x. subtree B K r c)"
  then show "y \<in> subtree B K r x"
    using assms kidsD(6) [OF assms(1)] by (auto simp: subtree_def intro: anc_trans)
qed

lemma weight_split:
  assumes "block_tree B K r" "x \<in> K"
  shows "weight B K r w x = w x + sum (weight B K r w) (kids B K r x)"
proof -
  have fin: "finite K"
    using assms(1) by (rule block_treeD)
  have "x \<notin> (\<Union>c\<in>kids B K r x. subtree B K r c)"
    using anc_ht [OF _ assms] kidsD(5) [OF assms(1)] by (auto simp: subtree_def) (metis Suc_n_not_le_n less_or_eq_imp_le not_less_eq)
  moreover have "sum w (\<Union>c\<in>kids B K r x. subtree B K r c) = (\<Sum>c\<in>kids B K r x. sum w (subtree B K r c))"
  proof (rule sum.UNION_disjoint)
    show "\<forall>c\<in>kids B K r x. \<forall>d\<in>kids B K r x. c \<noteq> d \<longrightarrow> subtree B K r c \<inter> subtree B K r d = {}"
      using kids_apart [OF assms(1)] by (auto simp: subtree_def)
  qed (use fin in \<open>auto simp: kids_def subtree_def\<close>)
  ultimately show ?thesis
    unfolding weight_def subtree_split [OF assms] using fin by (subst sum.insert) (auto simp: kids_def subtree_def)
qed

lemma weight_nonneg: "\<forall>y. 0 \<le> w y \<Longrightarrow> 0 \<le> weight B K r w x"
  unfolding weight_def by (simp add: sum_nonneg)

lemma weight_mono:
  assumes "block_tree B K r" "\<forall>y. 0 \<le> w y" "anc B r x y"
  shows "weight B K r w y \<le> weight B K r w x"
  unfolding weight_def using assms by (intro sum_mono2) (auto simp: subtree_def block_tree_def intro: anc_trans)

lemma weight_apart:
  assumes "block_tree B K r" "\<forall>y. 0 \<le> w y" "\<not> anc B r x y" "\<not> anc B r y x"
  shows "weight B K r w x + weight B K r w y \<le> sum w K"
proof -
  have fin: "finite K"
    using assms(1) by (rule block_treeD)
  have "subtree B K r x \<inter> subtree B K r y = {}"
    using anc_linear assms(3,4) by (fastforce simp: subtree_def)
  then have "weight B K r w x + weight B K r w y = sum w (subtree B K r x \<union> subtree B K r y)"
    unfolding weight_def using fin by (subst sum.union_disjoint) (auto simp: subtree_def)
  also have "\<dots> \<le> sum w K"
    using fin assms(2) by (intro sum_mono2) (auto simp: subtree_def)
  finally show ?thesis .
qed

definition kidsWeight :: "(ID \<Rightarrow> Block) \<Rightarrow> ID set \<Rightarrow> ID \<Rightarrow> (ID \<Rightarrow> int) \<Rightarrow> ID \<Rightarrow> int" where
  "kidsWeight B K r w x = sum (weight B K r w) (kids B K r x)"

lemma kidsWeight_le:
  assumes "block_tree B K r" "\<forall>y. 0 \<le> w y" "x \<in> K"
  shows "kidsWeight B K r w x \<le> weight B K r w x"
  using weight_split [OF assms(1,3), of w] assms(2) by (simp add: kidsWeight_def)

lemma kidsWeight_parent:
  assumes "block_tree B K r" "\<forall>y. 0 \<le> w y" "x \<in> K" "x \<noteq> r"
  shows "kidsWeight B K r w x \<le> kidsWeight B K r w (par B x)"
proof -
  have "x \<in> kids B K r (par B x)"
    using assms(3,4) by (simp add: kids_def)
  then have "weight B K r w x \<le> kidsWeight B K r w (par B x)"
    unfolding kidsWeight_def using kids_finite [OF assms(1)] weight_nonneg [OF assms(2)] by (intro member_le_sum) auto
  then show ?thesis
    using kidsWeight_le [OF assms(1-3)] by linarith
qed

definition majority :: "(ID \<Rightarrow> Block) \<Rightarrow> ID set \<Rightarrow> ID \<Rightarrow> (ID \<Rightarrow> int) \<Rightarrow> int \<Rightarrow> ID set" where
  "majority B K r w a = {x \<in> K. a \<le> kidsWeight B K r w x}"

lemma majority_linear:
  assumes "block_tree B K r" "\<forall>y. 0 \<le> w y" "sum w K < 2 * a" "x \<in> majority B K r w a" "y \<in> majority B K r w a"
  shows "anc B r x y \<or> anc B r y x"
proof (rule ccontr)
  assume "\<not> (anc B r x y \<or> anc B r y x)"
  then have "weight B K r w x + weight B K r w y \<le> sum w K"
    by (intro weight_apart [OF assms(1,2)]) auto
  moreover have "a \<le> weight B K r w x" "a \<le> weight B K r w y"
    using assms(4,5) kidsWeight_le [OF assms(1,2), of x] kidsWeight_le [OF assms(1,2), of y] by (auto simp: majority_def)
  ultimately show False
    using assms(3) by linarith
qed

lemma majority_parent:
  assumes "block_tree B K r" "\<forall>y. 0 \<le> w y" "x \<in> majority B K r w a" "x \<noteq> r"
  shows "par B x \<in> majority B K r w a"
  using assms(3) kidsWeight_parent [OF assms(1,2) _ assms(4)] block_treeD(3) [OF assms(1) _ assms(4)] by (fastforce simp: majority_def)

text \<open>A branch of the tree: a list of blocks in which each is the parent of the next.\<close>

fun branch :: "(ID \<Rightarrow> Block) \<Rightarrow> ID \<Rightarrow> ID list \<Rightarrow> bool" where
  "branch B r (x # y # zs) \<longleftrightarrow> y \<noteq> r \<and> par B y = x \<and> branch B r (y # zs)"
| "branch B r _ \<longleftrightarrow> True"

lemma branch_sorted_suffix:
  assumes bt: "block_tree B K r" and s: "sorted_wrt (\<lambda>x y. anc B r x y \<and> x \<noteq> y) (ps @ qs)" and K: "set (ps @ qs) \<subseteq> K"
    and up: "\<forall>x\<in>set (ps @ qs). x \<noteq> r \<longrightarrow> par B x \<in> set (ps @ qs)"
  shows "branch B r qs"
  using assms(2-)
proof (induction qs arbitrary: ps)
  case (Cons x qs)
  have "branch B r qs"
    using Cons.IH [of "ps @ [x]"] Cons.prems by simp
  moreover have "y \<noteq> r \<and> par B y = x" if "qs = y # zs" for y zs
  proof -
    have x: "anc B r x y" "x \<noteq> y" "y \<in> K" "x \<in> K" "y \<noteq> r"
      using Cons.prems that anc_root by (auto simp: sorted_wrt_append)
    have p: "par B y \<in> set (ps @ x # y # zs)" "ht B y = Suc (ht B (par B y))"
      using Cons.prems(3) that x(3,5) block_treeD(4) [OF bt] by auto
    have lt: "ht B z < ht B x" if "z \<in> set ps" for z
      using Cons.prems(1,2) that anc_ht [OF _ bt x(4), of z] by (auto simp: sorted_wrt_append)
    have gt: "ht B y \<le> ht B z" if "z \<in> set (y # zs)" for z
      using Cons.prems(1,2) \<open>qs = y # zs\<close> that anc_ht [OF _ bt, of y z] by (auto simp: sorted_wrt_append)
    have "ht B x < ht B y"
      using anc_ht [OF x(1) bt x(3)] x(2) by blast
    then have "par B y \<notin> set ps" "par B y \<notin> set (y # zs)"
      using lt [of "par B y"] gt [of "par B y"] p(2) by auto
    then show ?thesis
      using p(1) x(5) by simp
  qed
  ultimately show ?case
    by (cases qs) auto
qed simp

lemma majority_branch:
  assumes bt: "block_tree B K r" and w: "\<forall>y. 0 \<le> w y" "sum w K < 2 * a"
    and zs: "sorted_wrt (\<lambda>x y. \<not> anc B r x y) zs" "set zs = majority B K r w a"
  shows "branch B r (rev zs)" "zs \<noteq> [] \<Longrightarrow> last zs = r" "sorted_wrt (\<lambda>x y. anc B r x y \<and> x \<noteq> y) (rev zs)"
proof -
  have "sorted_wrt (\<lambda>y x. anc B r x y \<and> x \<noteq> y) zs"
    using zs(1) by (rule sorted_wrt_mono_rel [rotated]) (use majority_linear [OF bt w] zs(2) in auto)
  then show s: "sorted_wrt (\<lambda>x y. anc B r x y \<and> x \<noteq> y) (rev zs)"
    by (simp add: sorted_wrt_rev)
  have K: "set zs \<subseteq> K"
    by (auto simp: zs(2) majority_def)
  show "branch B r (rev zs)"
    using branch_sorted_suffix [OF bt, of "[]" "rev zs"] s K majority_parent [OF bt w(1)] zs(2) by auto
  show "last zs = r" if ne: "zs \<noteq> []"
  proof (rule ccontr)
    assume r: "last zs \<noteq> r"
    obtain ys z where ys: "zs = ys @ [z]"
      using ne by (cases zs rule: rev_cases) auto
    have "par B z \<in> set zs" "z \<in> K"
      using majority_parent [OF bt w(1), of z a] r K ys zs(2) by auto
    then have "anc B r z (par B z) \<and> z \<noteq> par B z"
      using s ys block_treeD(4) [OF bt, of z] r by (auto simp: sorted_wrt_append)
    then show False
      using anc_ht [of B r z "par B z" K] bt block_treeD(3,4) [OF bt \<open>z \<in> K\<close>] r ys by simp
  qed
qed

subsection \<open>Sums over bags\<close>

lemma msum_sum: "wf_map m \<Longrightarrow> finite S \<Longrightarrow> fst ` set m \<subseteq> S \<Longrightarrow> msum m = sum (mget_or 0 m) S"
proof (induction m arbitrary: S)
  case (Cons kv m)
  obtain k v where kv: "kv = (k, v)"
    by (cases kv)
  have "sum (mget_or 0 (kv # m)) S = sum (mget_or 0 (kv # m)) (insert k (S - {k}))"
    using Cons.prems kv by (simp add: insert_absorb)
  also have "\<dots> = v + sum (mget_or 0 m) (S - {k})"
    using Cons.prems(2) by (subst sum.insert) (auto simp: kv mget_or_Cons intro!: sum.cong)
  also have "sum (mget_or 0 m) (S - {k}) = msum m"
    using Cons.prems kv by (intro Cons.IH [symmetric]) auto
  finally show ?case
    by (simp add: kv)
qed simp

lemma Len_sum:
  assumes "bag_inv b" "finite S" "\<And>c. Count b c \<noteq> 0 \<Longrightarrow> c \<in> S"
  shows "bag_Len b = sum (Count b) S"
proof -
  have "fst ` set (counts b) \<subseteq> S"
  proof
    fix c
    assume "c \<in> fst ` set (counts b)"
    then have "0 < Count b c"
      using Count_pos_iff [OF assms(1), of c] by (simp add: bag_List_def)
    then show "c \<in> S"
      using assms(3) [of c] by simp
  qed
  then show ?thesis
    using msum_sum [of "counts b" S] assms(1,2) by (simp add: Len_eq_sum bag_invD(1) Count_def)
qed

lemma sum_Count_le:
  assumes "bag_inv b" "finite S"
  shows "sum (Count b) S \<le> bag_Len b"
proof -
  have "bag_Len b = sum (Count b) (S \<union> set (bag_List b))"
    using assms Count_pos_iff [OF assms(1)] Count_nonneg [OF assms(1)] by (intro Len_sum) (auto simp: order.strict_iff_order)
  then show ?thesis
    using assms by (simp add: sum_mono2)
qed

end
