(* ===== verification/TopologicalVotes.thy ===== *)
theory TopologicalVotes
  imports BlockTree
begin

text \<open>
  The invariant of the consensus state, and the propagation of votes: \<open>calculateInDegree\<close> and \<open>pushVotes\<close> end
  without a nil dereference, and the stack of votes is the branch of the blocks below which at least \<open>AlphaPreference\<close>
  votes lie, each with the votes of the subtrees of its children.
\<close>

subsection \<open>The invariant\<close>

abbreviation bkeys :: "Topological \<Rightarrow> ID set" where
  "bkeys ts \<equiv> fst ` set (blocks ts)"

definition node_inv :: "(ID \<Rightarrow> Block) \<Rightarrow> Parameters \<Rightarrow> ID set \<Rightarrow> ID \<Rightarrow> ID \<Rightarrow> snowmanBlock \<Rightarrow> bool" where
  "node_inv B prm K r x n \<longleftrightarrow>
     (if x = r then sm_blk n = None \<or> sm_blk n = Some (B r) else sm_blk n = Some (B x)) \<and>
     wf_map (sm_children n) \<and> (\<forall>c. mget (sm_children n) c = (if c \<in> kids B K r x then Some (B c) else None)) \<and>
     (case sm_sb n of None \<Rightarrow> kids B K r x = {} | Some t \<Rightarrow> tree_reach (kids B K r x) t \<and> tree_params t = prm)"

definition ts_inv :: "(ID \<Rightarrow> Block) \<Rightarrow> Topological \<Rightarrow> bool" where
  "ts_inv B ts \<longleftrightarrow> Verify (ts_params ts) = None \<and> (\<forall>i. blk_ID (B i) = i) \<and> block_tree B (bkeys ts) (lastAcceptedID ts) \<and>
     wf_map (blocks ts) \<and> lastAcceptedHeight ts = blk_Height (B (lastAcceptedID ts)) \<and>
     (\<forall>x n. mget (blocks ts) x = Some n \<longrightarrow> node_inv B (ts_params ts) (bkeys ts) (lastAcceptedID ts) x n)"

lemma ts_invD:
  assumes "ts_inv B ts"
  shows "Verify (ts_params ts) = None" "blk_ID (B i) = i" "block_tree B (bkeys ts) (lastAcceptedID ts)"
    "wf_map (blocks ts)" "lastAcceptedHeight ts = blk_Height (B (lastAcceptedID ts))"
    "mget (blocks ts) x = Some n \<Longrightarrow> node_inv B (ts_params ts) (bkeys ts) (lastAcceptedID ts) x n"
  using assms by (auto simp: ts_inv_def)

lemma ts_inv_block:
  assumes "ts_inv B ts" "x \<in> bkeys ts"
  obtains n where "mget (blocks ts) x = Some n" "node_inv B (ts_params ts) (bkeys ts) (lastAcceptedID ts) x n"
    "Decided ts n \<longleftrightarrow> x = lastAcceptedID ts" "x \<noteq> lastAcceptedID ts \<Longrightarrow> sm_blk n = Some (B x)"
proof -
  obtain n where n: "mget (blocks ts) x = Some n"
    using key_mget_Some [OF assms(2)] by blast
  have ni: "node_inv B (ts_params ts) (bkeys ts) (lastAcceptedID ts) x n"
    using ts_invD(6) [OF assms(1) n] .
  have "Decided ts n \<longleftrightarrow> x = lastAcceptedID ts"
  proof (cases "x = lastAcceptedID ts")
    case True
    then show ?thesis
      using ni ts_invD(5) [OF assms(1)] by (auto simp: node_inv_def Decided_def)
  next
    case False
    then have "ht B (lastAcceptedID ts) < ht B x"
      using root_ht [OF ts_invD(3) [OF assms(1)] assms(2)] by simp
    then show ?thesis
      using False ni ts_invD(5) [OF assms(1)] by (simp add: node_inv_def Decided_def word_le_nat_alt)
  qed
  then show thesis
    using that n ni by (simp add: node_inv_def)
qed

subsection \<open>In-degrees\<close>

text \<open>The sort state after some votes: \<open>D\<close> counts them, \<open>pend\<close> is a block whose edge to its parent is not counted yet.\<close>

definition kahn_inv :: "(ID \<Rightarrow> Block) \<Rightarrow> ID set \<Rightarrow> ID \<Rightarrow> (ID \<Rightarrow> int) \<Rightarrow> ID option \<Rightarrow> (ID \<rightharpoonup> kahnNode) \<Rightarrow> ID list \<Rightarrow> bool" where
  "kahn_inv B K r D pend N L \<longleftrightarrow>
     dom N \<subseteq> K \<and> (\<forall>y\<in>dom N. y \<noteq> r \<longrightarrow> Some y \<noteq> pend \<longrightarrow> par B y \<in> dom N) \<and>
     (\<forall>x k. N x = Some k \<longrightarrow> inDegree k = int (card {y \<in> kids B K r x. y \<in> dom N \<and> Some y \<noteq> pend})) \<and>
     distinct L \<and> set L = {x. \<exists>k. N x = Some k \<and> inDegree k = 0} \<and>
     (\<forall>x k. N x = Some k \<longrightarrow> bag_inv (kahn_votes k) \<and> (\<forall>c. Count (kahn_votes k) c = (if c \<in> kids B K r x then D c else 0))) \<and>
     (\<forall>c\<in>K. c \<noteq> r \<longrightarrow> D c \<noteq> 0 \<longrightarrow> par B c \<in> dom N)"

lemma kahn_invD:
  assumes "kahn_inv B K r D pend N L"
  shows "dom N \<subseteq> K" "y \<in> dom N \<Longrightarrow> y \<noteq> r \<Longrightarrow> Some y \<noteq> pend \<Longrightarrow> par B y \<in> dom N"
    "N x = Some k \<Longrightarrow> inDegree k = int (card {y \<in> kids B K r x. y \<in> dom N \<and> Some y \<noteq> pend})"
    "distinct L" "set L = {x. \<exists>k. N x = Some k \<and> inDegree k = 0}"
    "N x = Some k \<Longrightarrow> bag_inv (kahn_votes k)"
    "N x = Some k \<Longrightarrow> Count (kahn_votes k) c = (if c \<in> kids B K r x then D c else 0)"
    "c \<in> K \<Longrightarrow> c \<noteq> r \<Longrightarrow> D c \<noteq> 0 \<Longrightarrow> par B c \<in> dom N"
  using assms unfolding kahn_inv_def by auto

text \<open>One step of the walk, with the edge of \<open>p\<close> counted at its parent \<open>q\<close>.\<close>

lemma kahn_inv_edge:
  assumes bt: "block_tree B K r" and ki: "kahn_inv B K r D (Some p) N L" and p: "p \<in> dom N" "p \<noteq> r"
  defines "q \<equiv> par B p"
  defines "k \<equiv> (case N q of None \<Rightarrow> kahnZero | Some k \<Rightarrow> k)"
  defines "N' \<equiv> N(q \<mapsto> k\<lparr>inDegree := inDegree k + 1\<rparr>)"
  shows "N q \<noteq> None \<Longrightarrow> kahn_inv B K r D None N' (removeAll q L)"
    "N q = None \<Longrightarrow> kahn_inv B K r D (Some q) N' L"
proof -
  note I = kahn_invD [OF ki]
  have K: "p \<in> K" "q \<in> K" "ht B p = Suc (ht B q)" "p \<in> kids B K r q"
    using I(1) p block_treeD(3,4) [OF bt] by (auto simp: q_def kids_def)
  have fin: "finite {y \<in> kids B K r q. y \<in> dom N \<and> Some y \<noteq> Some p}"
    using kids_finite [OF bt] by simp
  show "kahn_inv B K r D None N' (removeAll q L)" if seen: "N q \<noteq> None"
  proof -
    have k: "N q = Some k" "dom N' = dom N"
      using seen by (auto simp: k_def N'_def)
    have deg: "card {y \<in> kids B K r x. y \<in> dom N} =
        card {y \<in> kids B K r x. y \<in> dom N \<and> Some y \<noteq> Some p} + (if x = q then 1 else 0)" for x
    proof (cases "x = q")
      case True
      then have "{y \<in> kids B K r x. y \<in> dom N} = insert p {y \<in> kids B K r q. y \<in> dom N \<and> Some y \<noteq> Some p}"
        using p K(4) by auto
      then show ?thesis
        using True fin by simp
    next
      case False
      then have "{y \<in> kids B K r x. y \<in> dom N} = {y \<in> kids B K r x. y \<in> dom N \<and> Some y \<noteq> Some p}"
        by (auto simp: kids_def q_def)
      then show ?thesis
        using False by simp
    qed
    have "set (removeAll q L) = {x. \<exists>k. N' x = Some k \<and> inDegree k = 0}"
      using I(5) I(3) [OF k(1)] by (auto simp: N'_def)
    moreover have "inDegree k' = int (card {y \<in> kids B K r x. y \<in> dom N})" if "N' x = Some k'" for x k'
      using that I(3) [of x] I(3) [OF k(1)] unfolding deg by (auto simp: N'_def split: if_splits)
    then have "\<forall>x k. N' x = Some k \<longrightarrow> inDegree k = int (card {y \<in> kids B K r x. y \<in> dom N' \<and> Some y \<noteq> None})"
      by (simp add: k(2))
    moreover have "\<forall>y\<in>dom N'. y \<noteq> r \<longrightarrow> Some y \<noteq> None \<longrightarrow> par B y \<in> dom N'"
      using I(2) seen unfolding k(2) q_def by (metis domI domIff option.inject)
    moreover have "\<forall>x k. N' x = Some k \<longrightarrow> bag_inv (kahn_votes k) \<and> (\<forall>c. Count (kahn_votes k) c = (if c \<in> kids B K r x then D c else 0))"
      using I(6,7) k(1) by (auto simp: N'_def)
    ultimately show ?thesis
      unfolding kahn_inv_def using I(1,4,8) k(2) by (simp add: distinct_removeAll)
  qed
  show "kahn_inv B K r D (Some q) N' L" if new: "N q = None"
  proof -
    have k: "k = kahnZero" "dom N' = insert q (dom N)" "q \<notin> dom N"
      using new by (auto simp: k_def N'_def)
    have only: "{y \<in> kids B K r q. y \<in> dom N} = {p}"
      using I(2) k(3) p K(4) kidsD(2,3) [OF bt] by blast
    have zero: "D c = 0" if "c \<in> kids B K r q" for c
      using I(8) [of c] k(3) kidsD(1-3) [OF bt that] by auto
    have deg: "inDegree k' = int (card {y \<in> kids B K r x. y \<in> dom N})" if "N' x = Some k'" for x k'
    proof (cases "x = q")
      case True
      then show ?thesis
        using that by (auto simp: N'_def k(1) kahnZero_def only)
    next
      case False
      then have "{y \<in> kids B K r x. y \<in> dom N \<and> Some y \<noteq> Some p} = {y \<in> kids B K r x. y \<in> dom N}"
        by (auto simp: kids_def q_def)
      then show ?thesis
        using that False I(3) [of x k'] by (simp add: N'_def)
    qed
    have "{y \<in> kids B K r x. y \<in> dom N' \<and> Some y \<noteq> Some q} = {y \<in> kids B K r x. y \<in> dom N}" for x
      using k(2,3) by auto
    then have "\<forall>x k. N' x = Some k \<longrightarrow> inDegree k = int (card {y \<in> kids B K r x. y \<in> dom N' \<and> Some y \<noteq> Some q})"
      using deg by simp
    moreover have "set L = {x. \<exists>k. N' x = Some k \<and> inDegree k = 0}"
      using I(5) new by (auto simp: N'_def k(1) kahnZero_def)
    moreover have "\<forall>y\<in>dom N'. y \<noteq> r \<longrightarrow> Some y \<noteq> Some q \<longrightarrow> par B y \<in> dom N'"
      using I(2) unfolding k(2) q_def by blast
    moreover have "\<forall>x k. N' x = Some k \<longrightarrow> bag_inv (kahn_votes k) \<and> (\<forall>c. Count (kahn_votes k) c = (if c \<in> kids B K r x then D c else 0))"
      using I(6,7) zero by (auto simp: N'_def k(1) kahnZero_def)
    ultimately show ?thesis
      unfolding kahn_inv_def using I(1,4,8) k(2) K(2) by auto
  qed
qed

lemma kahn_inv_root: "kahn_inv B K r D (Some r) N L \<Longrightarrow> kahn_inv B K r D None N L"
proof -
  have "{y \<in> kids B K r x. y \<in> dom N \<and> Some y \<noteq> Some r} = {y \<in> kids B K r x. y \<in> dom N \<and> Some y \<noteq> None}" for x
    by (auto simp: kids_def)
  then show "kahn_inv B K r D (Some r) N L \<Longrightarrow> kahn_inv B K r D None N L"
    unfolding kahn_inv_def by auto
qed

lemma ts_inv_kahn [simp]: "ts_inv B (ts\<lparr>kahnNodes := kn\<rparr>) = ts_inv B ts" "ts_inv B (ts\<lparr>leaves := lv\<rparr>) = ts_inv B ts"
  "ts_inv B (ts\<lparr>pollNumber := pn\<rparr>) = ts_inv B ts"
  by (simp_all add: ts_inv_def)

lemma Decided_kahn [simp]: "Decided (ts\<lparr>kahnNodes := kn\<rparr>) n = Decided ts n" "Decided (ts\<lparr>leaves := lv\<rparr>) n = Decided ts n"
  "Decided (ts\<lparr>pollNumber := pn\<rparr>) n = Decided ts n"
  by (simp_all add: Decided_def split: option.split)

abbreviation kahn_ok :: "(ID \<Rightarrow> Block) \<Rightarrow> (ID \<Rightarrow> int) \<Rightarrow> ID option \<Rightarrow> Topological \<Rightarrow> bool" where
  "kahn_ok B D pend ts \<equiv> kahn_inv B (bkeys ts) (lastAcceptedID ts) D pend (mget (kahnNodes ts)) (leaves ts)"

lemma markAncestors_runs:
  assumes "ts_inv B ts" "kahn_ok B D (Some p) ts" "p \<in> dom (mget (kahnNodes ts))"
  shows "\<exists>kn lv. markAncestors p ts = Some (ts\<lparr>kahnNodes := kn, leaves := lv\<rparr>) \<and> kahn_ok B D None (ts\<lparr>kahnNodes := kn, leaves := lv\<rparr>)"
  using assms
proof (induction "ht B p" arbitrary: p ts rule: less_induct)
  case less
  let ?r = "lastAcceptedID ts" and ?q = "par B p"
  note bt = ts_invD(3) [OF less.prems(1)]
  have p: "p \<in> bkeys ts"
    using less.prems(2,3) kahn_invD(1) by blast
  obtain n where n: "mget (blocks ts) p = Some n" "Decided ts n \<longleftrightarrow> p = ?r" "p \<noteq> ?r \<Longrightarrow> sm_blk n = Some (B p)"
    using ts_inv_block [OF less.prems(1) p] by metis
  show ?case
  proof (cases "p = ?r")
    case True
    then show ?thesis
      using n less.prems(2) kahn_inv_root [of B "bkeys ts" ?r D]
      by (subst markAncestors.simps) (auto intro!: exI [of _ "kahnNodes ts"] exI [of _ "leaves ts"])
  next
    case False
    define k where "k = mget_or kahnZero (kahnNodes ts) ?q"
    define kn where "kn = mput ?q (k\<lparr>inDegree := inDegree k + 1\<rparr>) (kahnNodes ts)"
    have step: "markAncestors p ts = (if mget (kahnNodes ts) ?q \<noteq> None
        then Some (ts\<lparr>kahnNodes := kn, leaves := removeAll ?q (leaves ts)\<rparr>) else markAncestors ?q (ts\<lparr>kahnNodes := kn\<rparr>))"
      using n False by (subst markAncestors.simps) (simp add: Let_def k_def kn_def)
    have kn_map: "mget kn = (mget (kahnNodes ts))(?q \<mapsto> k\<lparr>inDegree := inDegree k + 1\<rparr>)"
      by (auto simp: kn_def)
    note edge = kahn_inv_edge [OF bt less.prems(2,3) False, folded mget_or_def, folded k_def, folded kn_map]
    show ?thesis
    proof (cases "mget (kahnNodes ts) ?q")
      case None
      have lt: "ht B ?q < ht B p"
        using block_treeD(4) [OF bt p False] by simp
      have "\<exists>kn' lv. markAncestors ?q (ts\<lparr>kahnNodes := kn\<rparr>) = Some (ts\<lparr>kahnNodes := kn\<rparr>\<lparr>kahnNodes := kn', leaves := lv\<rparr>) \<and>
          kahn_ok B D None (ts\<lparr>kahnNodes := kn\<rparr>\<lparr>kahnNodes := kn', leaves := lv\<rparr>)"
        using edge(2) [OF None] less.prems(1) by (intro less.hyps [OF lt]) (auto simp: kn_map)
      then show ?thesis
        using None by (simp add: step)
    next
      case (Some k')
      then show ?thesis
        using edge(1) by (auto simp: step)
    qed
  qed
qed

lemma kahn_inv_vote:
  assumes bt: "block_tree B K r" and ki: "kahn_inv B K r D None N L" and v: "v \<in> K" "v \<noteq> r" "D v = 0" "0 < cnt"
  defines "p \<equiv> par B v"
  defines "k \<equiv> (case N p of None \<Rightarrow> kahnZero | Some k \<Rightarrow> k)"
  defines "N' \<equiv> N(p \<mapsto> k\<lparr>kahn_votes := AddCount v cnt (kahn_votes k)\<rparr>)"
  shows "N p \<noteq> None \<Longrightarrow> kahn_inv B K r (D(v := cnt)) None N' L"
    "N p = None \<Longrightarrow> kahn_inv B K r (D(v := cnt)) (Some p) N' (List.insert p L)"
proof -
  note I = kahn_invD [OF ki]
  have K: "p \<in> K" "v \<in> kids B K r p"
    using v block_treeD(3) [OF bt] by (auto simp: p_def kids_def)
  have zero: "D c = 0" if "c \<in> kids B K r p" "N p = None" for c
    using I(8) [of c] kidsD(1-3) [OF bt that(1)] that(2) by auto
  have kv: "bag_inv (kahn_votes k)" "Count (kahn_votes k) c = (if c \<in> kids B K r p then D c else 0)" for c
    using I(6,7) zero by (auto simp: k_def kahnZero_def split: option.splits)
  have votes: "\<forall>x k. N' x = Some k \<longrightarrow> bag_inv (kahn_votes k) \<and> (\<forall>c. Count (kahn_votes k) c = (if c \<in> kids B K r x then (D(v := cnt)) c else 0))"
    using I(6,7) kv K(2) v(3,4) by (auto simp: N'_def kids_def p_def)
  have seen: "\<forall>c\<in>K. c \<noteq> r \<longrightarrow> (D(v := cnt)) c \<noteq> 0 \<longrightarrow> par B c \<in> dom N'"
    using I(8) by (auto simp: N'_def p_def)
  show "kahn_inv B K r (D(v := cnt)) None N' L" if "N p \<noteq> None"
  proof -
    have k: "N p = Some k" "dom N' = dom N"
      using that by (auto simp: k_def N'_def)
    have "\<forall>x k. N' x = Some k \<longrightarrow> inDegree k = int (card {y \<in> kids B K r x. y \<in> dom N' \<and> Some y \<noteq> None})"
      unfolding k(2) using I(3) k(1) by (auto simp: N'_def)
    moreover have "set L = {x. \<exists>k. N' x = Some k \<and> inDegree k = 0}"
      using I(5) k(1) by (auto simp: N'_def)
    moreover have "\<forall>y\<in>dom N'. y \<noteq> r \<longrightarrow> Some y \<noteq> None \<longrightarrow> par B y \<in> dom N'"
      unfolding k(2) using I(2) by blast
    ultimately show ?thesis
      unfolding kahn_inv_def using I(1,4) k(2) votes seen by simp
  qed
  show "kahn_inv B K r (D(v := cnt)) (Some p) N' (List.insert p L)" if new: "N p = None"
  proof -
    have k: "inDegree k = 0" "dom N' = insert p (dom N)" "p \<notin> dom N"
      using new by (auto simp: k_def kahnZero_def N'_def)
    have same: "{y \<in> kids B K r x. y \<in> dom N' \<and> Some y \<noteq> Some p} = {y \<in> kids B K r x. y \<in> dom N \<and> Some y \<noteq> None}" for x
      using k(2,3) by auto
    have none: "{y \<in> kids B K r p. y \<in> dom N \<and> Some y \<noteq> None} = {}"
      using I(2) k(3) kidsD(2,3) [OF bt] by fastforce
    have "\<forall>x k. N' x = Some k \<longrightarrow> inDegree k = int (card {y \<in> kids B K r x. y \<in> dom N' \<and> Some y \<noteq> Some p})"
      unfolding same using I(3) k(1) none by (auto simp: N'_def)
    moreover have "set (List.insert p L) = {x. \<exists>k. N' x = Some k \<and> inDegree k = 0}"
      using I(5) k(1) by (auto simp: N'_def)
    moreover have "\<forall>y\<in>dom N'. y \<noteq> r \<longrightarrow> Some y \<noteq> Some p \<longrightarrow> par B y \<in> dom N'"
      unfolding k(2) using I(2) by blast
    ultimately show ?thesis
      unfolding kahn_inv_def using I(1,4) k(2) K(1) votes seen by simp
  qed
qed

text \<open>The votes that count: those for known blocks that are not decided.\<close>

definition counted :: "Topological \<Rightarrow> ID bag \<Rightarrow> ID \<Rightarrow> int" where
  "counted ts votes c = (if c \<in> bkeys ts \<and> c \<noteq> lastAcceptedID ts then Count votes c else 0)"

lemma counted_kahn [simp]: "counted (ts\<lparr>kahnNodes := kn\<rparr>) = counted ts" "counted (ts\<lparr>leaves := lv\<rparr>) = counted ts"
  by (simp_all add: counted_def fun_eq_iff)

lemma inDegreeLoop_runs:
  assumes "ts_inv B ts" "kahn_ok B (\<lambda>c. if c \<in> done then counted ts votes c else 0) None ts" "distinct vs" "set vs \<inter> done = {}"
    "\<forall>v\<in>set vs. 0 < Count votes v"
  shows "\<exists>kn lv. inDegreeLoop votes vs ts = Some (ts\<lparr>kahnNodes := kn, leaves := lv\<rparr>) \<and>
    kahn_ok B (\<lambda>c. if c \<in> done \<union> set vs then counted ts votes c else 0) None (ts\<lparr>kahnNodes := kn, leaves := lv\<rparr>)"
  using assms
proof (induction vs arbitrary: ts "done")
  case Nil
  show ?case
    using Nil.prems(2) by (intro exI [of _ "kahnNodes ts"] exI [of _ "leaves ts"]) simp
next
  case (Cons v vs)
  let ?r = "lastAcceptedID ts" and ?D = "\<lambda>d c. if c \<in> d then counted ts votes c else 0"
  have dn: "insert v done \<union> set vs = done \<union> set (v # vs)" "set vs \<inter> insert v done = {}"
    using Cons.prems(3,4) by auto
  show ?case
  proof (cases "v \<in> bkeys ts \<and> v \<noteq> ?r")
    case False
    then have skip: "inDegreeLoop votes (v # vs) ts = inDegreeLoop votes vs ts"
    proof (cases "v \<in> bkeys ts")
      case True
      then show ?thesis
      proof (rule ts_inv_block [OF Cons.prems(1)])
        fix n
        assume "mget (blocks ts) v = Some n" "Decided ts n \<longleftrightarrow> v = ?r"
        then show ?thesis
          using False True by simp
      qed
    next
      case False
      then have "mget (blocks ts) v = None"
        by (simp add: map_of_eq_None_iff)
      then show ?thesis
        by simp
    qed
    have "?D done = ?D (insert v done)"
      using False by (auto simp: counted_def fun_eq_iff)
    then show ?thesis
      using Cons.IH [of ts "insert v done"] Cons.prems dn unfolding skip by simp
  next
    case True
    then obtain n where n: "mget (blocks ts) v = Some n" "\<not> Decided ts n" "sm_blk n = Some (B v)"
      using ts_inv_block [OF Cons.prems(1), of v] by metis
    define p where "p = par B v"
    define k where "k = mget_or kahnZero (kahnNodes ts) p"
    define kn where "kn = mput p (k\<lparr>kahn_votes := AddCount v (Count votes v) (kahn_votes k)\<rparr>) (kahnNodes ts)"
    have step: "inDegreeLoop votes (v # vs) ts = (if mget (kahnNodes ts) p \<noteq> None then inDegreeLoop votes vs (ts\<lparr>kahnNodes := kn\<rparr>)
        else markAncestors p (ts\<lparr>kahnNodes := kn, leaves := List.insert p (leaves ts)\<rparr>) \<bind> inDegreeLoop votes vs)"
      using n by (simp add: Let_def p_def k_def kn_def)
    have D: "(?D done)(v := Count votes v) = ?D (insert v done)"
      using True by (auto simp: counted_def fun_eq_iff)
    have kn_map: "mget kn = (mget (kahnNodes ts))(p \<mapsto> k\<lparr>kahn_votes := AddCount v (Count votes v) (kahn_votes k)\<rparr>)"
      by (auto simp: kn_def)
    note vote = kahn_inv_vote [OF ts_invD(3) [OF Cons.prems(1)] Cons.prems(2), of v "Count votes v", folded mget_or_def p_def,
        folded k_def, folded kn_map, unfolded D]
    obtain kn' lv' where run: "kahn_ok B (?D (insert v done)) None (ts\<lparr>kahnNodes := kn', leaves := lv'\<rparr>)"
      "inDegreeLoop votes (v # vs) ts = inDegreeLoop votes vs (ts\<lparr>kahnNodes := kn', leaves := lv'\<rparr>)"
    proof (cases "mget (kahnNodes ts) p")
      case None
      have "\<exists>kn' lv'. markAncestors p (ts\<lparr>kahnNodes := kn, leaves := List.insert p (leaves ts)\<rparr>) =
          Some (ts\<lparr>kahnNodes := kn, leaves := List.insert p (leaves ts)\<rparr>\<lparr>kahnNodes := kn', leaves := lv'\<rparr>) \<and>
          kahn_ok B (?D (insert v done)) None (ts\<lparr>kahnNodes := kn, leaves := List.insert p (leaves ts)\<rparr>\<lparr>kahnNodes := kn', leaves := lv'\<rparr>)"
      proof (rule markAncestors_runs)
        show "kahn_ok B (?D (insert v done)) (Some p) (ts\<lparr>kahnNodes := kn, leaves := List.insert p (leaves ts)\<rparr>)"
          using vote(2) [OF _ _ _ _ None] True Cons.prems(4,5) by simp
        show "p \<in> dom (mget (kahnNodes (ts\<lparr>kahnNodes := kn, leaves := List.insert p (leaves ts)\<rparr>)))"
          by (simp add: kn_def domIff)
      qed (use Cons.prems(1) in simp)
      then obtain kn' lv' where m: "markAncestors p (ts\<lparr>kahnNodes := kn, leaves := List.insert p (leaves ts)\<rparr>) = Some (ts\<lparr>kahnNodes := kn', leaves := lv'\<rparr>)"
        "kahn_ok B (?D (insert v done)) None (ts\<lparr>kahnNodes := kn', leaves := lv'\<rparr>)"
        by auto
      show ?thesis
        by (rule that [OF m(2)]) (simp add: step m(1) None del: inDegreeLoop.simps)
    next
      case (Some k')
      then show ?thesis
        using vote(1) True Cons.prems(4,5) by (intro that [of "leaves ts" kn]) (simp_all add: step del: inDegreeLoop.simps)
    qed
    show ?thesis
      using Cons.IH [of "ts\<lparr>kahnNodes := kn', leaves := lv'\<rparr>" "insert v done", unfolded counted_kahn] run(1) Cons.prems dn unfolding run(2) by simp
  qed
qed

lemma calculateInDegree_runs:
  assumes "ts_inv B ts" "bag_inv votes"
  shows "\<exists>kn lv. calculateInDegree votes ts = Some (ts\<lparr>kahnNodes := kn, leaves := lv\<rparr>) \<and>
    kahn_ok B (counted ts votes) None (ts\<lparr>kahnNodes := kn, leaves := lv\<rparr>)"
proof -
  let ?ts = "ts\<lparr>kahnNodes := [], leaves := []\<rparr>"
  have "kahn_ok B (\<lambda>c. if c \<in> {} then counted ?ts votes c else 0) None ?ts"
    by (simp add: kahn_inv_def)
  moreover have "distinct (bag_List votes)" "\<forall>v\<in>set (bag_List votes). 0 < Count votes v"
    using Count_pos_iff [OF assms(2)] bag_invD(1) [OF assms(2)] by (auto simp: bag_List_def)
  ultimately obtain kn lv where run: "calculateInDegree votes ts = Some (ts\<lparr>kahnNodes := kn, leaves := lv\<rparr>)"
    "kahn_ok B (\<lambda>c. if c \<in> {} \<union> set (bag_List votes) then counted ts votes c else 0) None (ts\<lparr>kahnNodes := kn, leaves := lv\<rparr>)"
    using inDegreeLoop_runs [of B ?ts "{}" votes "bag_List votes", unfolded counted_kahn] assms(1) by (auto simp: calculateInDegree_def)
  have D: "(\<lambda>c. if c \<in> {} \<union> set (bag_List votes) then counted ts votes c else 0) = counted ts votes"
  proof
    fix c
    show "(if c \<in> {} \<union> set (bag_List votes) then counted ts votes c else 0) = counted ts votes c"
      using Count_pos_iff [OF assms(2), of c] Count_nonneg [OF assms(2), of c] by (auto simp: counted_def)
  qed
  show ?thesis
    using run unfolding D by blast
qed

subsection \<open>Pushing votes\<close>

text \<open>The sort state when the blocks of \<open>P\<close> have been popped; their bags are complete.\<close>

definition push_inv :: "(ID \<Rightarrow> Block) \<Rightarrow> ID set \<Rightarrow> ID \<Rightarrow> (ID \<Rightarrow> int) \<Rightarrow> ID set \<Rightarrow> (ID \<rightharpoonup> kahnNode) \<Rightarrow> ID list \<Rightarrow> bool" where
  "push_inv B K r w P N L \<longleftrightarrow>
     dom N \<subseteq> K \<and> (\<forall>y\<in>dom N. y \<noteq> r \<longrightarrow> par B y \<in> dom N) \<and> P \<subseteq> dom N \<and>
     (\<forall>x\<in>P. \<forall>y\<in>kids B K r x. y \<in> dom N \<longrightarrow> y \<in> P) \<and>
     (\<forall>x k. N x = Some k \<longrightarrow> inDegree k = int (card {y \<in> kids B K r x. y \<in> dom N \<and> y \<notin> P})) \<and>
     distinct L \<and> set L = {x. x \<notin> P \<and> (\<exists>k. N x = Some k \<and> inDegree k = 0)} \<and>
     (\<forall>x k. N x = Some k \<longrightarrow> bag_inv (kahn_votes k) \<and>
        (\<forall>c. Count (kahn_votes k) c =
           (if c \<in> kids B K r x then w c + (if c \<in> P then kidsWeight B K r w c else 0) else 0))) \<and>
     (\<forall>x\<in>P. \<forall>k. N x = Some k \<longrightarrow> bag_Len (kahn_votes k) = kidsWeight B K r w x) \<and>
     (\<forall>c\<in>K. c \<noteq> r \<longrightarrow> w c \<noteq> 0 \<longrightarrow> par B c \<in> dom N)"

lemma push_invD:
  assumes "push_inv B K r w P N L"
  shows "dom N \<subseteq> K" "y \<in> dom N \<Longrightarrow> y \<noteq> r \<Longrightarrow> par B y \<in> dom N" "P \<subseteq> dom N"
    "x \<in> P \<Longrightarrow> y \<in> kids B K r x \<Longrightarrow> y \<in> dom N \<Longrightarrow> y \<in> P"
    "N x = Some k \<Longrightarrow> inDegree k = int (card {y \<in> kids B K r x. y \<in> dom N \<and> y \<notin> P})"
    "distinct L" "set L = {x. x \<notin> P \<and> (\<exists>k. N x = Some k \<and> inDegree k = 0)}"
    "N x = Some k \<Longrightarrow> bag_inv (kahn_votes k)"
    "N x = Some k \<Longrightarrow> Count (kahn_votes k) c =
       (if c \<in> kids B K r x then w c + (if c \<in> P then kidsWeight B K r w c else 0) else 0)"
    "x \<in> P \<Longrightarrow> N x = Some k \<Longrightarrow> bag_Len (kahn_votes k) = kidsWeight B K r w x"
    "c \<in> K \<Longrightarrow> c \<noteq> r \<Longrightarrow> w c \<noteq> 0 \<Longrightarrow> par B c \<in> dom N"
  using assms unfolding push_inv_def by auto

lemma push_inv_start: "kahn_inv B K r w None N L \<Longrightarrow> push_inv B K r w {} N L"
  unfolding push_inv_def kahn_inv_def by auto

lemma push_anc: "anc B r x z \<Longrightarrow> push_inv B K r w P N L \<Longrightarrow> x \<in> P \<Longrightarrow> z \<in> dom N \<Longrightarrow> z \<in> P"
proof (induction rule: anc.induct)
  case (anc_step z x)
  have "par B z \<in> dom N" "z \<in> kids B K r (par B z)"
    using anc_step push_invD(1,2) [OF anc_step.prems(1)] by (auto simp: kids_def)
  then show ?case
    using anc_step push_invD(4) [OF anc_step.prems(1)] by blast
qed simp

text \<open>Blocks that the sort does not visit have no votes below them.\<close>

lemma unvisited_weight:
  assumes bt: "block_tree B K r" and inv: "push_inv B K r w P N L" and c: "c \<in> K" "c \<notin> dom N"
  shows "kidsWeight B K r w c = 0"
proof -
  have up: "par B y \<in> dom N \<Longrightarrow> anc B r c y \<Longrightarrow> y \<in> K \<Longrightarrow> y \<noteq> c \<Longrightarrow> c \<in> dom N" for y
  proof (induction "ht B y" arbitrary: y rule: less_induct)
    case less
    have y: "y \<noteq> r" "anc B r c (par B y)"
      using less.prems(2,4) by (auto simp: anc_cases [of B r c y])
    have py: "par B y \<in> K" "ht B y = Suc (ht B (par B y))"
      using block_treeD(3,4) [OF bt less.prems(3) y(1)] .
    show ?case
    proof (cases "par B y = c")
      case False
      then have "par B y \<noteq> r"
        using y(2) by (auto simp: anc_root)
      then have "par B (par B y) \<in> dom N"
        using less.prems(1) push_invD(2) [OF inv] by blast
      then show ?thesis
        using less.hyps [of "par B y"] y(2) py False by simp
    qed (use less.prems(1) in simp)
  qed
  have "weight B K r w d = 0" if d: "d \<in> kids B K r c" for d
    unfolding weight_def
  proof (rule sum.neutral, rule ballI)
    fix y
    assume "y \<in> subtree B K r d"
    then have y: "y \<in> K" "anc B r d y"
      by (auto simp: subtree_def)
    have "anc B r c y" "y \<noteq> c" "y \<noteq> r"
      using anc_trans [OF y(2) kidsD(6) [OF bt d]] anc_ht [OF y(2) bt y(1)] kidsD(2,5) [OF bt d] y(2) anc_root [of B r d] by auto
    then show "w y = 0"
      using up [of y] y(1) c(2) push_invD(11) [OF inv, of y] by blast
  qed
  then show ?thesis
    by (simp add: kidsWeight_def)
qed

lemma push_leaf_votes:
  assumes bt: "block_tree B K r" and inv: "push_inv B K r w P N L" and z: "z \<in> set L" "N z = Some k"
  shows "Count (kahn_votes k) c = (if c \<in> kids B K r z then weight B K r w c else 0)"
    "bag_Len (kahn_votes k) = kidsWeight B K r w z"
proof -
  note I = push_invD [OF inv]
  have "{y \<in> kids B K r z. y \<in> dom N \<and> y \<notin> P} = {}"
    using I(5) [OF z(2)] I(7) z kids_finite [OF bt, of z] by simp
  then have done_kids: "c \<in> P" if "c \<in> kids B K r z" "c \<in> dom N" for c
    using that by blast
  have cnt: "Count (kahn_votes k) c = (if c \<in> kids B K r z then weight B K r w c else 0)" for c
  proof (cases "c \<in> kids B K r z")
    case True
    have c: "c \<in> K"
      using kidsD(1) [OF bt True] .
    have "weight B K r w c = w c + (if c \<in> P then kidsWeight B K r w c else 0)"
      using weight_split [OF bt c, of w] done_kids [OF True] unvisited_weight [OF bt inv c] I(3)
      by (auto simp: kidsWeight_def)
    then show ?thesis
      using I(9) [OF z(2), of c] True by simp
  qed (use I(9) [OF z(2), of c] in simp)
  then show "Count (kahn_votes k) c = (if c \<in> kids B K r z then weight B K r w c else 0)" .
  have "bag_Len (kahn_votes k) = sum (Count (kahn_votes k)) (kids B K r z)"
    using I(8) [OF z(2)] kids_finite [OF bt] cnt by (intro Len_sum) (auto split: if_splits)
  then show "bag_Len (kahn_votes k) = kidsWeight B K r w z"
    by (simp add: kidsWeight_def cnt)
qed

lemma push_pop_root:
  assumes bt: "block_tree B K r" and inv: "push_inv B K r w P N L" and z: "r \<in> set L"
  shows "push_inv B K r w (insert r P) N (removeAll r L)"
proof -
  note I = push_invD [OF inv]
  obtain k where k: "N r = Some k" "inDegree k = 0" "r \<notin> P"
    using z I(7) by auto
  have kids: "{y \<in> kids B K r x. y \<in> dom N \<and> y \<notin> insert r P} = {y \<in> kids B K r x. y \<in> dom N \<and> y \<notin> P}" for x
    by (auto simp: kids_def)
  have "y \<in> P" if "y \<in> kids B K r r" "y \<in> dom N" for y
    using I(5) [OF k(1)] k(2) kids_finite [OF bt, of r] that by (auto simp: card_eq_0_iff)
  then have "\<forall>x\<in>insert r P. \<forall>y\<in>kids B K r x. y \<in> dom N \<longrightarrow> y \<in> insert r P"
    using I(4) by blast
  moreover have "\<forall>x\<in>insert r P. \<forall>k. N x = Some k \<longrightarrow> bag_Len (kahn_votes k) = kidsWeight B K r w x"
    using I(10) push_leaf_votes(2) [OF bt inv z] by blast
  moreover have "\<forall>x k. N x = Some k \<longrightarrow> bag_inv (kahn_votes k) \<and> (\<forall>c. Count (kahn_votes k) c =
      (if c \<in> kids B K r x then w c + (if c \<in> insert r P then kidsWeight B K r w c else 0) else 0))"
    using I(8,9) by (auto simp: kids_def)
  moreover have "set (removeAll r L) = {x. x \<notin> insert r P \<and> (\<exists>k. N x = Some k \<and> inDegree k = 0)}"
    using I(7) by auto
  ultimately show ?thesis
    unfolding push_inv_def kids using I(1-3,5,6,11) k(1) by (auto simp: distinct_removeAll)
qed

lemma push_pop:
  assumes bt: "block_tree B K r" and inv: "push_inv B K r w P N L" and z: "z \<in> set L" "z \<noteq> r" and k: "N z = Some k"
    and kp: "N (par B z) = Some kp"
  defines "kp' \<equiv> kp\<lparr>inDegree := inDegree kp - 1, kahn_votes := AddCount z (bag_Len (kahn_votes k)) (kahn_votes kp)\<rparr>"
  shows "push_inv B K r w (insert z P) (N(par B z \<mapsto> kp'))
    (if inDegree kp' = 0 then List.insert (par B z) (removeAll z L) else removeAll z L)"
proof -
  let ?p = "par B z" and ?N = "N(par B z \<mapsto> kp')"
  note I = push_invD [OF inv]
  have zs: "z \<notin> P" "inDegree k = 0" "z \<in> dom N"
    using z(1) I(7) k by auto
  have K: "z \<in> K" "z \<in> kids B K r ?p" "?p \<noteq> z" "?p \<notin> P" "z \<notin> kids B K r z"
    using I(1) zs z(2) block_treeD(4) [OF bt, of z] I(4) [of ?p z] by (auto simp: kids_def)
  have dom: "dom ?N = dom N"
    using kp by auto
  have deg: "int (card {y \<in> kids B K r x. y \<in> dom N \<and> y \<notin> insert z P}) =
      int (card {y \<in> kids B K r x. y \<in> dom N \<and> y \<notin> P}) - (if x = ?p then 1 else 0)" for x
  proof (cases "x = ?p")
    case True
    have "{y \<in> kids B K r ?p. y \<in> dom N \<and> y \<notin> P} = insert z {y \<in> kids B K r ?p. y \<in> dom N \<and> y \<notin> insert z P}"
      using K(2) zs by auto
    moreover have "finite {y \<in> kids B K r ?p. y \<in> dom N \<and> y \<notin> insert z P}"
      using kids_finite [OF bt] by simp
    ultimately show ?thesis
      using True by simp
  next
    case False
    then have "{y \<in> kids B K r x. y \<in> dom N \<and> y \<notin> insert z P} = {y \<in> kids B K r x. y \<in> dom N \<and> y \<notin> P}"
      by (auto simp: kids_def)
    then show ?thesis
      using False by simp
  qed
  have in_deg: "\<forall>x k. ?N x = Some k \<longrightarrow> inDegree k = int (card {y \<in> kids B K r x. y \<in> dom N \<and> y \<notin> insert z P})"
    unfolding deg using I(5) I(5) [OF kp] by (auto simp: kp'_def)
  have len: "bag_Len (kahn_votes k) = kidsWeight B K r w z"
    using push_leaf_votes(2) [OF bt inv z(1) k] .
  have nonneg: "0 \<le> kidsWeight B K r w z"
    using len I(8) [OF k] Len_nonneg by metis
  have "y \<in> P" if "y \<in> kids B K r z" "y \<in> dom N" for y
    using I(5) [OF k] zs(2) kids_finite [OF bt, of z] that by (auto simp: card_eq_0_iff)
  then have closed: "\<forall>x\<in>insert z P. \<forall>y\<in>kids B K r x. y \<in> dom N \<longrightarrow> y \<in> insert z P"
    using I(4) by blast
  have votes: "\<forall>x k. ?N x = Some k \<longrightarrow> bag_inv (kahn_votes k) \<and> (\<forall>c. Count (kahn_votes k) c =
      (if c \<in> kids B K r x then w c + (if c \<in> insert z P then kidsWeight B K r w c else 0) else 0))"
  proof (intro allI impI)
    fix x k'
    assume x: "?N x = Some k'"
    show "bag_inv (kahn_votes k') \<and> (\<forall>c. Count (kahn_votes k') c =
        (if c \<in> kids B K r x then w c + (if c \<in> insert z P then kidsWeight B K r w c else 0) else 0))"
    proof (cases "x = ?p")
      case True
      then have "k' = kp'"
        using x by simp
      then show ?thesis
        using True I(8,9) [OF kp] K(2) zs(1) len nonneg by (auto simp: kp'_def)
    next
      case False
      then have "z \<notin> kids B K r x" "N x = Some k'"
        using x by (auto simp: kids_def)
      then show ?thesis
        using I(8,9) by auto
    qed
  qed
  have final: "\<forall>x\<in>insert z P. \<forall>k. ?N x = Some k \<longrightarrow> bag_Len (kahn_votes k) = kidsWeight B K r w x"
    using I(10) len k K(3,4) by auto
  have leaves: "set (if inDegree kp' = 0 then List.insert ?p (removeAll z L) else removeAll z L) =
      {x. x \<notin> insert z P \<and> (\<exists>k. ?N x = Some k \<and> inDegree k = 0)}"
  proof -
    have "{y \<in> kids B K r ?p. y \<in> dom N \<and> y \<notin> P} \<noteq> {}"
      using K(2) zs by blast
    then have "inDegree kp \<noteq> 0"
      using I(5) [OF kp] kids_finite [OF bt, of ?p] by simp
    then have "?p \<notin> set L"
      using I(7) kp by simp
    then show ?thesis
      using I(7) K(3,4) by auto
  qed
  show ?thesis
    unfolding push_inv_def dom using I(1-3,6,11) zs(3) in_deg closed votes final leaves by (simp add: distinct_removeAll)
qed

lemma push_end:
  assumes bt: "block_tree B K r" and inv: "push_inv B K r w P N []"
  shows "dom N = P"
proof (rule ccontr)
  assume "dom N \<noteq> P"
  define S where "S = dom N - P"
  have S: "finite S" "S \<noteq> {}"
    using \<open>dom N \<noteq> P\<close> push_invD(1,3) [OF inv] block_treeD(1) [OF bt] finite_subset by (auto simp: S_def)
  have "Max (ht B ` S) \<in> ht B ` S"
    using S by (intro Max_in) auto
  then obtain x where x: "x \<in> S" "ht B x = Max (ht B ` S)"
    by auto
  have "y \<notin> S" if y: "y \<in> kids B K r x" for y
  proof
    assume "y \<in> S"
    then have "ht B y \<le> Max (ht B ` S)"
      using S(1) by (intro Max_ge) auto
    then show False
      using kidsD(5) [OF bt y] x(2) by simp
  qed
  then have "{y \<in> kids B K r x. y \<in> dom N \<and> y \<notin> P} = {}"
    by (auto simp: S_def)
  then have "\<exists>k. N x = Some k \<and> inDegree k = 0"
    using x(1) push_invD(5) [OF inv, of x] by (auto simp: S_def)
  then show False
    using push_invD(7) [OF inv] x(1) by (auto simp: S_def)
qed

definition stack_ok :: "(ID \<Rightarrow> Block) \<Rightarrow> ID set \<Rightarrow> ID \<Rightarrow> (ID \<Rightarrow> int) \<Rightarrow> int \<Rightarrow> ID list \<Rightarrow> votes list \<Rightarrow> bool" where
  "stack_ok B K r w a zs st \<longleftrightarrow> map vote_parentID st = filter (\<lambda>x. a \<le> kidsWeight B K r w x) zs \<and>
     (\<forall>v\<in>set st. bag_inv (vote_votes v) \<and>
        (\<forall>c. Count (vote_votes v) c = (if c \<in> kids B K r (vote_parentID v) then weight B K r w c else 0)))"

abbreviation push_ok :: "(ID \<Rightarrow> Block) \<Rightarrow> (ID \<Rightarrow> int) \<Rightarrow> ID list \<Rightarrow> votes list \<Rightarrow> Topological \<Rightarrow> bool" where
  "push_ok B w zs st ts \<equiv>
     push_inv B (bkeys ts) (lastAcceptedID ts) w (set zs) (mget (kahnNodes ts)) (leaves ts) \<and>
     sorted_wrt (\<lambda>x y. \<not> anc B (lastAcceptedID ts) x y) zs \<and>
     stack_ok B (bkeys ts) (lastAcceptedID ts) w (AlphaPreference (ts_params ts)) zs st"

lemma kahn_swap: "ts\<lparr>leaves := lv, kahnNodes := kn\<rparr> = ts\<lparr>kahnNodes := kn, leaves := lv\<rparr>" for ts :: Topological
  by simp

lemma pushLoop_step:
  assumes inv: "ts_inv B ts" and ok: "push_ok B w zs st ts" and pick: "pick_ok pick" "leaves ts \<noteq> []"
  obtains z kn lv st' where "pushLoop pick st ts = pushLoop pick st' (ts\<lparr>kahnNodes := kn, leaves := lv\<rparr>)"
    "push_ok B w (zs @ [z]) st' (ts\<lparr>kahnNodes := kn, leaves := lv\<rparr>)" "z \<notin> set zs" "z \<in> dom (mget (kahnNodes ts))"
    "dom (mget kn) = dom (mget (kahnNodes ts))"
proof -
  let ?r = "lastAcceptedID ts" and ?K = "bkeys ts" and ?a = "AlphaPreference (ts_params ts)"
  define z where "z = pick (leaves ts)"
  have pi: "push_inv B ?K ?r w (set zs) (mget (kahnNodes ts)) (leaves ts)"
    and sorted: "sorted_wrt (\<lambda>x y. \<not> anc B ?r x y) zs" and st: "stack_ok B ?K ?r w ?a zs st"
    using ok by auto
  note bt = ts_invD(3) [OF inv] and I = push_invD [OF pi]
  have z: "z \<in> set (leaves ts)"
    using pick by (auto simp: pick_ok_def z_def)
  then obtain k where k: "mget (kahnNodes ts) z = Some k" "z \<notin> set zs"
    using I(7) by auto
  have zK: "z \<in> ?K"
    using I(1) k(1) by blast
  obtain n where n: "mget (blocks ts) z = Some n" "Decided ts n \<longleftrightarrow> z = ?r" "z \<noteq> ?r \<Longrightarrow> sm_blk n = Some (B z)"
    using ts_inv_block [OF inv zK] by metis
  define st' where "st' = (if ?a \<le> bag_Len (kahn_votes k) then st @ [\<lparr>vote_parentID = z, vote_votes = kahn_votes k\<rparr>] else st)"
  have sorted': "sorted_wrt (\<lambda>x y. \<not> anc B ?r x y) (zs @ [z])"
    using sorted push_anc [OF _ pi] k by (auto simp: sorted_wrt_append)
  note kv = push_leaf_votes [OF bt pi z k(1)]
  have st_ok: "stack_ok B ?K ?r w ?a (zs @ [z]) st'"
    using st kv I(8) [OF k(1)] by (auto simp: stack_ok_def st'_def)
  show thesis
  proof (cases "z = ?r")
    case True
    have "pushLoop pick st ts = pushLoop pick st' (ts\<lparr>leaves := removeAll z (leaves ts)\<rparr>)"
      using n True k(1) pick(2) by (subst pushLoop.simps) (simp add: Let_def z_def [symmetric] mget_or_def st'_def)
    moreover have "push_inv B ?K ?r w (set (zs @ [z])) (mget (kahnNodes ts)) (removeAll z (leaves ts))"
      using push_pop_root [OF bt pi] z True by simp
    ultimately show ?thesis
      using that [of st' "removeAll z (leaves ts)" "kahnNodes ts" z] st_ok sorted' k by (simp add: domI)
  next
    case False
    have "par B z \<in> dom (mget (kahnNodes ts))"
      using I(2) k(1) False by blast
    then obtain kp where kp: "mget (kahnNodes ts) (par B z) = Some kp"
      by blast
    define kp' where "kp' = kp\<lparr>inDegree := inDegree kp - 1, kahn_votes := AddCount z (bag_Len (kahn_votes k)) (kahn_votes kp)\<rparr>"
    define lv where "lv = (if inDegree kp' = 0 then List.insert (par B z) (removeAll z (leaves ts)) else removeAll z (leaves ts))"
    define kn where "kn = mput (par B z) kp' (kahnNodes ts)"
    have "pushLoop pick st ts = pushLoop pick st' (ts\<lparr>kahnNodes := kn, leaves := lv\<rparr>)"
      using n False k(1) kp pick(2)
      by (subst pushLoop.simps) (simp add: Let_def z_def [symmetric] mget_or_def st'_def kn_def lv_def kp'_def kahn_swap)
    moreover have m: "mget kn = (mget (kahnNodes ts))(par B z \<mapsto> kp')"
      by (auto simp: kn_def)
    have "push_inv B ?K ?r w (insert z (set zs)) (mget kn) lv"
      unfolding m kp'_def lv_def using push_pop [OF bt pi z False k(1) kp] .
    moreover have "dom (mget kn) = dom (mget (kahnNodes ts))"
      unfolding m using kp by (auto split: if_splits)
    ultimately show ?thesis
      using st_ok sorted' k by (intro that [of st' lv kn z]) (simp_all add: domI)
  qed
qed

lemma pushLoop_runs:
  assumes "ts_inv B ts" "push_ok B w zs st ts" "pick_ok pick"
  shows "\<exists>kn st' zs'. pushLoop pick st ts = Some (ts\<lparr>kahnNodes := kn, leaves := []\<rparr>, st') \<and>
    push_ok B w zs' st' (ts\<lparr>kahnNodes := kn, leaves := []\<rparr>)"
  using assms(1,2)
proof (induction "card (dom (mget (kahnNodes ts)) - set zs)" arbitrary: ts zs st rule: less_induct)
  case less
  show ?case
  proof (cases "leaves ts = []")
    case True
    have "ts = ts\<lparr>kahnNodes := kahnNodes ts, leaves := []\<rparr>"
      using True by simp
    moreover have "pushLoop pick st ts = Some (ts, st)"
      using True by (subst pushLoop.simps) simp
    ultimately show ?thesis
      using less.prems(2) by metis
  next
    case False
    from pushLoop_step [OF less.prems assms(3) False]
    obtain z kn lv st' where step: "pushLoop pick st ts = pushLoop pick st' (ts\<lparr>kahnNodes := kn, leaves := lv\<rparr>)"
      "push_ok B w (zs @ [z]) st' (ts\<lparr>kahnNodes := kn, leaves := lv\<rparr>)" "z \<notin> set zs" "z \<in> dom (mget (kahnNodes ts))"
      "dom (mget kn) = dom (mget (kahnNodes ts))"
      by metis
    let ?ts = "ts\<lparr>kahnNodes := kn, leaves := lv\<rparr>"
    have "finite (dom (mget (kahnNodes ts)))"
      by (rule finite_dom_map_of)
    then have "card (dom (mget (kahnNodes ?ts)) - set (zs @ [z])) < card (dom (mget (kahnNodes ts)) - set zs)"
      using step(3-5) by (intro psubset_card_mono) auto
    from less.hyps [OF this _ step(2)] show ?thesis
      using less.prems(1) unfolding step(1) by simp
  qed
qed

subsection \<open>The majority branch\<close>

lemma counted_sum:
  assumes "bag_inv votes"
  shows "sum (counted ts votes) (bkeys ts) \<le> bag_Len votes" "\<forall>c. 0 \<le> counted ts votes c"
proof -
  have "sum (counted ts votes) (bkeys ts) \<le> sum (Count votes) (bkeys ts)"
    using assms by (intro sum_mono) (simp add: counted_def)
  also have "\<dots> \<le> bag_Len votes"
    using assms by (intro sum_Count_le) auto
  finally show "sum (counted ts votes) (bkeys ts) \<le> bag_Len votes" .
qed (use assms in \<open>simp add: counted_def\<close>)

text \<open>What \<open>calculateInDegree\<close> and \<open>pushVotes\<close> compute together.\<close>

definition majority_stack :: "(ID \<Rightarrow> Block) \<Rightarrow> Topological \<Rightarrow> ID bag \<Rightarrow> votes list \<Rightarrow> bool" where
  "majority_stack B ts votes st \<longleftrightarrow>
     (let K = bkeys ts; r = lastAcceptedID ts; w = counted ts votes; qs = map vote_parentID st in
      branch B r qs \<and> (qs \<noteq> [] \<longrightarrow> hd qs = r) \<and> sorted_wrt (\<lambda>x y. anc B r x y \<and> x \<noteq> y) qs \<and>
      set qs = majority B K r w (AlphaPreference (ts_params ts)) \<and>
      (\<forall>v\<in>set st. bag_inv (vote_votes v) \<and>
         (\<forall>c. Count (vote_votes v) c = (if c \<in> kids B K r (vote_parentID v) then weight B K r w c else 0))))"

lemma propagate_votes:
  assumes inv: "ts_inv B ts" and votes: "bag_inv votes" "bag_Len votes \<le> K_param (ts_params ts)" and pick: "pick_ok pick"
  shows "\<exists>kn st. calculateInDegree votes ts \<bind> pushVotes pick = Some (ts\<lparr>kahnNodes := kn, leaves := []\<rparr>, st) \<and>
    majority_stack B ts votes (rev st)"
proof -
  let ?r = "lastAcceptedID ts" and ?K = "bkeys ts" and ?w = "counted ts votes" and ?a = "AlphaPreference (ts_params ts)"
  note bt = ts_invD(3) [OF inv]
  obtain kn lv where deg: "calculateInDegree votes ts = Some (ts\<lparr>kahnNodes := kn, leaves := lv\<rparr>)"
    "kahn_ok B ?w None (ts\<lparr>kahnNodes := kn, leaves := lv\<rparr>)"
    using calculateInDegree_runs [OF inv votes(1)] by blast
  have "push_ok B ?w [] [] (ts\<lparr>kahnNodes := kn, leaves := lv\<rparr>)"
    using push_inv_start [OF deg(2)] by (simp add: stack_ok_def)
  then obtain kn' st zs where push: "pushLoop pick [] (ts\<lparr>kahnNodes := kn, leaves := lv\<rparr>) = Some (ts\<lparr>kahnNodes := kn', leaves := []\<rparr>, st)"
    and ok: "push_ok B ?w zs st (ts\<lparr>kahnNodes := kn', leaves := []\<rparr>)"
    using pushLoop_runs [of B "ts\<lparr>kahnNodes := kn, leaves := lv\<rparr>" ?w "[]" "[]", OF _ _ pick] inv by auto
  have pi: "push_inv B ?K ?r ?w (set zs) (mget kn') []" and so: "stack_ok B ?K ?r ?w ?a zs st"
    and sorted: "sorted_wrt (\<lambda>x y. \<not> anc B ?r x y) zs"
    using ok by simp_all
  have pos: "0 < ?a" "K_param (ts_params ts) < 2 * ?a"
    using good_params_Verify [OF ts_invD(1) [OF inv]] by (simp_all add: good_params_def)
  have dom: "dom (mget kn') = set zs"
    using push_end [OF bt pi] .
  define qs where "qs = filter (\<lambda>x. ?a \<le> kidsWeight B ?K ?r ?w x) zs"
  have "set qs = majority B ?K ?r ?w ?a"
  proof -
    have "x \<in> set zs" if "x \<in> ?K" "?a \<le> kidsWeight B ?K ?r ?w x" for x
      using unvisited_weight [OF bt pi that(1)] that(2) pos(1) by (cases "x \<in> set zs") (auto simp: dom)
    moreover have "set zs \<subseteq> ?K"
      using push_invD(1) [OF pi] by (simp add: dom)
    ultimately show ?thesis
      unfolding qs_def majority_def by (simp only: set_filter) blast
  qed
  moreover have "sorted_wrt (\<lambda>x y. \<not> anc B ?r x y) qs"
    using sorted by (simp add: qs_def sorted_wrt_filter)
  moreover have "sum ?w ?K < 2 * ?a"
    using counted_sum(1) [OF votes(1), of ts] votes(2) pos(2) by linarith
  ultimately have "branch B ?r (rev qs)" "qs \<noteq> [] \<Longrightarrow> last qs = ?r" "sorted_wrt (\<lambda>x y. anc B ?r x y \<and> x \<noteq> y) (rev qs)"
    using majority_branch [OF bt counted_sum(2) [OF votes(1)]] by blast+
  then have "majority_stack B ts votes (rev st)"
    using so \<open>set qs = majority B ?K ?r ?w ?a\<close>
    by (auto simp: majority_stack_def Let_def stack_ok_def rev_map [symmetric] qs_def [symmetric] hd_rev)
  then show ?thesis
    using deg(1) push by (auto simp: pushVotes_def)
qed

end
