(* ===== verification/SnowballContract.thy ===== *)
theory SnowballContract
  imports SnowTree
begin

text \<open>
  What the chain consensus relies on of a snowball instance (the interface \<open>Consensus\<close> of
  \<open>src/snow/consensus/snowball/consensus.go\<close>), and that the snowball tree provides it.
  \<open>reach S t\<close> says that \<open>t\<close> was given exactly the choices \<open>S\<close>.
\<close>

locale snowball_consensus =
  fixes New :: "'f \<Rightarrow> 'p \<Rightarrow> 'c \<Rightarrow> 't" and AddChoice :: "'c \<Rightarrow> 't \<Rightarrow> 't" and Record :: "'v \<Rightarrow> 't \<Rightarrow> 't"
    and Unsuccessful :: "'t \<Rightarrow> 't" and Pref :: "'t \<Rightarrow> 'c" and Fin :: "'t \<Rightarrow> bool"
    and reach :: "'c set \<Rightarrow> 't \<Rightarrow> bool" and prms :: "'t \<Rightarrow> 'p" and prms_ok :: "'p \<Rightarrow> bool" and votes_ok :: "'v \<Rightarrow> bool"
  assumes New_law: "prms_ok p \<Longrightarrow> reach {c} (New f p c) \<and> Pref (New f p c) = c \<and> prms (New f p c) = p"
    and Add_law: "reach S t \<Longrightarrow> reach (insert c S) (AddChoice c t) \<and> Pref (AddChoice c t) = Pref t \<and> prms (AddChoice c t) = prms t"
    and Record_law: "reach S t \<Longrightarrow> votes_ok v \<Longrightarrow> reach S (Record v t) \<and> prms (Record v t) = prms t"
    and Unsuccessful_law: "reach S t \<Longrightarrow> reach S (Unsuccessful t) \<and> Pref (Unsuccessful t) = Pref t \<and> prms (Unsuccessful t) = prms t"
    and Pref_law: "reach S t \<Longrightarrow> Pref t \<in> S"
    and Fin_law: "reach S t \<Longrightarrow> Fin t \<Longrightarrow> votes_ok v \<Longrightarrow>
      Fin (AddChoice c t) \<and> Fin (Record v t) \<and> Pref (Record v t) = Pref t \<and> Fin (Unsuccessful t)"
begin

lemma choices_nonempty: "reach S t \<Longrightarrow> S \<noteq> {}"
  using Pref_law by blast

text \<open>One vote on an instance: a pending reset, then the poll.\<close>

lemma Round_law:
  assumes "reach S t" "votes_ok v"
  shows "reach S (Record v (if falter then Unsuccessful t else t))" "prms (Record v (if falter then Unsuccessful t else t)) = prms t"
    "Pref (Record v (if falter then Unsuccessful t else t)) \<in> S"
  using Record_law [OF _ assms(2), of S] Unsuccessful_law [OF assms(1)] assms(1) Pref_law by auto

text \<open>A decided instance keeps its decision through rounds and further choices.\<close>

lemma Round_final:
  assumes "reach S t" "votes_ok v" "Fin t"
  shows "Fin (Record v (if falter then Unsuccessful t else t)) \<and> Pref (Record v (if falter then Unsuccessful t else t)) = Pref t"
  using Fin_law [OF assms(1,3,2)] Fin_law [of S "Unsuccessful t" v] Unsuccessful_law [OF assms(1)] assms(2) by auto

end

lemma tree_params_simps [simp]: "tree_params (tree_Add c t) = tree_params t" "tree_params (tree_RecordUnsuccessfulPoll t) = tree_params t"
  by (simp_all add: tree_Add_def tree_RecordUnsuccessfulPoll_def Let_def)

interpretation sbt: snowball_consensus NewTree tree_Add "\<lambda>v t. fst (tree_RecordPoll v t)" tree_RecordUnsuccessfulPoll
  tree_Preference tree_Finalized tree_reach tree_params "\<lambda>p. Verify p = None" bag_inv
proof
  fix S t and v :: "ID bag" and c
  assume t: "tree_reach S t"
  then have inv: "tree_inv t"
    using tree_reach_inv by blast
  show "tree_reach (insert c S) (tree_Add c t) \<and> tree_Preference (tree_Add c t) = tree_Preference t \<and> tree_params (tree_Add c t) = tree_params t"
    using t reach_Add tree_Add_ok(3) [OF inv] by simp
  show "tree_reach S (tree_RecordUnsuccessfulPoll t) \<and> tree_Preference (tree_RecordUnsuccessfulPoll t) = tree_Preference t \<and>
      tree_params (tree_RecordUnsuccessfulPoll t) = tree_params t"
    using t reach_Unsuccessful by (simp add: tree_RecordUnsuccessfulPoll_def tree_Preference_def)
  show "tree_Preference t \<in> S"
    using tree_reach_inv [OF t] tree_Preference_member by blast
  show "tree_Finalized (tree_Add c t) \<and> tree_Finalized (fst (tree_RecordPoll v t)) \<and>
      tree_Preference (fst (tree_RecordPoll v t)) = tree_Preference t \<and> tree_Finalized (tree_RecordUnsuccessfulPoll t)"
    if "tree_Finalized t" "bag_inv v"
    using that tree_Add_ok(1) [OF inv, of c] tree_RecordPoll_ok [OF inv that(2)] tree_RecordUnsuccessfulPoll_ok [OF inv]
    by (auto simp: step_ok_def)
qed (use reach_New reach_Poll in auto)

end
