(* ===== verification/TopologicalDecide.thy ===== *)
theory TopologicalDecide
  imports TopologicalVotes SnowballContract
begin

text \<open>
  The state changes of the consensus outside polls, and the decisions: \<open>Initialize\<close> establishes the invariant and \<open>Add\<close>
  keeps it; \<open>acceptPreferredChild\<close> and \<open>rejectTransitively\<close> end, make only legal calls into the virtual machine, and
  leave the subtree of the accepted block.
\<close>

lemma ts_inv_upd [simp]:
  "ts_inv B (ts\<lparr>pollNumber := p\<rparr>) = ts_inv B ts" "ts_inv B (ts\<lparr>preferredIDs := ps\<rparr>) = ts_inv B ts"
  "ts_inv B (ts\<lparr>preferredHeights := ph\<rparr>) = ts_inv B ts" "ts_inv B (ts\<lparr>preference := pr\<rparr>) = ts_inv B ts"
  "ts_inv B (ts\<lparr>calls := cs\<rparr>) = ts_inv B ts"
  by (simp_all add: ts_inv_def)

lemma Decided_upd [simp]:
  "Decided (ts\<lparr>pollNumber := p\<rparr>) n = Decided ts n" "Decided (ts\<lparr>preferredIDs := ps\<rparr>) n = Decided ts n"
  "Decided (ts\<lparr>preferredHeights := ph\<rparr>) n = Decided ts n" "Decided (ts\<lparr>preference := pr\<rparr>) n = Decided ts n"
  "Decided (ts\<lparr>calls := cs\<rparr>) n = Decided ts n" "Decided (ts\<lparr>blocks := bs\<rparr>) n = Decided ts n"
  by (simp_all add: Decided_def split: option.split)

lemma mget_None_key: "mget m k = None \<longleftrightarrow> k \<notin> fst ` set m"
  by (metis key_mget_Some mget_Some_key option.exhaust option.simps(3))

lemma node_invD:
  assumes "node_inv B prm K r x n"
  shows "x \<noteq> r \<Longrightarrow> sm_blk n = Some (B x)" "wf_map (sm_children n)"
    "fst ` set (sm_children n) = kids B K r x" "c \<in> kids B K r x \<Longrightarrow> mget (sm_children n) c = Some (B c)"
    "(c, b) \<in> set (sm_children n) \<Longrightarrow> c \<in> kids B K r x \<and> b = B c"
    "sm_sb n = Some t \<Longrightarrow> tree_reach (kids B K r x) t \<and> tree_params t = prm"
    "sm_sb n = None \<longleftrightarrow> kids B K r x = {}"
proof -
  have ch: "mget (sm_children n) c = (if c \<in> kids B K r x then Some (B c) else None)" for c
    using assms by (simp add: node_inv_def)
  show wf: "wf_map (sm_children n)"
    using assms by (simp add: node_inv_def)
  show keys: "fst ` set (sm_children n) = kids B K r x"
    using ch mget_None_key [of "sm_children n"] by (metis (no_types, lifting) option.simps(3) subsetI subset_antisym)
  show "c \<in> kids B K r x \<and> b = B c" if cb: "(c, b) \<in> set (sm_children n)"
    using ch [of c] cb keys map_of_is_SomeI [OF wf cb] by (force split: if_splits)
  show "sm_sb n = None \<longleftrightarrow> kids B K r x = {}"
    using assms sbt.choices_nonempty by (auto simp: node_inv_def split: option.splits)
qed (use assms in \<open>auto simp: node_inv_def split: option.splits\<close>)

lemma node_inv_cong: "kids B K r x = kids B K' r' x \<Longrightarrow> x \<noteq> r \<or> r = r' \<Longrightarrow> node_inv B prm K r x n \<Longrightarrow> node_inv B prm K' r' x n"
  by (auto simp: node_inv_def split: option.splits)

lemma node_inv_falter [simp]: "node_inv B prm K r x (n\<lparr>shouldFalter := f\<rparr>) = node_inv B prm K r x n"
  by (simp add: node_inv_def)

lemma ts_inv_write:
  assumes "ts_inv B ts" "x \<in> bkeys ts" "node_inv B (ts_params ts) (bkeys ts) (lastAcceptedID ts) x n"
  shows "ts_inv B (writeBlock x n ts)" "bkeys (writeBlock x n ts) = bkeys ts"
proof -
  show K: "bkeys (writeBlock x n ts) = bkeys ts"
    using assms(2) by (auto simp: writeBlock_def)
  show "ts_inv B (writeBlock x n ts)"
    using assms(1,3) unfolding ts_inv_def K by (simp add: writeBlock_def)
qed

subsection \<open>Initialize and Add\<close>

lemma ts_inv_Initialize:
  assumes "ts_Initialize factory params g (blk_Height (B g)) = Inr ts" "\<forall>i. blk_ID (B i) = i"
  shows "ts_inv B ts" "bkeys ts = {g}" "lastAcceptedID ts = g" "ts_params ts = params" "calls ts = []"
    "ts_Factory ts = factory" "Verify params = None"
  using assms
  by (auto simp: ts_Initialize_def ts_inv_def block_tree_def node_inv_def newSnowmanBlock_def kids_def split: option.splits if_splits)

text \<open>A block that can be added: its height is one more than that of its parent.\<close>

definition block_ok :: "(ID \<Rightarrow> Block) \<Rightarrow> ID \<Rightarrow> bool" where
  "block_ok B i \<longleftrightarrow> ht B i = Suc (ht B (par B i))"

lemma block_tree_add:
  assumes bt: "block_tree B K r" and i: "block_ok B i" "par B i \<in> K" "i \<notin> K"
  shows "block_tree B (insert i K) r" "kids B (insert i K) r x = (if x = par B i then insert i (kids B K r x) else kids B K r x)"
    "kids B (insert i K) r i = {}"
proof -
  have ne: "i \<noteq> r" "i \<noteq> par B i" "par B x \<noteq> i" if "x \<in> K" "x \<noteq> r" for x
    using i block_treeD(2,3) [OF bt] that by auto
  show "block_tree B (insert i K) r"
    using bt i by (auto simp: block_tree_def block_ok_def)
  have ir: "i \<noteq> r" "i \<noteq> par B i"
    using i block_treeD(2) [OF bt] by auto
  show "kids B (insert i K) r x = (if x = par B i then insert i (kids B K r x) else kids B K r x)"
    using ir by (auto simp: kids_def)
  show "kids B (insert i K) r i = {}"
    using ir(2) ne(3) by (auto simp: kids_def)
qed

lemma node_inv_AddChild:
  assumes ni: "node_inv B prm K r x n" and i: "blk_ID (B i) = i" and prm: "Verify prm = None"
    and kids: "kids B K' r x = insert i (kids B K r x)"
  shows "node_inv B prm K' r x (AddChild factory prm (B i) n)"
proof (cases "sm_sb n")
  case None
  then have "kids B K r x = {}"
    using node_invD(7) [OF ni] by simp
  then show ?thesis
    using ni i None sbt.New_law [OF prm, of i factory] by (simp add: node_inv_def AddChild_def kids)
next
  case (Some t)
  then show ?thesis
    using ni i sbt.Add_law [of "kids B K r x" t i] by (auto simp: node_inv_def AddChild_def kids intro: wf_map_mput)
qed

lemma ts_Add_cases:
  assumes inv: "ts_inv B ts" and i: "block_ok B i"
  obtains (duplicate) "ts_Add (B i) ts = (ts, Some errDuplicateAdd)" "i \<in> bkeys ts" "i \<noteq> lastAcceptedID ts"
    | (unknown) "ts_Add (B i) ts = (ts, Some errUnknownParentBlock)" "i \<notin> bkeys ts - {lastAcceptedID ts}" "par B i \<notin> bkeys ts"
    | (added) p n where "i \<notin> bkeys ts" "p = par B i" "p \<in> bkeys ts" "mget (blocks ts) p = Some n"
      "ts_Add (B i) ts = (let ts = ts\<lparr>blocks := mput i (newSnowmanBlock (Some (B i)))
           (mput p (AddChild (ts_Factory ts) (ts_params ts) (B i) n) (blocks ts))\<rparr> in
        if preference ts = p then ts\<lparr>preference := i, preferredIDs := List.insert i (preferredIDs ts),
                                 preferredHeights := mput (blk_Height (B i)) i (preferredHeights ts)\<rparr> else ts, None)"
proof -
  have ID: "blk_ID (B i) = i"
    using ts_invD(2) [OF inv] .
  note bt = ts_invD(3) [OF inv]
  consider "Processing i ts" | "\<not> Processing i ts" "mget (blocks ts) (par B i) = None"
    | n where "\<not> Processing i ts" "mget (blocks ts) (par B i) = Some n"
    by (cases "mget (blocks ts) (par B i)") auto
  then show thesis
  proof cases
    case 1
    then have "i \<in> bkeys ts" "i \<noteq> lastAcceptedID ts"
      by (auto simp: Processing_def mget_None_key split: if_splits)
    then show ?thesis
      using duplicate 1 by (simp add: ts_Add_def ID)
  next
    case 2
    then have "i \<notin> bkeys ts - {lastAcceptedID ts}" "par B i \<notin> bkeys ts"
      by (simp_all add: Processing_def mget_None_key split: if_splits)
    moreover have "ts_Add (B i) ts = (ts, Some errUnknownParentBlock)"
      using 2 by (simp add: ts_Add_def ID Let_def)
    ultimately show ?thesis
      by (intro unknown)
  next
    case 3
    have p: "par B i \<in> bkeys ts"
      using mget_Some_key [OF 3(2)] .
    have "i \<noteq> lastAcceptedID ts"
      using root_ht [OF bt p] i unfolding block_ok_def by (cases "par B i = lastAcceptedID ts") auto
    then have "i \<notin> bkeys ts"
      using 3(1) by (auto simp: Processing_def mget_None_key)
    then show ?thesis
      using added [OF _ refl p 3(2)] 3 by (simp add: ts_Add_def ID Let_def)
  qed
qed

lemma ts_inv_Add:
  assumes inv: "ts_inv B ts" and i: "block_ok B i"
  shows "ts_inv B (fst (ts_Add (B i) ts))"
    "bkeys (fst (ts_Add (B i) ts)) = (if snd (ts_Add (B i) ts) = None then insert i (bkeys ts) else bkeys ts)"
    "lastAcceptedID (fst (ts_Add (B i) ts)) = lastAcceptedID ts" "ts_params (fst (ts_Add (B i) ts)) = ts_params ts"
    "calls (fst (ts_Add (B i) ts)) = calls ts"
    "snd (ts_Add (B i) ts) = None \<Longrightarrow> i \<notin> bkeys ts \<and> par B i \<in> bkeys ts"
proof -
  show "ts_inv B (fst (ts_Add (B i) ts))"
    using inv i
  proof (cases rule: ts_Add_cases)
    case (added p n)
    let ?K = "insert i (bkeys ts)" and ?r = "lastAcceptedID ts" and ?prm = "ts_params ts"
    let ?m = "mput i (newSnowmanBlock (Some (B i))) (mput p (AddChild (ts_Factory ts) (ts_params ts) (B i) n) (blocks ts))"
    note bt = block_tree_add [OF ts_invD(3) [OF inv] i added(3) [unfolded added(2)] added(1)]
    have "node_inv B ?prm ?K ?r x n'" if "mget ?m x = Some n'" for x n'
    proof -
      have ir: "i \<noteq> ?r"
        using added(1) block_treeD(2) [OF ts_invD(3) [OF inv]] by auto
      consider "x = i" | "x \<noteq> i" "x = p" | "x \<noteq> i" "x \<noteq> p"
        by blast
      then show ?thesis
      proof cases
        case 1
        then show ?thesis
          using that ir bt(3) by (auto simp: node_inv_def newSnowmanBlock_def)
      next
        case 2
        then have "n' = AddChild (ts_Factory ts) ?prm (B i) n"
          using that by simp
        then show ?thesis
          using node_inv_AddChild [OF ts_invD(6) [OF inv added(4)] ts_invD(2) [OF inv] ts_invD(1) [OF inv]] bt(2) [of p] 2(2) added(2) by simp
      next
        case 3
        then have "mget (blocks ts) x = Some n'"
          using that by simp
        from ts_invD(6) [OF inv this] show ?thesis
          using bt(2) [of x] 3 added(2) by (auto intro: node_inv_cong [rotated 2])
      qed
    qed
    moreover have "fst ` set ?m = ?K"
      using added(3) by auto
    ultimately have "ts_inv B (ts\<lparr>blocks := ?m\<rparr>)"
      using ts_invD(1,2,4,5) [OF inv] bt(1) by (simp add: ts_inv_def)
    then show ?thesis
      unfolding added(5) Let_def by simp
  qed (use inv in simp_all)
qed (use inv i in \<open>cases rule: ts_Add_cases; auto simp: Let_def\<close>)+

subsection \<open>Legal decisions\<close>

fun accepts :: "vm_call list \<Rightarrow> ID list" where
  "accepts [] = []"
| "accepts (CallAccept x # cs) = x # accepts cs"
| "accepts (_ # cs) = accepts cs"

fun rejects :: "vm_call list \<Rightarrow> ID list" where
  "rejects [] = []"
| "rejects (CallReject x # cs) = x # rejects cs"
| "rejects (_ # cs) = rejects cs"

lemma accepts_append [simp]: "accepts (cs @ ds) = accepts cs @ accepts ds"
  by (induction cs rule: accepts.induct) simp_all

lemma rejects_append [simp]: "rejects (cs @ ds) = rejects cs @ rejects ds"
  by (induction cs rule: rejects.induct) simp_all

lemma accepts_rejects_map [simp]: "accepts (map CallReject zs) = []" "rejects (map CallReject zs) = zs"
  by (induction zs) simp_all

text \<open>The last accepted block after the calls \<open>cs\<close>, and the blocks that are decided then; \<open>g\<close> is the initial block.\<close>

definition tip :: "ID \<Rightarrow> vm_call list \<Rightarrow> ID" where
  "tip g cs = last (g # accepts cs)"

definition decidedIDs :: "ID \<Rightarrow> vm_call list \<Rightarrow> ID set" where
  "decidedIDs g cs = insert g (set (accepts cs) \<union> set (rejects cs))"

text \<open>
  The calls that keep the contract of the blocks: a block is decided once; the acceptor is notified immediately before
  the block is accepted, which is a child of the last accepted block; a block is rejected after its parent was
  rejected or after another child of its parent was accepted.
\<close>

definition rejectable :: "(ID \<Rightarrow> Block) \<Rightarrow> vm_call list \<Rightarrow> ID \<Rightarrow> bool" where
  "rejectable B cs x \<longleftrightarrow> par B x \<in> set (rejects cs) \<or> (\<exists>y\<in>set (accepts cs). par B y = par B x)"

inductive decisions :: "(ID \<Rightarrow> Block) \<Rightarrow> ID \<Rightarrow> vm_call list \<Rightarrow> bool" for B g where
  decisions_Nil: "decisions B g []"
| decisions_Notify: "decisions B g cs \<Longrightarrow> par B x = tip g cs \<Longrightarrow> x \<notin> decidedIDs g cs \<Longrightarrow> decisions B g (cs @ [NotifyAcceptor x])"
| decisions_Accept: "decisions B g cs \<Longrightarrow> par B x = tip g cs \<Longrightarrow> x \<notin> decidedIDs g cs \<Longrightarrow>
    decisions B g (cs @ [NotifyAcceptor x, CallAccept x])"
| decisions_Reject: "decisions B g cs \<Longrightarrow> x \<notin> decidedIDs g cs \<Longrightarrow> rejectable B cs x \<Longrightarrow> decisions B g (cs @ [CallReject x])"

text \<open>The accepted blocks are a chain: each is the child of the one before.\<close>

fun pchain :: "(ID \<Rightarrow> Block) \<Rightarrow> ID \<Rightarrow> ID list \<Rightarrow> bool" where
  "pchain B g [] \<longleftrightarrow> True"
| "pchain B g (x # xs) \<longleftrightarrow> par B x = g \<and> pchain B x xs"

lemma pchain_append: "pchain B g (xs @ ys) \<longleftrightarrow> pchain B g xs \<and> pchain B (last (g # xs)) ys"
  by (induction xs arbitrary: g) auto

lemma decisions_facts:
  assumes "decisions B g cs"
  shows "distinct (g # accepts cs @ rejects cs)" "pchain B g (accepts cs)"
    "x \<in> set (rejects cs) \<Longrightarrow> par B x \<in> set (rejects cs) \<or> (\<exists>y\<in>set (accepts cs). par B y = par B x)"
  using assms by (induction) (auto simp: tip_def decidedIDs_def pchain_append rejectable_def)

lemma decidedIDs_Reject [simp]: "decidedIDs g (cs @ map CallReject zs) = decidedIDs g cs \<union> set zs"
  by (auto simp: decidedIDs_def)

lemma tip_Reject [simp]: "tip g (cs @ map CallReject zs) = tip g cs"
  by (simp add: tip_def)

lemma rejectAll_runs:
  assumes "decisions B g (calls ts)" "\<forall>i. blk_ID (B i) = i" "wf_map cs"
    and "\<forall>c b. (c, b) \<in> set cs \<longrightarrow> b = B c \<and> c \<notin> decidedIDs g (calls ts) \<and> rejectable B (calls ts) c"
  shows "\<exists>zs e. rejectAll vm cs ts = (ts\<lparr>calls := calls ts @ map CallReject zs\<rparr>, e) \<and>
    decisions B g (calls ts @ map CallReject zs) \<and> (e = None \<longrightarrow> zs = mkeys cs)"
  using assms
proof (induction cs arbitrary: ts)
  case Nil
  then show ?case
    by (intro exI [of _ "[]"] exI [of _ None]) simp
next
  case (Cons cb cs)
  obtain c b where cb: "cb = (c, b)"
    by (cases cb)
  then have b: "b = B c" "blk_ID (B c) = c" "c \<notin> decidedIDs g (calls ts)" "rejectable B (calls ts) c"
    using Cons.prems by auto
  let ?ts = "ts\<lparr>calls := calls ts @ [CallReject c]\<rparr>"
  have d: "decisions B g (calls ?ts)"
    using decisions_Reject [OF Cons.prems(1) b(3,4)] by simp
  show ?case
  proof (cases "vm (calls ts) (CallReject c)")
    case None
    have "c' \<noteq> c \<and> b' = B c' \<and> c' \<notin> decidedIDs g (calls ts) \<and> rejectable B (calls ts) c'" if "(c', b') \<in> set cs" for c' b'
      using Cons.prems(3,4) that unfolding cb by (force intro: rev_image_eqI)
    then have "\<forall>c' b'. (c', b') \<in> set cs \<longrightarrow> b' = B c' \<and> c' \<notin> decidedIDs g (calls ?ts) \<and> rejectable B (calls ?ts) c'"
      by (auto simp: decidedIDs_def rejectable_def)
    moreover have "wf_map cs"
      using Cons.prems(3) by (simp add: cb)
    ultimately obtain zs e where "rejectAll vm cs ?ts = (?ts\<lparr>calls := calls ?ts @ map CallReject zs\<rparr>, e)"
      "decisions B g (calls ?ts @ map CallReject zs)" "e = None \<longrightarrow> zs = mkeys cs"
      using Cons.IH [OF d Cons.prems(2)] by blast
    then show ?thesis
      using None by (intro exI [of _ "c # zs"] exI [of _ e]) (simp add: cb callVM_def b)
  next
    case (Some e)
    then show ?thesis
      using d by (intro exI [of _ "[c]"] exI [of _ "Some e"]) (simp add: cb callVM_def b)
  qed
qed

subsection \<open>Rejecting subtrees\<close>

text \<open>
  The work list of \<open>rejectTransitively\<close> in the tree \<open>K\<close>: rejected blocks, none below another, whose descendants are
  in the map and not decided.
\<close>

definition to_reject :: "(ID \<Rightarrow> Block) \<Rightarrow> Parameters \<Rightarrow> ID set \<Rightarrow> ID \<Rightarrow> ID \<Rightarrow> ID list \<Rightarrow> Topological \<Rightarrow> bool" where
  "to_reject B prm K r g rej ts \<longleftrightarrow>
     distinct rej \<and> set rej \<subseteq> K \<and> (\<forall>x\<in>set rej. \<forall>y\<in>set rej. x \<noteq> y \<longrightarrow> \<not> anc B r x y) \<and> set rej \<subseteq> set (rejects (calls ts)) \<and>
     (\<forall>x\<in>set rej. \<forall>y\<in>subtree B K r x. \<exists>n. mget (blocks ts) y = Some n \<and> node_inv B prm K r y n) \<and>
     (\<forall>x\<in>set rej. \<forall>y\<in>subtree B K r x. y \<noteq> x \<longrightarrow> y \<notin> decidedIDs g (calls ts))"

lemma to_rejectD:
  assumes "to_reject B prm K r g rej ts"
  shows "distinct rej" "x \<in> set rej \<Longrightarrow> x \<in> K" "x \<in> set rej \<Longrightarrow> y \<in> set rej \<Longrightarrow> x \<noteq> y \<Longrightarrow> \<not> anc B r x y"
    "x \<in> set rej \<Longrightarrow> x \<in> set (rejects (calls ts))"
    "x \<in> set rej \<Longrightarrow> y \<in> K \<Longrightarrow> anc B r x y \<Longrightarrow> \<exists>n. mget (blocks ts) y = Some n \<and> node_inv B prm K r y n"
    "x \<in> set rej \<Longrightarrow> y \<in> K \<Longrightarrow> anc B r x y \<Longrightarrow> y \<noteq> x \<Longrightarrow> y \<notin> decidedIDs g (calls ts)"
  using assms by (auto simp: to_reject_def subtree_def)

text \<open>One block of the work list replaced by its children.\<close>

lemma to_reject_step:
  assumes bt: "block_tree B K r" and tr: "to_reject B prm K r g (rej @ [x]) ts"
    and cs: "distinct cs" "set cs = kids B K r x"
  shows "to_reject B prm K r g (rej @ cs) (ts\<lparr>blocks := mdel x (blocks ts), calls := calls ts @ map CallReject cs\<rparr>)"
    (is "to_reject B prm K r g _ ?ts")
proof -
  note T = to_rejectD [OF tr]
  have x: "x \<in> K"
    using T(2) by simp
  have z: "z \<in> K" "z \<noteq> x" "\<not> anc B r z x" "\<not> anc B r x z" if "z \<in> set rej" for z
    using T(1,2) T(3) [of z x] T(3) [of x z] that by auto
  have c: "c \<in> K" "par B c = x" "c \<noteq> x" "anc B r x c" "\<not> anc B r c x" if "c \<in> set cs" for c
    using kidsD [OF bt that [unfolded cs(2)]] anc_ht [of B r c x K, OF _ bt x] by auto
  have zc: "z \<noteq> c" "\<not> anc B r z c" "\<not> anc B r c z" if "z \<in> set rej" "c \<in> set cs" for z c
  proof -
    show ne: "z \<noteq> c"
      using z(4) [OF that(1)] c(4) [OF that(2)] by auto
    show "\<not> anc B r z c"
      using ne z(3) [OF that(1)] c(2) [OF that(2)] by (subst anc_cases) auto
    show "\<not> anc B r c z"
      using z(4) [OF that(1)] c(4) [OF that(2)] anc_trans by blast
  qed
  have cd: "c = d" if "c \<in> set cs" "d \<in> set cs" "anc B r c d" for c d
    using kids_apart [OF bt, of c x d d] that c(1) by (simp add: cs(2))
  have top: "\<exists>x'\<in>set (rej @ [x]). anc B r x' y \<and> (y \<noteq> u \<longrightarrow> y \<noteq> x')" "y \<noteq> x" "y \<noteq> u \<Longrightarrow> y \<notin> set cs"
    if "u \<in> set (rej @ cs)" "y \<in> K" "anc B r u y" for u y
  proof -
    show "y \<noteq> x"
      using that z(3) c(5) by auto
    then show "\<exists>x'\<in>set (rej @ [x]). anc B r x' y \<and> (y \<noteq> u \<longrightarrow> y \<noteq> x')"
      using that c(4) anc_trans [OF that(3)] by fastforce
    show "y \<notin> set cs" if "y \<noteq> u"
      using that zc(2) cd \<open>u \<in> set (rej @ cs)\<close> \<open>anc B r u y\<close> by auto
  qed
  have "distinct (rej @ cs)"
    using T(1) cs(1) zc(1) by auto
  moreover have "set (rej @ cs) \<subseteq> K"
    using z(1) c(1) by auto
  moreover have "\<forall>u\<in>set (rej @ cs). \<forall>v\<in>set (rej @ cs). u \<noteq> v \<longrightarrow> \<not> anc B r u v"
    using T(3) zc(2,3) cd by auto
  moreover have "set (rej @ cs) \<subseteq> set (rejects (calls ?ts))"
    using T(4) by auto
  moreover have "\<exists>n. mget (blocks ?ts) y = Some n \<and> node_inv B prm K r y n" if "u \<in> set (rej @ cs)" "y \<in> subtree B K r u" for u y
    using top(1,2) [OF that(1)] that(2) T(5) by (fastforce simp: subtree_def)
  moreover have "y \<notin> decidedIDs g (calls ?ts)" if "u \<in> set (rej @ cs)" "y \<in> subtree B K r u" "y \<noteq> u" for u y
    using top(1,3) [OF that(1), of y] that(2,3) T(6) by (fastforce simp: subtree_def)
  ultimately show ?thesis
    unfolding to_reject_def by blast
qed

lemma rejectTransitively_runs:
  assumes bt: "block_tree B K r" and ID: "\<forall>i. blk_ID (B i) = i"
    and "wf_map (blocks ts)" "decisions B g (calls ts)" "to_reject B prm K r g rej ts"
  shows "\<exists>bs cs e. rejectTransitively vm rej ts = Some (ts\<lparr>blocks := bs, calls := cs\<rparr>, e) \<and>
    decisions B g cs \<and> accepts cs = accepts (calls ts) \<and>
    (e = None \<longrightarrow> wf_map bs \<and> (\<forall>y. mget bs y = (if y \<in> \<Union> (subtree B K r ` set rej) then None else mget (blocks ts) y)) \<and>
       set (rejects cs) = set (rejects (calls ts)) \<union> \<Union> (subtree B K r ` set rej))"
  using assms(3-)
proof (induction "card (bkeys ts)" arbitrary: rej ts rule: less_induct)
  case less
  show ?case
  proof (cases "rej = []")
    case True
    then show ?thesis
      using less.prems by (intro exI [of _ "blocks ts"] exI [of _ "calls ts"] exI [of _ None])
        (simp add: rejectTransitively.simps)
  next
    case False
    define rej0 x where "rej0 = butlast rej" and "x = last rej"
    have rej: "rej = rej0 @ [x]"
      using False by (simp add: rej0_def x_def)
    note tr = less.prems(3) [unfolded rej]
    have x: "x \<in> K" "x \<in> set (rejects (calls ts))"
      using to_rejectD(2,4) [OF tr] by simp_all
    obtain n where n: "mget (blocks ts) x = Some n" "node_inv B prm K r x n"
      using to_rejectD(5) [OF tr _ x(1) anc_refl] by auto
    let ?ts = "ts\<lparr>blocks := mdel x (blocks ts)\<rparr>"
    note N = node_invD [OF n(2)]
    have "c \<notin> decidedIDs g (calls ts) \<and> rejectable B (calls ts) c" if "c \<in> kids B K r x" for c
    proof -
      have "c \<noteq> x"
        using kidsD(5) [OF bt that] by auto
      then show ?thesis
        using to_rejectD(6) [OF tr, of x c] kidsD(1,3,6) [OF bt that] x by (auto simp: rejectable_def)
    qed
    then have "\<forall>c b. (c, b) \<in> set (sm_children n) \<longrightarrow> b = B c \<and> c \<notin> decidedIDs g (calls ?ts) \<and> rejectable B (calls ?ts) c"
      using N(5) by simp
    then obtain zs e where all: "rejectAll vm (sm_children n) ?ts = (?ts\<lparr>calls := calls ts @ map CallReject zs\<rparr>, e)"
      "decisions B g (calls ts @ map CallReject zs)" "e = None \<longrightarrow> zs = mkeys (sm_children n)"
      using rejectAll_runs [of B g ?ts "sm_children n" vm, OF _ ID N(2)] less.prems(2) by auto
    have run: "rejectTransitively vm rej ts = (case e of Some err \<Rightarrow> Some (?ts\<lparr>calls := calls ts @ map CallReject zs\<rparr>, Some err)
      | None \<Rightarrow> rejectTransitively vm (rej0 @ mkeys (sm_children n)) (?ts\<lparr>calls := calls ts @ map CallReject zs\<rparr>))"
      using False n(1) all(1) by (subst rejectTransitively.simps) (simp add: rej0_def [symmetric] x_def [symmetric] split: option.split)
    show ?thesis
    proof (cases e)
      case (Some err)
      then show ?thesis
        using all(2) run by (intro exI [of _ "mdel x (blocks ts)"] exI [of _ "calls ts @ map CallReject zs"] exI [of _ "Some err"]) simp
    next
      case None
      define cs where "cs = mkeys (sm_children n)"
      let ?ts' = "ts\<lparr>blocks := mdel x (blocks ts), calls := calls ts @ map CallReject cs\<rparr>"
      have cs: "zs = cs" "distinct cs" "set cs = kids B K r x"
        using all(3) None N(2,3) by (simp_all add: cs_def)
      have "card (bkeys ?ts') < card (bkeys ts)"
        using mget_Some_key [OF n(1)] by (intro psubset_card_mono) auto
      from less.hyps [OF this _ _ to_reject_step [OF bt tr cs(2,3)]]
      obtain bs cs' e' where res: "rejectTransitively vm (rej0 @ cs) ?ts' = Some (?ts'\<lparr>blocks := bs, calls := cs'\<rparr>, e')"
        "decisions B g cs'" "accepts cs' = accepts (calls ?ts')"
        "e' = None \<longrightarrow> wf_map bs \<and> (\<forall>y. mget bs y = (if y \<in> \<Union> (subtree B K r ` set (rej0 @ cs)) then None else mget (blocks ?ts') y)) \<and>
          set (rejects cs') = set (rejects (calls ?ts')) \<union> \<Union> (subtree B K r ` set (rej0 @ cs))"
        using less.prems(1) all(2) by (auto simp: cs(1))
      have U: "\<Union> (subtree B K r ` set rej) = insert x (\<Union> (subtree B K r ` set (rej0 @ cs)))"
        using subtree_split [OF bt x(1)] by (auto simp: rej cs(3))
      moreover have "set cs \<subseteq> \<Union> (subtree B K r ` set (rej0 @ cs))"
        using kidsD(1) [OF bt] cs(3) by (auto simp: subtree_def)
      ultimately have "e' = None \<longrightarrow> wf_map bs \<and> (\<forall>y. mget bs y = (if y \<in> \<Union> (subtree B K r ` set rej) then None else mget (blocks ts) y)) \<and>
          set (rejects cs') = set (rejects (calls ts)) \<union> \<Union> (subtree B K r ` set rej)"
        using res(4) x(2) by auto
      then show ?thesis
        using res(1-3) run None by (intro exI [of _ bs] exI [of _ cs'] exI [of _ e']) (simp add: cs(1) cs_def [symmetric])
    qed
  qed
qed

lemma siblings_subtrees:
  assumes bt: "block_tree B K r" and p: "p \<in> kids B K r r"
  shows "\<Union> (subtree B K r ` (kids B K r r - {p})) = K - {r} - subtree B K r p"
proof (intro set_eqI iffI)
  fix y
  assume "y \<in> \<Union> (subtree B K r ` (kids B K r r - {p}))"
  then obtain s where s: "s \<in> kids B K r r" "s \<noteq> p" "y \<in> K" "anc B r s y"
    by (auto simp: subtree_def)
  then have "\<not> anc B r p y" "y \<noteq> r"
    using kids_apart [OF bt p s(1,3) _ s(4)] kidsD(2) [OF bt s(1)] by (auto simp: anc_root)
  then show "y \<in> K - {r} - subtree B K r p"
    using s(3) by (simp add: subtree_def)
next
  fix y
  assume y: "y \<in> K - {r} - subtree B K r p"
  then obtain c where "c \<in> kids B K r r" "anc B r c y"
    using anc_first [OF root_anc [OF bt] _ bt, of y] by auto
  then show "y \<in> \<Union> (subtree B K r ` (kids B K r r - {p}))"
    using y by (auto simp: subtree_def)
qed

subsection \<open>Accepting a block\<close>

text \<open>What the calls say of the state: the last accepted block is the only decided block in the map.\<close>

definition call_inv :: "ID \<Rightarrow> (ID \<Rightarrow> Block) \<Rightarrow> Topological \<Rightarrow> bool" where
  "call_inv g B ts \<longleftrightarrow> decisions B g (calls ts) \<and> tip g (calls ts) = lastAcceptedID ts \<and>
     bkeys ts \<inter> decidedIDs g (calls ts) = {lastAcceptedID ts}"

text \<open>The state after the child \<open>p\<close> of the last accepted block is accepted.\<close>

definition accepted_state :: "ID \<Rightarrow> Block \<Rightarrow> (ID, snowmanBlock) gomap \<Rightarrow> vm_call list \<Rightarrow> Topological \<Rightarrow> Topological" where
  "accepted_state p b bs cs ts = ts\<lparr>lastAcceptedID := p, lastAcceptedHeight := blk_Height b,
     preferredIDs := removeAll p (preferredIDs ts), preferredHeights := mdel (blk_Height b) (preferredHeights ts), blocks := bs, calls := cs\<rparr>"

lemma siblings_to_reject:
  assumes inv: "ts_inv B ts" and ci: "call_inv g B ts" and r: "r = lastAcceptedID ts" and p: "p \<in> kids B (bkeys ts) r r"
    and ss: "set ss = kids B (bkeys ts) r r - {p}" "distinct ss" and bs: "blocks ts' = blocks ts"
    and cs: "decidedIDs g (calls ts') = decidedIDs g (calls ts) \<union> {p} \<union> set ss" "set ss \<subseteq> set (rejects (calls ts'))"
  shows "to_reject B (ts_params ts) (bkeys ts) r g ss ts'"
proof -
  note bt = ts_invD(3) [OF inv, folded r]
  have s: "s \<in> bkeys ts" "s \<noteq> r" "s \<in> kids B (bkeys ts) r r" "s \<noteq> p" if "s \<in> set ss" for s
    using kidsD [OF bt] that ss(1) by auto
  have apart: "s = s'" if "s \<in> insert p (set ss)" "s' \<in> insert p (set ss)" "anc B r s s'" for s s'
    using kids_apart [OF bt, of s r s' s'] that ss(1) p kidsD(1) [OF bt] by auto
  have "\<exists>n. mget (blocks ts') y = Some n \<and> node_inv B (ts_params ts) (bkeys ts) r y n" if "y \<in> bkeys ts" for y
    using ts_inv_block [OF inv that] unfolding r bs by metis
  moreover have "y \<notin> decidedIDs g (calls ts')" if "s \<in> set ss" "y \<in> bkeys ts" "anc B r s y" "y \<noteq> s" for s y
  proof -
    have "y \<noteq> r"
      using that anc_root s(2) by metis
    then have "y \<notin> decidedIDs g (calls ts)"
      using ci that(2) unfolding call_inv_def r by blast
    moreover have "y \<notin> insert p (set ss)"
      using apart [of s y] that by auto
    ultimately show ?thesis
      using cs(1) by simp
  qed
  ultimately show ?thesis
    unfolding to_reject_def using ss s(1) apart cs(2) by (auto simp: subtree_def)
qed

lemma mkeys_filter: "mkeys (filter (\<lambda>(c, _). P c) m) = filter P (mkeys m)"
  by (induction m) auto

lemma acceptPreferredChild_runs:
  fixes ts
  assumes inv: "ts_inv B ts" and ci: "call_inv g B ts" and n: "mget (blocks ts) (lastAcceptedID ts) = Some n" and sb: "sm_sb n = Some t"
  defines "K \<equiv> bkeys ts" and "r \<equiv> lastAcceptedID ts" and "p \<equiv> tree_Preference t"
  shows "p \<in> kids B K r r"
    "\<exists>ts' e. acceptPreferredChild vm n ts = Some (ts', e) \<and> decisions B g (calls ts') \<and>
      (e = None \<longrightarrow> (\<exists>bs cs. ts' = accepted_state p (B p) bs cs ts \<and> wf_map bs \<and>
         (\<forall>y. mget bs y = (if y \<in> K - {r} - subtree B K r p then None else mget (blocks ts) y)) \<and>
         accepts cs = accepts (calls ts) @ [p] \<and> set (rejects cs) = set (rejects (calls ts)) \<union> (K - {r} - subtree B K r p)))"
proof -
  have ni: "node_inv B (ts_params ts) K r r n"
    using ts_invD(6) [OF inv n] by (simp add: K_def r_def)
  note N = node_invD [OF ni] and bt = ts_invD(3) [OF inv, folded K_def r_def]
  show p: "p \<in> kids B K r r"
    using N(6) [OF sb] sbt.Pref_law by (simp add: p_def)
  have ID: "\<forall>i. blk_ID (B i) = i"
    using ts_invD(2) [OF inv] by blast
  have dec: "decisions B g (calls ts)" "tip g (calls ts) = r" "K \<inter> decidedIDs g (calls ts) = {r}"
    using ci by (simp_all add: call_inv_def K_def r_def)
  have new: "c \<notin> decidedIDs g (calls ts)" if "c \<in> kids B K r r" for c
    using kidsD(1,2) [OF bt that] dec(3) by blast
  let ?c1 = "calls ts @ [NotifyAcceptor p]" and ?c2 = "calls ts @ [NotifyAcceptor p, CallAccept p]"
  have c1: "decisions B g ?c1" and c2: "decisions B g ?c2"
    using dec(1,2) new [OF p] kidsD(3) [OF bt p] by (auto intro: decisions.intros)
  let ?ts = "ts\<lparr>calls := ?c2, lastAcceptedID := p, lastAcceptedHeight := blk_Height (B p), preferredIDs := removeAll p (preferredIDs ts),
     preferredHeights := mdel (blk_Height (B p)) (preferredHeights ts)\<rparr>"
  define ss where "ss = filter (\<lambda>(c, _). c \<noteq> p) (sm_children n)"
  have ss: "wf_map ss" "set (mkeys ss) = kids B K r r - {p}" "\<And>c b. (c, b) \<in> set ss \<Longrightarrow> c \<in> kids B K r r - {p} \<and> b = B c"
    using N(2,3,5) unfolding ss_def mkeys_filter by (auto simp: distinct_map_filter)
  have run: "acceptPreferredChild vm n ts =
    (case vm (calls ts) (NotifyAcceptor p) of Some err \<Rightarrow> Some (ts\<lparr>calls := ?c1\<rparr>, Some err)
     | None \<Rightarrow> (case vm ?c1 (CallAccept p) of Some err \<Rightarrow> Some (ts\<lparr>calls := ?c2\<rparr>, Some err)
     | None \<Rightarrow> (case rejectAll vm ss ?ts of (ts, Some err) \<Rightarrow> Some (ts, Some err) | (ts, None) \<Rightarrow> rejectTransitively vm (mkeys ss) ts)))"
    using sb N(4) [OF p] ID by (simp add: acceptPreferredChild_def p_def [symmetric] callVM_def ss_def Let_def split: option.split)
  show "\<exists>ts' e. acceptPreferredChild vm n ts = Some (ts', e) \<and> decisions B g (calls ts') \<and>
      (e = None \<longrightarrow> (\<exists>bs cs. ts' = accepted_state p (B p) bs cs ts \<and> wf_map bs \<and>
         (\<forall>y. mget bs y = (if y \<in> K - {r} - subtree B K r p then None else mget (blocks ts) y)) \<and>
         accepts cs = accepts (calls ts) @ [p] \<and> set (rejects cs) = set (rejects (calls ts)) \<union> (K - {r} - subtree B K r p)))"
  proof (cases "vm (calls ts) (NotifyAcceptor p) = None \<and> vm ?c1 (CallAccept p) = None")
    case False
    then show ?thesis
      unfolding run using c1 c2 by (auto split: option.split)
  next
    case True
    have "c \<notin> decidedIDs g ?c2 \<and> rejectable B ?c2 c" if "c \<in> kids B K r r - {p}" for c
      using that new [of c] kidsD(3) [OF bt, of c r] kidsD(3) [OF bt p] by (simp add: decidedIDs_def rejectable_def)
    then have "\<forall>c b. (c, b) \<in> set ss \<longrightarrow> b = B c \<and> c \<notin> decidedIDs g (calls ?ts) \<and> rejectable B (calls ?ts) c"
      using ss(3) by simp
    then obtain zs e where all: "rejectAll vm ss ?ts = (?ts\<lparr>calls := ?c2 @ map CallReject zs\<rparr>, e)"
      "decisions B g (?c2 @ map CallReject zs)" "e = None \<longrightarrow> zs = mkeys ss"
      using rejectAll_runs [of B g ?ts ss vm, OF _ ID ss(1)] c2 by auto
    show ?thesis
    proof (cases e)
      case (Some err)
      then show ?thesis
        using True all unfolding run by simp
    next
      case None
      define ks where "ks = mkeys ss"
      have ks: "zs = ks" "set ks = kids B K r r - {p}" "distinct ks"
        using all(3) None ss(1,2) by (simp_all add: ks_def)
      let ?t1 = "?ts\<lparr>calls := ?c2 @ map CallReject ks\<rparr>"
      have U: "\<Union> (subtree B K r ` set ks) = K - {r} - subtree B K r p"
        unfolding ks(2) by (rule siblings_subtrees [OF bt p])
      have "to_reject B (ts_params ts) K r g ks ?t1"
        unfolding K_def by (rule siblings_to_reject [OF inv ci _ p [unfolded K_def] ks(2) [unfolded K_def] ks(3)])
          (auto simp: r_def decidedIDs_def)
      from rejectTransitively_runs [OF bt ID _ _ this, of vm, unfolded U]
      obtain bs cs e' where res: "rejectTransitively vm ks ?t1 = Some (?t1\<lparr>blocks := bs, calls := cs\<rparr>, e')"
        "decisions B g cs" "accepts cs = accepts (calls ts) @ [p]"
        "e' = None \<longrightarrow> wf_map bs \<and> (\<forall>y. mget bs y = (if y \<in> K - {r} - subtree B K r p then None else mget (blocks ts) y)) \<and>
          set (rejects cs) = set (rejects (calls ts)) \<union> set ks \<union> (K - {r} - subtree B K r p)"
        using ts_invD(4) [OF inv] all(2) ks(1) by auto
      have "set ks \<subseteq> K - {r} - subtree B K r p"
        using kidsD(1) [OF bt] unfolding U [symmetric] ks(2) by (auto simp: subtree_def)
      then have "set (rejects (calls ts)) \<union> set ks \<union> (K - {r} - subtree B K r p) = set (rejects (calls ts)) \<union> (K - {r} - subtree B K r p)"
        by blast
      moreover have "acceptPreferredChild vm n ts = Some (accepted_state p (B p) bs cs ts, e')"
        using True all(1) None res(1) unfolding run by (simp add: ks(1) ks_def [symmetric] accepted_state_def)
      moreover have "calls (accepted_state p (B p) bs cs ts) = cs"
        by (simp add: accepted_state_def)
      ultimately show ?thesis
        using res(2-4) by metis
    qed
  qed
qed

text \<open>The subtree of a block is a tree, with the same children and the same ancestors.\<close>

lemma subtree_tree:
  assumes bt: "block_tree B K r" and p: "p \<in> K"
  defines "S \<equiv> subtree B K r p"
  shows "block_tree B S p" "x \<in> S \<Longrightarrow> kids B S p x = kids B K r x" "x \<in> S \<Longrightarrow> y \<in> S \<Longrightarrow> anc B p x y \<longleftrightarrow> anc B r x y"
proof -
  have up: "par B x \<in> S" "x \<noteq> r" if "x \<in> S" "x \<noteq> p" for x
  proof -
    show r: "x \<noteq> r"
      using that anc_root by (auto simp: S_def subtree_def)
    show "par B x \<in> S"
      using that r block_treeD(3) [OF bt, of x] anc_cases [of B r p x] by (auto simp: S_def subtree_def)
  qed
  show "block_tree B S p"
    unfolding block_tree_def using up block_treeD(1,4) [OF bt] p by (auto simp: S_def subtree_def)
  show "kids B S p x = kids B K r x" if x: "x \<in> S"
  proof -
    have "c \<in> kids B S p x" if c: "c \<in> kids B K r x" for c
    proof -
      have "ht B p < ht B c"
        using x anc_ht [of B r p x K] bt kidsD(5) [OF bt c] by (auto simp: S_def subtree_def)
      moreover have "c \<in> S"
        using x kidsD(1,6) [OF bt c] anc_trans [of B r x c p] by (auto simp: S_def subtree_def)
      ultimately show ?thesis
        using kidsD(3) [OF bt c] by (auto simp: kids_def)
    qed
    moreover have "c \<in> kids B K r x" if "c \<in> kids B S p x" for c
      using that up(2) by (auto simp: kids_def S_def subtree_def)
    ultimately show ?thesis
      by blast
  qed
  have "anc B r x y" if "anc B p x y" "y \<in> S"
    using that by (induction rule: anc.induct) (use up in \<open>auto intro: anc_step\<close>)
  moreover have "anc B p x y" if "anc B r x y" "x \<in> S" "y \<in> S"
    using that
  proof (induction rule: anc.induct)
    case (anc_step y x)
    have "anc B r p x"
      using anc_step.prems(1) by (simp add: S_def subtree_def)
    then have "ht B p < ht B y"
      using anc_ht [OF anc_trans [OF anc_step.hyps(2)] bt, of p] anc_step block_treeD(3,4) [OF bt, of y] by (auto simp: S_def subtree_def)
    then have "y \<noteq> p"
      by auto
    then show ?case
      using anc_step up(1) by (auto intro: anc.anc_step)
  qed simp
  ultimately show "anc B p x y \<longleftrightarrow> anc B r x y" if "x \<in> S" "y \<in> S"
    using that by blast
qed

lemma accepted_state_inv:
  assumes inv: "ts_inv B ts" and ci: "call_inv g B ts"
    and K: "K = bkeys ts" and r: "r = lastAcceptedID ts" and p: "p \<in> kids B K r r"
    and bs: "wf_map bs" "\<forall>y. mget bs y = (if y \<in> K - {r} - subtree B K r p then None else mget (blocks ts) y)"
    and cs: "decisions B g cs" "accepts cs = accepts (calls ts) @ [p]" "set (rejects cs) = set (rejects (calls ts)) \<union> (K - {r} - subtree B K r p)"
    and F: "F = (accepted_state p (B p) bs cs ts)\<lparr>blocks := mdel r bs\<rparr>"
  shows "bkeys F = subtree B K r p" "ts_inv B F" "call_inv g B F" "lastAcceptedID F = p"
    "y \<in> subtree B K r p \<Longrightarrow> mget (blocks F) y = mget (blocks ts) y"
    "bkeys F \<union> decidedIDs g (calls F) = bkeys ts \<union> decidedIDs g (calls ts)"
proof -
  note bt = ts_invD(3) [OF inv, folded K r]
  have pK: "p \<in> K" "p \<noteq> r"
    using kidsD [OF bt p] by auto
  note st = subtree_tree [OF bt pK(1)]
  have rS: "r \<notin> subtree B K r p"
    using pK(2) by (simp add: subtree_def anc_root)
  have SK: "subtree B K r p \<subseteq> K"
    by (auto simp: subtree_def)
  have F_simps: "blocks F = mdel r bs" "lastAcceptedID F = p" "calls F = cs" "lastAcceptedHeight F = blk_Height (B p)" "ts_params F = ts_params ts"
    by (simp_all add: F accepted_state_def)
  have get: "mget (blocks F) y = (if y \<in> subtree B K r p then mget (blocks ts) y else None)" for y
    using bs(2) rS mget_None_key [of "blocks ts" y] by (auto simp: F_simps K)
  then show "mget (blocks F) y = mget (blocks ts) y" if "y \<in> subtree B K r p" for y
    using that by simp
  show bk: "bkeys F = subtree B K r p"
  proof (rule set_eqI)
    fix y
    show "y \<in> bkeys F \<longleftrightarrow> y \<in> subtree B K r p"
      using get [of y] mget_None_key [of "blocks F" y] mget_None_key [of "blocks ts" y] SK by (auto simp: K split: if_splits)
  qed
  show "lastAcceptedID F = p"
    by (fact F_simps)
  have "node_inv B (ts_params ts) (subtree B K r p) p x n" if x: "mget (blocks F) x = Some n" for x n
  proof -
    have xS: "x \<in> subtree B K r p"
      using mget_Some_key [OF x] bk by simp
    then have "node_inv B (ts_params ts) K r x n" "x \<noteq> r"
      using x get [of x] ts_invD(6) [OF inv] rS by (auto simp: K r)
    then show ?thesis
      using st(2) [OF xS] by (auto intro: node_inv_cong [rotated 2])
  qed
  then show "ts_inv B F"
    using ts_invD(1,2) [OF inv] st(1) bs(1) unfolding ts_inv_def bk by (simp add: F_simps wf_map_mdel)
  have dec: "decidedIDs g cs = decidedIDs g (calls ts) \<union> {p} \<union> (K - {r} - subtree B K r p)" "tip g cs = p"
    using cs(2,3) by (auto simp: decidedIDs_def tip_def)
  have "K \<inter> decidedIDs g (calls ts) = {r}"
    using ci by (simp add: call_inv_def K r)
  then have old: "r \<in> decidedIDs g (calls ts)" "y \<in> K \<Longrightarrow> y \<in> decidedIDs g (calls ts) \<longleftrightarrow> y = r" for y
    by blast+
  have pS: "p \<in> subtree B K r p"
    using pK(1) by (simp add: subtree_def)
  have "subtree B K r p \<inter> decidedIDs g cs = {p}"
    unfolding dec(1) using old(2) rS SK pS by auto
  then show "call_inv g B F"
    unfolding call_inv_def bk using cs(1) dec(2) by (simp add: F_simps)
  show "bkeys F \<union> decidedIDs g (calls F) = bkeys ts \<union> decidedIDs g (calls ts)"
    unfolding bk F_simps(3) dec(1) K [symmetric] using old SK pS by auto
qed

end
