(* ===== verification/TopologicalPoll.thy ===== *)
theory TopologicalPoll
  imports TopologicalDecide
begin

text \<open>
  Polls: the loop of \<open>vote\<close> ends without a nil dereference and keeps the invariant, and after every poll the preferred
  branch is the branch that follows the snowball preferences from the last accepted block.
\<close>

subsection \<open>Branches of preferences\<close>

definition sb_of :: "Topological \<Rightarrow> ID \<Rightarrow> Tree option" where
  "sb_of ts x = mget (blocks ts) x \<bind> sm_sb"

lemma sb_of_upd [simp]:
  "sb_of (ts\<lparr>pollNumber := p\<rparr>) = sb_of ts" "sb_of (ts\<lparr>preferredIDs := ps\<rparr>) = sb_of ts"
  "sb_of (ts\<lparr>preferredHeights := ph\<rparr>) = sb_of ts" "sb_of (ts\<lparr>preference := pr\<rparr>) = sb_of ts"
  "sb_of (ts\<lparr>calls := cs\<rparr>) = sb_of ts" "sb_of (ts\<lparr>kahnNodes := kn\<rparr>) = sb_of ts" "sb_of (ts\<lparr>leaves := lv\<rparr>) = sb_of ts"
  by (simp_all add: sb_of_def fun_eq_iff)

lemma sb_of_writeBlock [simp]: "sb_of (writeBlock x n ts) = (sb_of ts)(x := sm_sb n)"
  by (simp add: sb_of_def writeBlock_def fun_eq_iff)

lemma sb_of_inv:
  assumes "ts_inv B ts" "x \<in> bkeys ts"
  shows "sb_of ts x = None \<longleftrightarrow> kids B (bkeys ts) (lastAcceptedID ts) x = {}"
    "sb_of ts x = Some t \<Longrightarrow> tree_reach (kids B (bkeys ts) (lastAcceptedID ts) x) t \<and> tree_params t = ts_params ts"
    "sb_of ts x = Some t \<Longrightarrow> tree_Preference t \<in> kids B (bkeys ts) (lastAcceptedID ts) x"
proof -
  obtain n where n: "mget (blocks ts) x = Some n" "node_inv B (ts_params ts) (bkeys ts) (lastAcceptedID ts) x n"
    using ts_inv_block [OF assms] by metis
  show "sb_of ts x = None \<longleftrightarrow> kids B (bkeys ts) (lastAcceptedID ts) x = {}"
    using node_invD(7) [OF n(2)] n(1) by (simp add: sb_of_def)
  show r: "tree_reach (kids B (bkeys ts) (lastAcceptedID ts) x) t \<and> tree_params t = ts_params ts" if "sb_of ts x = Some t"
    using node_invD(6) [OF n(2)] n(1) that by (simp add: sb_of_def)
  show "tree_Preference t \<in> kids B (bkeys ts) (lastAcceptedID ts) x" if "sb_of ts x = Some t"
    using r [OF that] sbt.Pref_law by blast
qed

text \<open>\<open>follows S x ps\<close>: from \<open>x\<close> on, each block of \<open>ps\<close> is the preference of the block before.\<close>

fun follows :: "(ID \<Rightarrow> Tree option) \<Rightarrow> ID \<Rightarrow> ID list \<Rightarrow> bool" where
  "follows S x [] \<longleftrightarrow> True"
| "follows S x (p # ps) \<longleftrightarrow> map_option tree_Preference (S x) = Some p \<and> follows S p ps"

lemma follows_append: "follows S x (ps @ qs) \<longleftrightarrow> follows S x ps \<and> follows S (last (x # ps)) qs"
  by (induction ps arbitrary: x) auto

lemma follows_cong: "follows S x ps \<Longrightarrow> (\<And>y. y \<in> set (butlast (x # ps)) \<Longrightarrow> S y = S' y) \<Longrightarrow> follows S' x ps"
  by (induction ps arbitrary: x) (auto split: if_splits)

lemma follows_pchain:
  assumes "ts_inv B ts" "follows (sb_of ts) x ps" "x \<in> bkeys ts"
  shows "pchain B x ps \<and> set ps \<subseteq> bkeys ts - {lastAcceptedID ts}"
  using assms(2,3)
proof (induction ps arbitrary: x)
  case (Cons p ps)
  then obtain t where t: "sb_of ts x = Some t" "tree_Preference t = p"
    by auto
  have "p \<in> kids B (bkeys ts) (lastAcceptedID ts) x"
    using sb_of_inv(3) [OF assms(1) Cons.prems(2) t(1)] t(2) by simp
  then have "p \<in> bkeys ts" "p \<noteq> lastAcceptedID ts" "par B p = x"
    using kidsD(1-3) [OF ts_invD(3) [OF assms(1)]] by blast+
  then show ?case
    using Cons.IH [of p] Cons.prems(1) by simp
qed simp

text \<open>Chains in a tree.\<close>

lemma pchain_tree:
  assumes "block_tree B K r" "pchain B x ps" "x \<in> K" "set ps \<subseteq> K - {r}"
  shows "ht B (last (x # ps)) = ht B x + length ps" "y \<in> set (x # ps) \<Longrightarrow> anc B r x y \<and> anc B r y (last (x # ps))" "distinct (x # ps)"
proof -
  have "ht B (last (x # ps)) = ht B x + length ps \<and> (\<forall>y\<in>set (x # ps). anc B r x y \<and> anc B r y (last (x # ps))) \<and> distinct (x # ps)"
    using assms(2-)
  proof (induction ps arbitrary: x)
    case (Cons p ps)
    have p: "p \<in> K" "p \<noteq> r" "par B p = x" "ht B p = Suc (ht B x)" "anc B r x p"
      using Cons.prems block_treeD(4) [OF assms(1), of p] anc_kid [of p r B] by auto
    have IH: "ht B (last (p # ps)) = ht B p + length ps" "\<forall>y\<in>set (p # ps). anc B r p y \<and> anc B r y (last (p # ps))" "distinct (p # ps)"
      using Cons p(1) by auto
    have "x \<noteq> y" if "y \<in> set (p # ps)" for y
      using IH(2) that anc_ht [of B r p y K] assms(1) Cons.prems(3) p(4) by fastforce
    then show ?case
      using IH p(4,5) anc_trans [of B r p _ x] by auto
  qed simp
  then show "ht B (last (x # ps)) = ht B x + length ps" "y \<in> set (x # ps) \<Longrightarrow> anc B r x y \<and> anc B r y (last (x # ps))" "distinct (x # ps)"
    by blast+
qed

lemma pchain_unique:
  assumes "pchain B x ps" "pchain B y qs" "length ps = length qs" "last (x # ps) = last (y # qs)"
  shows "ps = qs \<and> x = y"
  using assms
proof (induction ps arbitrary: qs rule: rev_induct)
  case (snoc p ps)
  then obtain qs' where qs: "qs = qs' @ [p]"
    by (cases qs rule: rev_cases) auto
  then have "last (x # ps) = last (y # qs')"
    using snoc.prems by (auto simp: pchain_append)
  then show ?case
    using snoc.IH [of qs'] snoc.prems by (simp add: qs pchain_append)
qed simp

subsection \<open>How a vote changes the state\<close>

text \<open>From \<open>ts\<close> to \<open>ts'\<close> the blocks \<open>acc\<close> are accepted one after the other, and the blocks that conflict with them are rejected.\<close>

definition evolves :: "(ID \<Rightarrow> Block) \<Rightarrow> ID \<Rightarrow> Topological \<Rightarrow> ID list \<Rightarrow> Topological \<Rightarrow> bool" where
  "evolves B g ts acc ts' \<longleftrightarrow>
     ts_inv B ts' \<and> call_inv g B ts' \<and> ts_params ts' = ts_params ts \<and> preference ts' = preference ts \<and>
     pchain B (lastAcceptedID ts) acc \<and> set acc \<subseteq> bkeys ts - {lastAcceptedID ts} \<and>
     lastAcceptedID ts' = last (lastAcceptedID ts # acc) \<and>
     bkeys ts' = subtree B (bkeys ts) (lastAcceptedID ts) (lastAcceptedID ts') \<and>
     set (preferredIDs ts') = set (preferredIDs ts) - set acc \<and>
     (\<forall>h. mget (preferredHeights ts') h = (if h \<in> (\<lambda>i. blk_Height (B i)) ` set acc then None else mget (preferredHeights ts) h)) \<and>
     bkeys ts' \<union> decidedIDs g (calls ts') = bkeys ts \<union> decidedIDs g (calls ts) \<and> accepts (calls ts') = accepts (calls ts) @ acc"

lemma evolvesD:
  assumes "evolves B g ts acc ts'"
  shows "ts_inv B ts'" "call_inv g B ts'" "ts_params ts' = ts_params ts" "preference ts' = preference ts"
    "pchain B (lastAcceptedID ts) acc" "set acc \<subseteq> bkeys ts - {lastAcceptedID ts}" "lastAcceptedID ts' = last (lastAcceptedID ts # acc)"
    "bkeys ts' = subtree B (bkeys ts) (lastAcceptedID ts) (lastAcceptedID ts')"
    "set (preferredIDs ts') = set (preferredIDs ts) - set acc"
    "mget (preferredHeights ts') h = (if h \<in> (\<lambda>i. blk_Height (B i)) ` set acc then None else mget (preferredHeights ts) h)"
    "bkeys ts' \<union> decidedIDs g (calls ts') = bkeys ts \<union> decidedIDs g (calls ts)" "accepts (calls ts') = accepts (calls ts) @ acc"
    "bkeys ts' \<subseteq> bkeys ts"
proof -
  show "bkeys ts' \<subseteq> bkeys ts"
    using assms unfolding evolves_def by (auto simp: subtree_def)
qed (use assms in \<open>unfold evolves_def, blast+\<close>)

lemma subtree_root: "block_tree B K r \<Longrightarrow> subtree B K r r = K"
  by (auto simp: subtree_def intro: root_anc)

lemma subtree_subtree:
  assumes "block_tree B K r" "p \<in> K" "x \<in> subtree B K r p"
  shows "subtree B (subtree B K r p) p x = subtree B K r x"
  using subtree_tree(3) [OF assms(1,2,3)] assms(3) anc_trans [of B r x _ p] by (auto simp: subtree_def)

lemma evolves_refl: "ts_inv B ts \<Longrightarrow> call_inv g B ts \<Longrightarrow> evolves B g ts [] ts"
  using subtree_root ts_invD(3) by (auto simp: evolves_def)

lemma evolves_trans:
  assumes inv: "ts_inv B ts" and e: "evolves B g ts acc ts'" "evolves B g ts' acc' ts''"
  shows "evolves B g ts (acc @ acc') ts''"
proof -
  note D = evolvesD [OF e(1)] and E = evolvesD [OF e(2)]
  note bt = ts_invD(3) [OF inv] and bt' = ts_invD(3) [OF D(1)] and bt'' = ts_invD(3) [OF E(1)]
  have in': "lastAcceptedID ts' \<in> bkeys ts"
    using block_treeD(2) [OF bt'] D(13) by blast
  have in'': "lastAcceptedID ts'' \<in> bkeys ts'"
    using block_treeD(2) [OF bt''] E(13) by blast
  have "bkeys ts'' = subtree B (bkeys ts) (lastAcceptedID ts) (lastAcceptedID ts'')"
    using subtree_subtree [OF bt in', of "lastAcceptedID ts''"] in'' E(8) D(8) by simp
  moreover have "lastAcceptedID ts \<notin> set acc'"
  proof
    assume r: "lastAcceptedID ts \<in> set acc'"
    then have "anc B (lastAcceptedID ts) (lastAcceptedID ts') (lastAcceptedID ts)"
      using E(6) D(8) by (auto simp: subtree_def)
    then show False
      using r E(6) by (auto simp: anc_root)
  qed
  moreover have "lastAcceptedID ts'' = last (lastAcceptedID ts # acc @ acc')"
    using D(7) E(7) by simp
  moreover have "\<forall>h. mget (preferredHeights ts'') h =
      (if h \<in> (\<lambda>i. blk_Height (B i)) ` set (acc @ acc') then None else mget (preferredHeights ts) h)"
    by (auto simp: D(10) E(10))
  ultimately show ?thesis
    unfolding evolves_def using D E by (auto simp: pchain_append)
qed

lemma evolves_congI:
  assumes "evolves B g ts acc t1" "ts_inv B t2" "bkeys t2 = bkeys t1"
    and "lastAcceptedID t2 = lastAcceptedID t1" "calls t2 = calls t1" "ts_params t2 = ts_params t1" "preference t2 = preference t1"
      "preferredIDs t2 = preferredIDs t1" "preferredHeights t2 = preferredHeights t1"
  shows "evolves B g ts acc t2"
  using assms(1,2) unfolding evolves_def call_inv_def assms(3-) by (elim conjE) (intro conjI; assumption)

lemma falterChildren_ok:
  assumes "ts_inv B ts"
  shows "ts_inv B (falterChildren f nx cs ts)" "bkeys (falterChildren f nx cs ts) = bkeys ts"
    "sb_of (falterChildren f nx cs ts) = sb_of ts"
    "lastAcceptedID (falterChildren f nx cs ts) = lastAcceptedID ts" "calls (falterChildren f nx cs ts) = calls ts"
    "ts_params (falterChildren f nx cs ts) = ts_params ts" "preference (falterChildren f nx cs ts) = preference ts"
    "preferredIDs (falterChildren f nx cs ts) = preferredIDs ts" "preferredHeights (falterChildren f nx cs ts) = preferredHeights ts"
    "x \<notin> set cs \<Longrightarrow> mget (blocks (falterChildren f nx cs ts)) x = mget (blocks ts) x"
proof -
  let ?same = "\<lambda>t t'. bkeys t' = bkeys t \<and> sb_of t' = sb_of t \<and> lastAcceptedID t' = lastAcceptedID t \<and> calls t' = calls t \<and>
    ts_params t' = ts_params t \<and> preference t' = preference t \<and> preferredIDs t' = preferredIDs t \<and> preferredHeights t' = preferredHeights t"
  have step: "ts_inv B (writeBlock c (n\<lparr>shouldFalter := True\<rparr>) t) \<and> ?same t (writeBlock c (n\<lparr>shouldFalter := True\<rparr>) t)"
    if "ts_inv B t" "mget (blocks t) c = Some n" for t c n
  proof -
    have "node_inv B (ts_params t) (bkeys t) (lastAcceptedID t) c (n\<lparr>shouldFalter := True\<rparr>)"
      using ts_invD(6) [OF that] by simp
    from ts_inv_write [OF that(1) mget_Some_key [OF that(2)] this] show ?thesis
      using that(2) unfolding sb_of_writeBlock by (simp add: writeBlock_def fun_eq_iff sb_of_def)
  qed
  have "ts_inv B (falterChildren f nx cs ts) \<and> ?same ts (falterChildren f nx cs ts) \<and>
    (x \<notin> set cs \<longrightarrow> mget (blocks (falterChildren f nx cs ts)) x = mget (blocks ts) x)"
    using assms
  proof (induction cs arbitrary: ts)
    case (Cons c cs)
    show ?case
    proof (cases "(\<not> f \<and> c = nx) \<or> mget (blocks ts) c = None")
      case True
      then have "falterChildren f nx (c # cs) ts = falterChildren f nx cs ts"
        by auto
      then show ?thesis
        using Cons.IH [OF Cons.prems] by simp
    next
      case False
      then obtain n where n: "mget (blocks ts) c = Some n"
        by blast
      then have run: "falterChildren f nx (c # cs) ts = falterChildren f nx cs (writeBlock c (n\<lparr>shouldFalter := True\<rparr>) ts)"
        using False by auto
      note s = step [OF Cons.prems n]
      show ?thesis
        unfolding run using s Cons.IH [OF s [THEN conjunct1]] by (simp add: writeBlock_def)
    qed
  qed simp
  then show "ts_inv B (falterChildren f nx cs ts)" "bkeys (falterChildren f nx cs ts) = bkeys ts"
    "sb_of (falterChildren f nx cs ts) = sb_of ts"
    "lastAcceptedID (falterChildren f nx cs ts) = lastAcceptedID ts" "calls (falterChildren f nx cs ts) = calls ts"
    "ts_params (falterChildren f nx cs ts) = ts_params ts" "preference (falterChildren f nx cs ts) = preference ts"
    "preferredIDs (falterChildren f nx cs ts) = preferredIDs ts" "preferredHeights (falterChildren f nx cs ts) = preferredHeights ts"
    "x \<notin> set cs \<Longrightarrow> mget (blocks (falterChildren f nx cs ts)) x = mget (blocks ts) x"
    by blast+
qed

text \<open>The part of the loop that accepts the preferred child of the last accepted block once its snowball tree is finalized.\<close>

definition decideBlock :: "'e vm \<Rightarrow> ID \<Rightarrow> snowmanBlock \<Rightarrow> Tree \<Rightarrow> Topological \<Rightarrow> (Topological \<times> 'e option) option" where
  "decideBlock vm q n sb ts =
     (if tree_Finalized sb \<and> lastAcceptedID ts = q
      then acceptPreferredChild vm n ts \<bind> (\<lambda>(ts, err). case err of
             Some err \<Rightarrow> Some (ts, Some err)
           | None \<Rightarrow> Some (ts\<lparr>blocks := mdel q (blocks ts)\<rparr>, None))
      else Some (ts, None))"

lemma decideBlock_runs:
  assumes inv: "ts_inv B ts" and ci: "call_inv g B ts" and n: "mget (blocks ts) q = Some n" and sb: "sm_sb n = Some t"
  shows "\<exists>ts' e. decideBlock vm q n t ts = Some (ts', e) \<and> decisions B g (calls ts') \<and>
    (e = None \<longrightarrow> evolves B g ts (if tree_Finalized t \<and> lastAcceptedID ts = q then [tree_Preference t] else []) ts' \<and>
      (\<forall>y\<in>bkeys ts'. mget (blocks ts') y = mget (blocks ts) y))"
proof (cases "tree_Finalized t \<and> lastAcceptedID ts = q")
  case False
  then show ?thesis
    using evolves_refl [OF inv ci] ci by (auto simp: decideBlock_def call_inv_def)
next
  case True
  let ?K = "bkeys ts" and ?p = "tree_Preference t"
  have q: "q = lastAcceptedID ts"
    using True by simp
  note bt = ts_invD(3) [OF inv, folded q]
  have p: "?p \<in> kids B ?K q q"
    using acceptPreferredChild_runs(1) [OF inv ci n [unfolded q] sb] by (simp add: q)
  obtain ts' e where run: "acceptPreferredChild vm n ts = Some (ts', e)" "decisions B g (calls ts')"
    and ok: "e = None \<longrightarrow> (\<exists>bs cs. ts' = accepted_state ?p (B ?p) bs cs ts \<and> wf_map bs \<and>
         (\<forall>y. mget bs y = (if y \<in> ?K - {q} - subtree B ?K q ?p then None else mget (blocks ts) y)) \<and>
         accepts cs = accepts (calls ts) @ [?p] \<and> set (rejects cs) = set (rejects (calls ts)) \<union> (?K - {q} - subtree B ?K q ?p))"
    using acceptPreferredChild_runs(2) [OF inv ci n [unfolded q] sb, of vm, folded q] by (elim exE conjE)
  show ?thesis
  proof (cases e)
    case (Some err)
    then show ?thesis
      using True run by (simp add: decideBlock_def)
  next
    case None
    then obtain bs cs where ts': "ts' = accepted_state ?p (B ?p) bs cs ts"
      and bs: "wf_map bs" "\<forall>y. mget bs y = (if y \<in> ?K - {q} - subtree B ?K q ?p then None else mget (blocks ts) y)"
      and cs: "accepts cs = accepts (calls ts) @ [?p]" "set (rejects cs) = set (rejects (calls ts)) \<union> (?K - {q} - subtree B ?K q ?p)"
      using ok by blast
    let ?F = "(accepted_state ?p (B ?p) bs cs ts)\<lparr>blocks := mdel q bs\<rparr>"
    have dec: "decisions B g cs"
      using run(2) by (simp add: ts' accepted_state_def)
    note F = accepted_state_inv [OF inv ci refl q p bs dec cs refl]
    have "decideBlock vm q n t ts = Some (?F, None)"
      using True run(1) None by (simp add: decideBlock_def ts' accepted_state_def)
    moreover have "evolves B g ts [?p] ?F"
      unfolding evolves_def using F(1-4,6) kidsD(1-3) [OF bt p] cs(1) by (simp add: accepted_state_def q)
    ultimately show ?thesis
      using True F(1,5) dec by (intro exI [of _ ?F] exI [of _ None]) (simp add: accepted_state_def)
  qed
qed

subsection \<open>The voting loop\<close>

text \<open>
  The invariant of the loop, started in \<open>ts0\<close>: \<open>np\<close>, the new preference so far, ends a branch of preferences, the trees
  below it are those of \<open>ts0\<close>, and the blocks \<open>qs\<close> still to be voted on start with it or are apart from it.
\<close>

definition vote_inv :: "(ID \<Rightarrow> Block) \<Rightarrow> ID \<Rightarrow> Topological \<Rightarrow> ID \<Rightarrow> bool \<Rightarrow> ID list \<Rightarrow> Topological \<Rightarrow> bool" where
  "vote_inv B g ts0 np on qs ts \<longleftrightarrow>
     (\<exists>acc us. evolves B g ts0 acc ts \<and> follows (sb_of ts) (lastAcceptedID ts) us \<and> np = last (lastAcceptedID ts # us)) \<and>
     (\<forall>y\<in>bkeys ts. anc B (lastAcceptedID ts0) np y \<longrightarrow> sb_of ts y = sb_of ts0 y) \<and>
     (on \<longrightarrow> (\<forall>q qs'. qs = q # qs' \<longrightarrow> q = np)) \<and>
     (\<not> on \<longrightarrow> (\<forall>q\<in>set qs. \<not> anc B (lastAcceptedID ts0) np q \<and> \<not> anc B (lastAcceptedID ts0) q np))"

lemma vote_inv_start: "ts_inv B ts \<Longrightarrow> call_inv g B ts \<Longrightarrow> (\<And>q qs'. qs = q # qs' \<Longrightarrow> q = lastAcceptedID ts) \<Longrightarrow>
    vote_inv B g ts (lastAcceptedID ts) True qs ts"
  unfolding vote_inv_def by (auto intro!: exI [of _ "[]"] evolves_refl)

lemma evolves_tree:
  assumes inv: "ts_inv B ts0" and ev: "evolves B g ts0 acc ts"
  defines "r0 \<equiv> lastAcceptedID ts0" and "r \<equiv> lastAcceptedID ts"
  shows "x \<in> bkeys ts \<Longrightarrow> kids B (bkeys ts) r x = kids B (bkeys ts0) r0 x"
    "x \<in> bkeys ts \<Longrightarrow> y \<in> bkeys ts \<Longrightarrow> anc B r x y \<longleftrightarrow> anc B r0 x y" "r \<in> bkeys ts0"
proof -
  show r: "r \<in> bkeys ts0"
    using evolvesD(13) [OF ev] block_treeD(2) [OF ts_invD(3) [OF evolvesD(1) [OF ev]]] by (auto simp: r_def)
  note st = subtree_tree [OF ts_invD(3) [OF inv] r [unfolded r_def]]
  show "x \<in> bkeys ts \<Longrightarrow> kids B (bkeys ts) r x = kids B (bkeys ts0) r0 x"
    "x \<in> bkeys ts \<Longrightarrow> y \<in> bkeys ts \<Longrightarrow> anc B r x y \<longleftrightarrow> anc B r0 x y"
    unfolding evolvesD(8) [OF ev] r_def r0_def using st(2,3) by blast+
qed

lemma follows_anc:
  assumes inv: "ts_inv B ts0" and ev: "evolves B g ts0 acc ts" and f: "follows (sb_of ts) (lastAcceptedID ts) us"
    and y: "y \<in> set (lastAcceptedID ts # us)"
  shows "y \<in> bkeys ts" "anc B (lastAcceptedID ts0) y (last (lastAcceptedID ts # us))" "last (lastAcceptedID ts # us) \<in> bkeys ts"
    "distinct (lastAcceptedID ts # us)"
proof -
  note inv' = evolvesD(1) [OF ev]
  note bt = ts_invD(3) [OF inv']
  have c: "pchain B (lastAcceptedID ts) us" "set us \<subseteq> bkeys ts - {lastAcceptedID ts}"
    using follows_pchain [OF inv' f block_treeD(2) [OF bt]] by blast+
  have sub: "set (lastAcceptedID ts # us) \<subseteq> bkeys ts"
    using c(2) block_treeD(2) [OF bt] by auto
  have l: "last (lastAcceptedID ts # us) \<in> set (lastAcceptedID ts # us)"
    by (rule last_in_set) simp
  show yl: "y \<in> bkeys ts" "last (lastAcceptedID ts # us) \<in> bkeys ts"
    using sub y l by blast+
  show "anc B (lastAcceptedID ts0) y (last (lastAcceptedID ts # us))" "distinct (lastAcceptedID ts # us)"
    using pchain_tree(2,3) [OF bt c(1) block_treeD(2) [OF bt] c(2)] y evolves_tree(2) [OF inv ev yl] by blast+
qed

text \<open>One round of the loop: the state it leads to.\<close>

definition roundTree :: "ID bag \<Rightarrow> snowmanBlock \<Rightarrow> Tree \<Rightarrow> Tree" where
  "roundTree v n sb = fst (tree_RecordPoll v (if shouldFalter n then tree_RecordUnsuccessfulPoll sb else sb))"

lemma vote_round_inv:
  assumes inv: "ts_inv B ts" and v: "bag_inv v" and n: "mget (blocks ts) q = Some n" "sm_sb n = Some sb" and t: "t = roundTree v n sb"
    and n': "n' = n\<lparr>shouldFalter := False, sm_sb := Some t\<rparr>"
  shows "ts_inv B (writeBlock q n' ts)" "bkeys (writeBlock q n' ts) = bkeys ts" "tree_Preference t \<in> kids B (bkeys ts) (lastAcceptedID ts) q"
proof -
  let ?K = "bkeys ts" and ?r = "lastAcceptedID ts"
  have ni: "node_inv B (ts_params ts) ?K ?r q n"
    using ts_invD(6) [OF inv n(1)] .
  note round = sbt.Round_law [of "kids B ?K ?r q" sb v "shouldFalter n", OF node_invD(6) [OF ni n(2), THEN conjunct1] v, folded t [unfolded roundTree_def]]
  show "tree_Preference t \<in> kids B ?K ?r q"
    by (rule round)
  have "node_inv B (ts_params ts) ?K ?r q n'"
    using ni n(2) round(1,2) by (simp add: node_inv_def n')
  then show "ts_inv B (writeBlock q n' ts)" "bkeys (writeBlock q n' ts) = bkeys ts"
    using ts_inv_write [OF inv mget_Some_key [OF n(1)]] by blast+
qed

lemma vote_round:
  assumes inv: "ts_inv B ts" and ci: "call_inv g B ts" and v: "bag_inv v"
    and n: "mget (blocks ts) q = Some n" "sm_sb n = Some sb" and t: "t = roundTree v n sb"
    and n': "n' = n\<lparr>shouldFalter := False, sm_sb := Some t\<rparr>"
  shows "\<exists>ts2 e. decideBlock vm q n' t (writeBlock q n' ts) = Some (ts2, e) \<and> decisions B g (calls ts2) \<and>
    (e = None \<longrightarrow> (let ts3 = falterChildren (shouldFalter n) nx (mkeys (sm_children n')) ts2 in
       evolves B g ts (if tree_Finalized t \<and> lastAcceptedID ts = q then [tree_Preference t] else []) ts3 \<and>
       (\<forall>y\<in>bkeys ts3. sb_of ts3 y = (if y = q then Some t else sb_of ts y))))"
proof -
  let ?r = "lastAcceptedID ts" and ?ts1 = "writeBlock q n' ts"
  note w = vote_round_inv(1,2) [OF inv v n t n']
  have same: "lastAcceptedID ?ts1 = ?r" "calls ?ts1 = calls ts" "ts_params ?ts1 = ts_params ts" "preference ?ts1 = preference ts"
      "preferredIDs ?ts1 = preferredIDs ts" "preferredHeights ?ts1 = preferredHeights ts"
    by (simp_all add: writeBlock_def)
  have e1: "evolves B g ts [] ?ts1"
    by (rule evolves_congI [OF evolves_refl [OF inv ci] w same])
  obtain ts2 e where run: "decideBlock vm q n' t ?ts1 = Some (ts2, e)" "decisions B g (calls ts2)"
    and ok: "e = None \<longrightarrow> evolves B g ?ts1 (if tree_Finalized t \<and> ?r = q then [tree_Preference t] else []) ts2 \<and>
      (\<forall>y\<in>bkeys ts2. mget (blocks ts2) y = mget (blocks ?ts1) y)"
    using decideBlock_runs [OF w(1) evolvesD(2) [OF e1], of q n' t vm] unfolding same by (auto simp: writeBlock_def n')
  have "let ts3 = falterChildren (shouldFalter n) nx (mkeys (sm_children n')) ts2 in
       evolves B g ts (if tree_Finalized t \<and> ?r = q then [tree_Preference t] else []) ts3 \<and>
       (\<forall>y\<in>bkeys ts3. sb_of ts3 y = (if y = q then Some t else sb_of ts y))" if "e = None"
  proof -
    have e2: "evolves B g ts (if tree_Finalized t \<and> ?r = q then [tree_Preference t] else []) ts2"
      using evolves_trans [OF inv e1] ok that by simp
    note f = falterChildren_ok [OF evolvesD(1) [OF e2]]
    have "sb_of ts2 y = (if y = q then Some t else sb_of ts y)" if "y \<in> bkeys ts2" for y
    proof -
      have "mget (blocks ts2) y = mget (blocks ?ts1) y"
        using ok \<open>e = None\<close> that by blast
      then have "sb_of ts2 y = sb_of ?ts1 y"
        unfolding sb_of_def by (rule arg_cong)
      then show ?thesis
        by (simp add: n')
    qed
    then show ?thesis
      unfolding Let_def f(2,3) using evolves_congI [OF e2 f(1,2) f(4-9)] by blast
  qed
  then show "\<exists>ts2 e. decideBlock vm q n' t (writeBlock q n' ts) = Some (ts2, e) \<and> decisions B g (calls ts2) \<and>
    (e = None \<longrightarrow> (let ts3 = falterChildren (shouldFalter n) nx (mkeys (sm_children n')) ts2 in
       evolves B g ts (if tree_Finalized t \<and> lastAcceptedID ts = q then [tree_Preference t] else []) ts3 \<and>
       (\<forall>y\<in>bkeys ts3. sb_of ts3 y = (if y = q then Some t else sb_of ts y))))"
    using run by blast
qed

lemma vote_inv_step:
  fixes g qs
  assumes inv: "ts_inv B ts0" and vi: "vote_inv B g ts0 np on (q # qs) ts"
    and qs: "branch B (lastAcceptedID ts0) (q # qs)" "sorted_wrt (\<lambda>x y. anc B (lastAcceptedID ts0) x y \<and> x \<noteq> y) (q # qs)" "set (q # qs) \<subseteq> bkeys ts0"
    and q: "q \<in> bkeys ts" and pp: "pp = tree_Preference t" "pp \<in> kids B (bkeys ts) (lastAcceptedID ts) q"
    and ev: "evolves B g ts (if fin \<and> lastAcceptedID ts = q then [pp] else []) ts3"
    and sb: "\<forall>y\<in>bkeys ts3. sb_of ts3 y = (if y = q then Some t else sb_of ts y)"
    and nx: "nx = (case qs of [] \<Rightarrow> Empty | q' # _ \<Rightarrow> q')"
  shows "vote_inv B g ts0 (if on then pp else np) (on \<and> nx = pp) qs ts3"
proof -
  let ?R = "lastAcceptedID ts0" and ?L = "bkeys ts0" and ?r = "lastAcceptedID ts"
  note bt0 = ts_invD(3) [OF inv]
  obtain acc us where ev0: "evolves B g ts0 acc ts" and us: "follows (sb_of ts) ?r us" "np = last (?r # us)"
    using vi by (auto simp: vote_inv_def)
  have below: "sb_of ts y = sb_of ts0 y" if "y \<in> bkeys ts" "anc B ?R np y" for y
    using vi that unfolding vote_inv_def by blast
  note E = evolvesD [OF ev] and ev3 = evolves_trans [OF inv ev0 ev]
  note path = follows_anc [OF inv ev0 us(1), folded us(2)]
  note bt = ts_invD(3) [OF evolvesD(1) [OF ev0]]
  have kid: "pp \<in> kids B ?L ?R q"
    using pp(2) evolves_tree(1) [OF inv ev0 q] by simp
  have sub: "bkeys ts3 \<subseteq> bkeys ts"
    by (rule E(13))
  show ?thesis
  proof (cases on)
    case True
    then have np: "np = q"
      using vi by (auto simp: vote_inv_def)
    have "\<exists>us'. follows (sb_of ts3) (lastAcceptedID ts3) us' \<and> pp = last (lastAcceptedID ts3 # us')"
    proof (cases "fin \<and> ?r = q")
      case True
      then show ?thesis
        using E(7) by (intro exI [of _ "[]"]) simp
    next
      case False
      then have same: "lastAcceptedID ts3 = ?r" "bkeys ts3 = bkeys ts"
        using E(7,8) subtree_root [OF bt] by (auto simp del: set_eq_iff)
      have "y \<in> bkeys ts3 \<and> y \<noteq> q" if "y \<in> set (butlast (?r # us))" for y
      proof -
        have "y \<in> bkeys ts"
          using path(1) that by (blast dest: in_set_butlastD)
        moreover have "y \<noteq> last (?r # us)"
          using path(4) [of ?r] that by (metis distinct_butlast append_butlast_last_id distinct_append disjoint_iff list.distinct(1) list.set_intros(1))
        ultimately show ?thesis
          using np us(2) same(2) by simp
      qed
      then have "sb_of ts y = sb_of ts3 y" if "y \<in> set (butlast (?r # us))" for y
        using bspec [OF sb, of y] that by simp
      then have "follows (sb_of ts3) ?r us"
        by (rule follows_cong [OF us(1)])
      moreover have "map_option tree_Preference (sb_of ts3 q) = Some pp"
        using bspec [OF sb, of q] q same(2) pp(1) by simp
      ultimately have "follows (sb_of ts3) ?r (us @ [pp])"
        using us(2) np by (simp add: follows_append)
      then show ?thesis
        unfolding same by (intro exI [of _ "us @ [pp]"]) simp
    qed
    moreover have "sb_of ts3 y = sb_of ts0 y" if "y \<in> bkeys ts3" "anc B ?R pp y" for y
    proof -
      have "y \<noteq> q"
      proof
        assume "y = q"
        then show False
          using anc_ht [OF that(2) bt0] kidsD(4,5) [OF bt0 kid] by (cases "pp = q") simp_all
      qed
      moreover have "sb_of ts y = sb_of ts0 y"
        using below [of y] that sub anc_trans [OF that(2) kidsD(6) [OF bt0 kid]] by (auto simp: np)
      ultimately show ?thesis
        using bspec [OF sb that(1)] by simp
    qed
    moreover have "\<not> anc B ?R pp x \<and> \<not> anc B ?R x pp" if ne: "nx \<noteq> pp" "x \<in> set qs" for x
    proof -
      obtain q' qs' where qs': "qs = q' # qs'"
        using ne(2) by (cases qs) auto
      have q': "q' \<in> kids B ?L ?R q" "q' \<noteq> pp" "anc B ?R q' x" "x \<in> ?L"
        using qs ne by (auto simp: qs' nx kids_def)
      show ?thesis
        using kids_apart [OF bt0 q'(1) kid q'(4,3)] kids_apart [OF bt0 q'(1) kid kidsD(1) [OF bt0 kid] anc_trans [OF _ q'(3)] anc_refl] q'(2) by blast
    qed
    moreover have "\<forall>q0 qs'. qs = q0 # qs' \<longrightarrow> nx = q0"
      by (simp add: nx)
    ultimately show ?thesis
      unfolding vote_inv_def using True ev3 by (auto simp del: set_append)
  next
    case False
    then have off: "\<not> anc B ?R np x" "\<not> anc B ?R x np" if "x \<in> set (q # qs)" for x
      using vi that by (auto simp: vote_inv_def)
    have "?r \<noteq> q"
      using path(2) [of ?r] off(2) [of q] by auto
    then have same: "lastAcceptedID ts3 = ?r" "bkeys ts3 = bkeys ts"
      using E(7,8) subtree_root [OF bt] by (auto simp del: set_eq_iff)
    have "y \<in> bkeys ts3 \<and> y \<noteq> q" if "y \<in> set (butlast (?r # us))" for y
      using path(1,2) [OF in_set_butlastD [OF that]] off(2) [of q] same(2) by auto
    then have "sb_of ts y = sb_of ts3 y" if "y \<in> set (butlast (?r # us))" for y
      using bspec [OF sb, of y] that by simp
    then have "follows (sb_of ts3) ?r us"
      by (rule follows_cong [OF us(1)])
    moreover have "sb_of ts3 y = sb_of ts0 y" if "y \<in> bkeys ts3" "anc B ?R np y" for y
      using bspec [OF sb that(1)] that below [of y] off(1) [of q] same(2) by auto
    ultimately show ?thesis
      unfolding vote_inv_def using False ev3 off us(2) by (auto simp: same(1))
  qed
qed

lemma voteLoop_Cons:
  assumes "mget (blocks ts) (vote_parentID v) = Some n" "sm_sb n = Some sb"
    and "t = roundTree (vote_votes v) n sb" "n' = n\<lparr>shouldFalter := False, sm_sb := Some t\<rparr>"
    and "nx = (case st of [] \<Rightarrow> Empty | v # _ \<Rightarrow> vote_parentID v)"
  shows "voteLoop vm (v # st) np on ts =
    decideBlock vm (vote_parentID v) n' t (writeBlock (vote_parentID v) n' ts) \<bind> (\<lambda>(ts, err). case err of
      Some err \<Rightarrow> Some (ts, Inl err)
    | None \<Rightarrow> voteLoop vm st (if on then tree_Preference t else np) (on \<and> nx = tree_Preference t)
        (falterChildren (shouldFalter n) nx (mkeys (sm_children n')) ts))"
  using assms(1,2) unfolding voteLoop.simps by (simp add: assms(3-5) roundTree_def decideBlock_def Let_def)

lemma vote_inv_end: "vote_inv B g ts0 np on qs ts \<Longrightarrow> vote_inv B g ts0 np True [] ts"
  by (auto simp: vote_inv_def)

lemma voteLoop_runs:
  assumes inv: "ts_inv B ts0"
    and "vote_inv B g ts0 np on (map vote_parentID st) ts" "branch B (lastAcceptedID ts0) (map vote_parentID st)"
      "sorted_wrt (\<lambda>x y. anc B (lastAcceptedID ts0) x y \<and> x \<noteq> y) (map vote_parentID st)"
    and "\<forall>v\<in>set st. bag_inv (vote_votes v) \<and> vote_parentID v \<in> bkeys ts0 \<and> kids B (bkeys ts0) (lastAcceptedID ts0) (vote_parentID v) \<noteq> {}"
  shows "\<exists>ts' res. voteLoop vm st np on ts = Some (ts', res) \<and> decisions B g (calls ts') \<and>
    (\<forall>np'. res = Inr np' \<longrightarrow> vote_inv B g ts0 np' True [] ts')"
  using assms(2-)
proof (induction st arbitrary: np on ts)
  case Nil
  then obtain acc where "evolves B g ts0 acc ts"
    by (auto simp: vote_inv_def)
  then show ?case
    using Nil vote_inv_end evolvesD(2) by (fastforce simp: call_inv_def)
next
  case (Cons v st)
  let ?q = "vote_parentID v" and ?nx = "case st of [] \<Rightarrow> Empty | v # _ \<Rightarrow> vote_parentID v"
  obtain acc where ev: "evolves B g ts0 acc ts"
    using Cons.prems(1) unfolding vote_inv_def by blast
  note inv' = evolvesD(1) [OF ev] and ci = evolvesD(2) [OF ev]
  show ?case
  proof (cases "mget (blocks ts) ?q")
    case None
    then show ?thesis
      using vote_inv_end [OF Cons.prems(1)] ci by (auto simp: call_inv_def)
  next
    case (Some n)
    have q: "?q \<in> bkeys ts"
      using mget_Some_key [OF Some] .
    have "kids B (bkeys ts) (lastAcceptedID ts) ?q \<noteq> {}"
      using Cons.prems(4) evolves_tree(1) [OF inv ev q] by simp
    then obtain sb where sb: "sm_sb n = Some sb"
      using node_invD(7) [OF ts_invD(6) [OF inv' Some]] by (cases "sm_sb n") auto
    define t n' where "t = roundTree (vote_votes v) n sb" and "n' = n\<lparr>shouldFalter := False, sm_sb := Some t\<rparr>"
    have bv: "bag_inv (vote_votes v)"
      using Cons.prems(4) by simp
    note round = vote_round [OF inv' ci bv Some sb t_def n'_def] vote_round_inv(3) [OF inv' bv Some sb t_def n'_def]
    obtain ts2 e where run: "decideBlock vm ?q n' t (writeBlock ?q n' ts) = Some (ts2, e)" "decisions B g (calls ts2)"
      and ok: "e = None \<longrightarrow> (let ts3 = falterChildren (shouldFalter n) ?nx (mkeys (sm_children n')) ts2 in
       evolves B g ts (if tree_Finalized t \<and> lastAcceptedID ts = ?q then [tree_Preference t] else []) ts3 \<and>
       (\<forall>y\<in>bkeys ts3. sb_of ts3 y = (if y = ?q then Some t else sb_of ts y)))"
      using round(1) [of vm ?nx] by blast
    note eqn = voteLoop_Cons [OF Some sb t_def n'_def refl, of vm st np on]
    show ?thesis
    proof (cases e)
      case (Some err)
      then show ?thesis
        unfolding eqn run(1) using run(2) by simp
    next
      case None
      define ts3 where "ts3 = falterChildren (shouldFalter n) ?nx (mkeys (sm_children n')) ts2"
      have ev3: "evolves B g ts (if tree_Finalized t \<and> lastAcceptedID ts = ?q then [tree_Preference t] else []) ts3"
        "\<forall>y\<in>bkeys ts3. sb_of ts3 y = (if y = ?q then Some t else sb_of ts y)"
        using ok None unfolding Let_def ts3_def by blast+
      have nx: "?nx = (case map vote_parentID st of [] \<Rightarrow> Empty | q' # _ \<Rightarrow> q')"
        by (cases st) simp_all
      have sub: "set (?q # map vote_parentID st) \<subseteq> bkeys ts0"
        using Cons.prems(4) by auto
      have "vote_inv B g ts0 (if on then tree_Preference t else np) (on \<and> ?nx = tree_Preference t) (map vote_parentID st) ts3"
        by (rule vote_inv_step [OF inv Cons.prems(1) [unfolded list.map] Cons.prems(2,3) [unfolded list.map] sub q refl round(2) ev3 nx])
      from Cons.IH [OF this] have "\<exists>ts' res. voteLoop vm st (if on then tree_Preference t else np) (on \<and> ?nx = tree_Preference t) ts3 = Some (ts', res) \<and>
        decisions B g (calls ts') \<and> (\<forall>np'. res = Inr np' \<longrightarrow> vote_inv B g ts0 np' True [] ts')"
        using Cons.prems(2-4) by (cases st) simp_all
      then show ?thesis
        unfolding eqn run(1) by (simp add: None ts3_def)
    qed
  qed
qed

end
