(* ===== verification/LinkedList.thy ===== *)
theory LinkedList
  imports Prelude "HOL-Library.Monad_Syntax"
begin

text \<open>
  The doubly linked list with a sentinel node (\<open>src/utils/linked/list.go\<close>).  The elements live in an
  explicit store, since the operations relink shared elements in place: an address is a natural
  number, \<open>nil\<close> is address 0, and a list is named by the address of its sentinel (the first field
  of the Go struct).  A dereference of \<open>nil\<close> is a panic, the value \<open>None\<close>.

  \<open>dlist h l xs\<close> is the representation relation: in the store \<open>h\<close>, the list \<open>l\<close> holds the elements
  \<open>xs\<close> in order.  The lemmas say that no operation panics on a represented list, and that each
  implements the operation on \<open>xs\<close> it is named after.
\<close>

type_synonym addr = nat

record 'v store =
  nxt :: "addr \<Rightarrow> addr"
  prv :: "addr \<Rightarrow> addr"
  lst :: "addr \<Rightarrow> addr"
  val :: "addr \<Rightarrow> 'v"
  llen :: "addr \<Rightarrow> int"
  limit :: addr

definition nil :: addr where
  "nil = 0"

definition setNext :: "addr \<Rightarrow> addr \<Rightarrow> 'v store \<Rightarrow> 'v store option" where
  "setNext a b h = (if a = nil then None else Some (h\<lparr>nxt := (nxt h)(a := b)\<rparr>))"

definition setPrev :: "addr \<Rightarrow> addr \<Rightarrow> 'v store \<Rightarrow> 'v store option" where
  "setPrev a b h = (if a = nil then None else Some (h\<lparr>prv := (prv h)(a := b)\<rparr>))"

definition setList :: "addr \<Rightarrow> addr \<Rightarrow> 'v store \<Rightarrow> 'v store option" where
  "setList a l h = (if a = nil then None else Some (h\<lparr>lst := (lst h)(a := l)\<rparr>))"

definition addLen :: "addr \<Rightarrow> int \<Rightarrow> 'v store \<Rightarrow> 'v store" where
  "addLen l d h = h\<lparr>llen := (llen h)(l := llen h l + d)\<rparr>"

text \<open>\<open>alloc\<close> is the allocation of a new zero element holding a value (\<open>&ListElement{Value: v}\<close>).\<close>

definition alloc :: "'v \<Rightarrow> 'v store \<Rightarrow> addr \<times> 'v store" where
  "alloc v h = (limit h, h\<lparr>nxt := (nxt h)(limit h := nil), prv := (prv h)(limit h := nil),
     lst := (lst h)(limit h := nil), val := (val h)(limit h := v), limit := Suc (limit h)\<rparr>)"

definition NewList :: "'v \<Rightarrow> 'v store \<Rightarrow> addr \<times> 'v store" where
  "NewList zero h =
     (let (l, h) = alloc zero h
      in (l, h\<lparr>nxt := (nxt h)(l := l), prv := (prv h)(l := l), lst := (lst h)(l := l),
               llen := (llen h)(l := 0)\<rparr>))"

definition elem_Next :: "addr \<Rightarrow> 'v store \<Rightarrow> addr" where
  "elem_Next e h = (let p = nxt h e in if lst h e \<noteq> nil \<and> p \<noteq> lst h e then p else nil)"

definition elem_Prev :: "addr \<Rightarrow> 'v store \<Rightarrow> addr" where
  "elem_Prev e h = (let p = prv h e in if lst h e \<noteq> nil \<and> p \<noteq> lst h e then p else nil)"

definition list_Len :: "addr \<Rightarrow> 'v store \<Rightarrow> int" where
  "list_Len l h = llen h l"

definition Front :: "addr \<Rightarrow> 'v store \<Rightarrow> addr" where
  "Front l h = (if llen h l = 0 then nil else nxt h l)"

definition Back :: "addr \<Rightarrow> 'v store \<Rightarrow> addr" where
  "Back l h = (if llen h l = 0 then nil else prv h l)"

text \<open>
  \<open>unlink\<close> and \<open>link\<close> are the two groups of pointer assignments the operations share.
\<close>

definition unlink :: "addr \<Rightarrow> 'v store \<Rightarrow> 'v store option" where
  "unlink e h = do { h \<leftarrow> setNext (prv h e) (nxt h e) h; setPrev (nxt h e) (prv h e) h }"

definition link :: "addr \<Rightarrow> addr \<Rightarrow> 'v store \<Rightarrow> 'v store option" where
  "link e location h = do {
     h \<leftarrow> setPrev e location h;
     h \<leftarrow> (if location = nil then None else setNext e (nxt h location) h);
     h \<leftarrow> setNext (prv h e) e h;
     setPrev (nxt h e) e h }"

definition list_Remove :: "addr \<Rightarrow> addr \<Rightarrow> 'v store \<Rightarrow> 'v store option" where
  "list_Remove l e h =
     (if e = nil then None
      else if lst h e \<noteq> l then Some h
      else do {
        h \<leftarrow> unlink e h;
        h \<leftarrow> setNext e nil h;
        h \<leftarrow> setPrev e nil h;
        h \<leftarrow> setList e nil h;
        Some (addLen l (- 1) h) })"

definition insertAfter :: "addr \<Rightarrow> addr \<Rightarrow> addr \<Rightarrow> 'v store \<Rightarrow> 'v store option" where
  "insertAfter l e location h =
     (if e = nil then None
      else if lst h e \<noteq> nil then Some h
      else do {
        h \<leftarrow> link e location h;
        h \<leftarrow> setList e l h;
        Some (addLen l 1 h) })"

definition moveAfter :: "addr \<Rightarrow> addr \<Rightarrow> addr \<Rightarrow> 'v store \<Rightarrow> 'v store option" where
  "moveAfter l e location h =
     (if e = nil then None
      else if lst h e \<noteq> l then Some h
      else if location = nil then None
      else if lst h location \<noteq> l \<or> e = location then Some h
      else do { h \<leftarrow> unlink e h; link e location h })"

definition list_PushFront :: "addr \<Rightarrow> addr \<Rightarrow> 'v store \<Rightarrow> 'v store option" where
  "list_PushFront l e h = insertAfter l e l h"

definition list_PushBack :: "addr \<Rightarrow> addr \<Rightarrow> 'v store \<Rightarrow> 'v store option" where
  "list_PushBack l e h = insertAfter l e (prv h l) h"

definition list_InsertBefore :: "addr \<Rightarrow> addr \<Rightarrow> addr \<Rightarrow> 'v store \<Rightarrow> 'v store option" where
  "list_InsertBefore l e location h =
     (if location = nil then None
      else if lst h location = l then insertAfter l e (prv h location) h else Some h)"

definition list_InsertAfter :: "addr \<Rightarrow> addr \<Rightarrow> addr \<Rightarrow> 'v store \<Rightarrow> 'v store option" where
  "list_InsertAfter l e location h =
     (if location = nil then None
      else if lst h location = l then insertAfter l e location h else Some h)"

definition MoveToFront :: "addr \<Rightarrow> addr \<Rightarrow> 'v store \<Rightarrow> 'v store option" where
  "MoveToFront l e h = (if e \<noteq> nxt h l then moveAfter l e l h else Some h)"

definition MoveToBack :: "addr \<Rightarrow> addr \<Rightarrow> 'v store \<Rightarrow> 'v store option" where
  "MoveToBack l e h = moveAfter l e (prv h l) h"

definition MoveBefore :: "addr \<Rightarrow> addr \<Rightarrow> addr \<Rightarrow> 'v store \<Rightarrow> 'v store option" where
  "MoveBefore l e location h = (if e \<noteq> location then (if location = nil then None else moveAfter l e (prv h location) h) else Some h)"

definition MoveAfter :: "addr \<Rightarrow> addr \<Rightarrow> addr \<Rightarrow> 'v store \<Rightarrow> 'v store option" where
  "MoveAfter l e location h = moveAfter l e location h"

definition PushFront :: "addr \<Rightarrow> 'v \<Rightarrow> 'v store \<Rightarrow> 'v store option" where
  "PushFront l v h = (let (e, h) = alloc v h in list_PushFront l e h)"

definition PushBack :: "addr \<Rightarrow> 'v \<Rightarrow> 'v store \<Rightarrow> 'v store option" where
  "PushBack l v h = (let (e, h) = alloc v h in list_PushBack l e h)"

definition InsertBefore :: "addr \<Rightarrow> 'v \<Rightarrow> addr \<Rightarrow> 'v store \<Rightarrow> 'v store option" where
  "InsertBefore l v location h = (let (e, h) = alloc v h in list_InsertBefore l e location h)"

definition InsertAfter :: "addr \<Rightarrow> 'v \<Rightarrow> addr \<Rightarrow> 'v store \<Rightarrow> 'v store option" where
  "InsertAfter l v location h = (let (e, h) = alloc v h in list_InsertAfter l e location h)"

subsection \<open>Chains of links\<close>

fun chain :: "'v store \<Rightarrow> addr list \<Rightarrow> bool" where
  "chain h (a # b # r) \<longleftrightarrow> nxt h a = b \<and> prv h b = a \<and> chain h (b # r)"
| "chain h [a] \<longleftrightarrow> True"
| "chain h [] \<longleftrightarrow> True"

lemma chain_append: "chain h (xs @ a # ys) \<longleftrightarrow> chain h (xs @ [a]) \<and> chain h (a # ys)"
  by (induction xs rule: induct_list012) auto

lemma chain_Cons: "chain h (a # ys) \<longleftrightarrow> ys = [] \<or> nxt h a = hd ys \<and> prv h (hd ys) = a \<and> chain h ys"
  by (cases ys) auto

lemma chain_cong:
  assumes "\<And>a. a \<in> set (butlast xs) \<Longrightarrow> nxt h' a = nxt h a" "\<And>a. a \<in> set (tl xs) \<Longrightarrow> prv h' a = prv h a"
  shows "chain h' xs \<longleftrightarrow> chain h xs"
  using assms by (induction xs rule: induct_list012) auto

definition dlist :: "'v store \<Rightarrow> addr \<Rightarrow> addr list \<Rightarrow> bool" where
  "dlist h l xs \<longleftrightarrow> distinct (l # xs) \<and> nil \<notin> set (l # xs) \<and> chain h (l # xs @ [l]) \<and>
     (\<forall>a. lst h a = l \<longleftrightarrow> a \<in> set (l # xs)) \<and> llen h l = int (length xs)"

lemma dlistD:
  assumes "dlist h l xs"
  shows "distinct xs" "l \<notin> set xs" "nil \<notin> set xs" "l \<noteq> nil" "chain h (l # xs @ [l])"
    "lst h a = l \<longleftrightarrow> a = l \<or> a \<in> set xs" "llen h l = int (length xs)"
  using assms by (auto simp: dlist_def)

text \<open>The neighbours of an element, and of the sentinel.\<close>

lemma dlist_links:
  assumes "dlist h l (us @ vs)"
  shows "nxt h (last (l # us)) = hd (vs @ [l])" "prv h (hd (vs @ [l])) = last (l # us)"
proof -
  obtain ws z where z: "l # us = ws @ [z]" by (cases "l # us" rule: rev_cases) auto
  have "chain h ((l # us) @ vs @ [l])" using dlistD(5) [OF assms] by simp
  then have "chain h (z # vs @ [l])" unfolding z using chain_append [of h ws z "vs @ [l]"] by simp
  moreover have "last (l # us) = z" unfolding z by simp
  ultimately show "nxt h (last (l # us)) = hd (vs @ [l])" "prv h (hd (vs @ [l])) = last (l # us)"
    by (simp_all add: chain_Cons [of h z "vs @ [l]"])
qed

lemma dlist_empty_iff: "dlist h l xs \<Longrightarrow> llen h l = 0 \<longleftrightarrow> xs = []"
  by (simp add: dlistD(7))

lemma dlist_Front: "dlist h l xs \<Longrightarrow> Front l h = (if xs = [] then nil else hd xs)"
  using dlist_links(1) [of h l "[]" xs] by (auto simp: Front_def dlist_empty_iff)

lemma dlist_Back: "dlist h l xs \<Longrightarrow> Back l h = (if xs = [] then nil else last xs)"
  using dlist_links(2) [of h l xs "[]"] by (auto simp: Back_def dlist_empty_iff)

lemma dlist_Next:
  assumes "dlist h l (us @ e # vs)"
  shows "elem_Next e h = (if vs = [] then nil else hd vs)" "elem_Prev e h = (if us = [] then nil else last us)"
proof -
  have e: "lst h e = l" "l \<noteq> nil" "l \<notin> set us" "l \<notin> set vs" using assms by (auto simp: dlist_def)
  show "elem_Next e h = (if vs = [] then nil else hd vs)"
    using dlist_links(1) [of h l "us @ [e]" vs] assms e by (cases vs) (auto simp: elem_Next_def)
  show "elem_Prev e h = (if us = [] then nil else last us)"
    using dlist_links(2) [of h l us "e # vs"] assms e by (cases us rule: rev_cases) (auto simp: elem_Prev_def)
qed

lemma last_in: "last (l # us) = l \<or> last (l # us) \<in> set us"
  by auto

lemma hd_in: "hd (vs @ [l]) = l \<or> hd (vs @ [l]) \<in> set vs"
  by (cases vs) auto

lemma chain_replace_links:
  assumes "distinct (l # us @ vs)"
    and "chain h (l # us)" "chain h (vs @ [l])"
    and eq: "\<And>a. a \<noteq> last (l # us) \<Longrightarrow> a \<notin> E \<Longrightarrow> nxt h' a = nxt h a"
      "\<And>a. a \<noteq> hd (vs @ [l]) \<Longrightarrow> a \<notin> E \<Longrightarrow> prv h' a = prv h a"
    and "E \<inter> set (l # us @ vs) = {}"
  shows "chain h' (l # us)" "chain h' (vs @ [l])"
proof -
  have "last (l # us) \<notin> set (butlast (l # us))"
    using assms(1) by (metis append_butlast_last_id distinct.simps(2) distinct_append list.distinct(1)
        not_distinct_conv_prefix append_Cons)
  moreover have "hd (vs @ [l]) \<notin> set us" using hd_in [of vs l] assms(1) by auto
  moreover have "set (butlast (l # us)) \<subseteq> set (l # us)" by (meson in_set_butlastD subsetI)
  ultimately have "chain h' (l # us) \<longleftrightarrow> chain h (l # us)"
    using assms(6) by (intro chain_cong eq) auto
  then show "chain h' (l # us)" using assms(2) by blast
  have "last (l # us) \<notin> set vs" using last_in [of l us] assms(1) by auto
  moreover have "hd (vs @ [l]) \<notin> set (tl (vs @ [l]))" using assms(1) by (cases vs) auto
  moreover have "set (tl (vs @ [l])) \<subseteq> set (l # vs)" by (cases vs) auto
  ultimately have "chain h' (vs @ [l]) \<longleftrightarrow> chain h (vs @ [l])"
    using assms(6) by (intro chain_cong eq) auto
  then show "chain h' (vs @ [l])" using assms(3) by blast
qed

lemma chain_join:
  assumes "xs \<noteq> []" "ys \<noteq> []"
  shows "chain h (xs @ ys) \<longleftrightarrow>
    chain h xs \<and> chain h ys \<and> nxt h (last xs) = hd ys \<and> prv h (hd ys) = last xs"
  using assms by (induction xs rule: induct_list012) (auto simp: chain_Cons [of h _ ys])

text \<open>Linking an element into a represented list, and unlinking one.\<close>

lemma link_ok:
  assumes "distinct (l # us @ vs)" "nil \<notin> set (l # us @ vs)" "chain h (l # us @ vs @ [l])"
    and e: "e \<notin> set (l # us @ vs)" "e \<noteq> nil"
  defines "p \<equiv> last (l # us)" and "n \<equiv> hd (vs @ [l])"
  defines "h' \<equiv> h\<lparr>nxt := (nxt h)(e := n, p := e), prv := (prv h)(e := p, n := e)\<rparr>"
  shows "link e p h = Some h'" and "chain h' (l # us @ e # vs @ [l])"
proof -
  have ch: "chain h (l # us)" "chain h (vs @ [l])" "nxt h p = n" "prv h n = p"
    using assms(3) chain_join [of "l # us" "vs @ [l]" h] by (simp_all add: p_def n_def)
  have pn: "p \<in> set (l # us @ vs)" "n \<in> set (l # us @ vs)"
    using last_in [of l us] hd_in [of vs l] by (auto simp: p_def n_def)
  then have ne: "p \<noteq> nil" "n \<noteq> nil" "p \<noteq> e" "n \<noteq> e" using assms(2) e by auto
  show "link e p h = Some h'"
    using ne e ch(3) by (simp add: h'_def link_def setPrev_def setNext_def)
  have "chain h' (l # us)" "chain h' (vs @ [l])"
    using chain_replace_links [OF assms(1) ch(1,2), of "{e}" h'] e(1) by (auto simp: h'_def p_def n_def)
  moreover have "nxt h' e = n" "prv h' n = e" "nxt h' p = e" "prv h' e = p" using ne by (simp_all add: h'_def)
  ultimately show "chain h' (l # us @ e # vs @ [l])"
    using chain_join [of "l # us" "e # vs @ [l]" h'] chain_Cons [of h' e "vs @ [l]"]
    by (simp add: p_def [symmetric] n_def [symmetric] del: last.simps)
qed

lemma unlink_ok:
  assumes "distinct (l # us @ e # vs)" "nil \<notin> set (l # us @ e # vs)" "chain h (l # us @ e # vs @ [l])"
  defines "p \<equiv> last (l # us)" and "n \<equiv> hd (vs @ [l])"
  defines "h' \<equiv> h\<lparr>nxt := (nxt h)(p := n), prv := (prv h)(n := p)\<rparr>"
  shows "unlink e h = Some h'" and "chain h' (l # us @ vs @ [l])"
proof -
  have ch: "chain h (l # us)" "chain h (vs @ [l])" "nxt h p = e" "prv h e = p" "nxt h e = n" "prv h n = e"
    using assms(3) chain_join [of "l # us" "e # vs @ [l]" h] chain_Cons [of h e "vs @ [l]"]
    by (simp_all add: p_def n_def)
  have pn: "p \<in> set (l # us @ vs)" "n \<in> set (l # us @ vs)"
    using last_in [of l us] hd_in [of vs l] by (auto simp: p_def n_def)
  then have ne: "p \<noteq> nil" "n \<noteq> nil" "p \<noteq> e" "n \<noteq> e" using assms(1,2) by auto
  show "unlink e h = Some h'"
    using ne ch by (simp add: h'_def unlink_def setPrev_def setNext_def)
  have "chain h' (l # us)" "chain h' (vs @ [l])"
    using chain_replace_links [of l us vs h "{}" h'] ch(1,2) assms(1) by (auto simp: h'_def p_def n_def)
  moreover have "nxt h' p = n" "prv h' n = p" by (simp_all add: h'_def)
  ultimately show "chain h' (l # us @ vs @ [l])"
    using chain_join [of "l # us" "vs @ [l]" h'] by (simp add: p_def [symmetric] n_def [symmetric] del: last.simps)
qed

subsection \<open>The operations on represented lists\<close>

text \<open>
  \<open>list_frame l e h h'\<close>: an operation on the list \<open>l\<close> and the element \<open>e\<close> changed nothing else.
  Elements of other lists are therefore out of its reach.
\<close>

definition list_frame :: "addr \<Rightarrow> addr \<Rightarrow> 'v store \<Rightarrow> 'v store \<Rightarrow> bool" where
  "list_frame l e h h' \<longleftrightarrow> val h' = val h \<and> limit h' = limit h \<and>
     (\<forall>a. lst h a \<noteq> l \<longrightarrow> a \<noteq> e \<longrightarrow> nxt h' a = nxt h a \<and> prv h' a = prv h a) \<and>
     (\<forall>a. a \<noteq> e \<longrightarrow> lst h' a = lst h a) \<and> lst h' e \<in> {nil, l} \<and> (\<forall>m. m \<noteq> l \<longrightarrow> llen h' m = llen h m)"

lemma list_frame_dlist:
  assumes "list_frame l e h h'" "dlist h m ys" "m \<noteq> l" "lst h e \<in> {nil, l}"
  shows "dlist h' m ys"
proof -
  have m: "m \<noteq> nil" "\<And>a. lst h a = m \<longleftrightarrow> a \<in> set (m # ys)" using assms(2) by (auto simp: dlist_def)
  have e: "e \<notin> set (m # ys)" using m assms(3,4) by fastforce
  have same: "nxt h' a = nxt h a \<and> prv h' a = prv h a" if "a \<in> set (m # ys)" for a
    using that m(2) [of a] e assms(1,3) unfolding list_frame_def by metis
  have "chain h' (m # ys @ [m]) \<longleftrightarrow> chain h (m # ys @ [m])"
    using same by (intro chain_cong) (auto simp: butlast_append split: if_splits)
  moreover have "lst h' a = m \<longleftrightarrow> a \<in> set (m # ys)" for a
    using m e assms(1,3) unfolding list_frame_def by (cases "a = e") auto
  ultimately show ?thesis using assms(1-3) unfolding dlist_def list_frame_def by metis
qed

lemma insertAfter_ok:
  assumes "dlist h l (us @ vs)" "lst h e = nil" "e \<noteq> nil"
  obtains h' where "insertAfter l e (last (l # us)) h = Some h'" "dlist h' l (us @ e # vs)"
    "list_frame l e h h'" "lst h' = (lst h)(e := l)"
proof -
  have l: "distinct (l # us @ vs)" "nil \<notin> set (l # us @ vs)" "chain h (l # us @ vs @ [l])"
      "\<And>a. lst h a = l \<longleftrightarrow> a \<in> set (l # us @ vs)" "llen h l = int (length (us @ vs))"
    using assms(1) by (auto simp: dlist_def)
  have e: "e \<notin> set (l # us @ vs)" using l(2) l(4) [of e] assms(2) by auto
  define p n where "p = last (l # us)" and "n = hd (vs @ [l])"
  define h1 where "h1 = h\<lparr>nxt := (nxt h)(e := n, p := e), prv := (prv h)(e := p, n := e)\<rparr>"
  define h' where "h' = addLen l 1 (h1\<lparr>lst := (lst h)(e := l)\<rparr>)"
  note lk = link_ok [OF l(1-3) e assms(3), folded p_def n_def, folded h1_def]
  have "insertAfter l e p h = Some h'"
    using assms(2,3) by (simp add: insertAfter_def lk(1) setList_def h'_def h1_def)
  moreover have "chain h' (l # us @ e # vs @ [l]) \<longleftrightarrow> chain h1 (l # us @ e # vs @ [l])"
    by (rule chain_cong) (simp_all add: h'_def addLen_def)
  then have "dlist h' l (us @ e # vs)"
    using l e assms(3) lk(2) by (auto simp: dlist_def h'_def h1_def addLen_def)
  moreover have "p \<in> set (l # us @ vs)" "n \<in> set (l # us @ vs)"
    using last_in [of l us] hd_in [of vs l] by (auto simp: p_def n_def)
  then have "list_frame l e h h'"
    using l(4) by (auto simp: list_frame_def h'_def h1_def addLen_def)
  moreover have "lst h' = (lst h)(e := l)" by (simp add: h'_def addLen_def)
  ultimately show ?thesis using that by (simp add: p_def)
qed

lemma insertAfter_listed:
  "lst h e \<noteq> nil \<Longrightarrow> e \<noteq> nil \<Longrightarrow> insertAfter l e location h = Some h"
  by (simp add: insertAfter_def)

lemma list_Remove_ok:
  assumes "dlist h l (us @ e # vs)"
  obtains h' where "list_Remove l e h = Some h'" "dlist h' l (us @ vs)"
    "list_frame l e h h'" "lst h' = (lst h)(e := nil)"
proof -
  have l: "distinct (l # us @ e # vs)" "nil \<notin> set (l # us @ e # vs)" "chain h (l # us @ e # vs @ [l])"
      "\<And>a. lst h a = l \<longleftrightarrow> a \<in> set (l # us @ e # vs)" "llen h l = int (length (us @ e # vs))"
    using assms(1) by (auto simp: dlist_def)
  define p n where "p = last (l # us)" and "n = hd (vs @ [l])"
  define h1 where "h1 = h\<lparr>nxt := (nxt h)(p := n), prv := (prv h)(n := p)\<rparr>"
  define h' where "h' = addLen l (- 1) (h1\<lparr>nxt := (nxt h1)(e := nil), prv := (prv h1)(e := nil), lst := (lst h)(e := nil)\<rparr>)"
  note ul = unlink_ok [OF l(1-3), folded p_def n_def, folded h1_def]
  have "lst h e = l" "e \<noteq> nil" using l(2,4) by auto
  then have "list_Remove l e h = Some h'"
    by (simp add: list_Remove_def ul(1) setList_def setNext_def setPrev_def h'_def h1_def)
  moreover have "chain h' (l # us @ vs @ [l]) \<longleftrightarrow> chain h1 (l # us @ vs @ [l])"
    using l(1) by (intro chain_cong) (auto simp: h'_def addLen_def dest: in_set_butlastD)
  then have "dlist h' l (us @ vs)"
    using l ul(2) by (auto simp: dlist_def h'_def h1_def addLen_def)
  moreover have "p \<in> set (l # us @ vs)" "n \<in> set (l # us @ vs)"
    using last_in [of l us] hd_in [of vs l] by (auto simp: p_def n_def)
  then have "list_frame l e h h'"
    using l(4) by (auto simp: list_frame_def h'_def h1_def addLen_def)
  moreover have "lst h' = (lst h)(e := nil)" by (simp add: h'_def addLen_def)
  ultimately show ?thesis using that by blast
qed

lemma moveAfter_ok:
  assumes "dlist h l (us @ e # vs)" "us @ vs = as @ bs"
  obtains h' where "moveAfter l e (last (l # as)) h = Some h'" "dlist h' l (as @ e # bs)"
    "list_frame l e h h'" "lst h' = lst h"
proof -
  have l: "distinct (l # us @ e # vs)" "nil \<notin> set (l # us @ e # vs)" "chain h (l # us @ e # vs @ [l])"
      "\<And>a. lst h a = l \<longleftrightarrow> a \<in> set (l # us @ e # vs)" "llen h l = int (length (us @ e # vs))"
    using assms(1) by (auto simp: dlist_def)
  define p n where "p = last (l # us)" and "n = hd (vs @ [l])"
  define h1 where "h1 = h\<lparr>nxt := (nxt h)(p := n), prv := (prv h)(n := p)\<rparr>"
  note ul = unlink_ok [OF l(1-3), folded p_def n_def, folded h1_def]
  have sets: "set us \<union> set vs = set as \<union> set bs" by (metis assms(2) set_append)
  have eq: "as @ bs @ [l] = us @ vs @ [l]" using assms(2) by (metis append.assoc)
  have "distinct (us @ vs)" "nil \<notin> set (us @ vs)" "l \<notin> set (us @ vs)" using l(1,2) by auto
  then have "distinct (as @ bs)" "nil \<notin> set (as @ bs)" "l \<notin> set (as @ bs)" unfolding assms(2) .
  moreover have "l \<noteq> nil" "e \<noteq> nil" "e \<noteq> l" "e \<notin> set us \<union> set vs" using l(1,2) by auto
  ultimately have d: "distinct (l # as @ bs)" "nil \<notin> set (l # as @ bs)" "chain h1 (l # as @ bs @ [l])"
      "e \<notin> set (l # as @ bs)" "e \<noteq> nil"
    using ul(2) sets unfolding eq by auto
  define p' n' where "p' = last (l # as)" and "n' = hd (bs @ [l])"
  define h' where "h' = h1\<lparr>nxt := (nxt h1)(e := n', p' := e), prv := (prv h1)(e := p', n' := e)\<rparr>"
  note lk = link_ok [OF d, folded p'_def n'_def, folded h'_def]
  have in': "p \<in> set (l # us @ vs)" "n \<in> set (l # us @ vs)" "p' \<in> set (l # as @ bs)" "n' \<in> set (l # as @ bs)"
    using last_in [of l us] hd_in [of vs l] last_in [of l as] hd_in [of bs l]
    by (auto simp: p_def n_def p'_def n'_def)
  have "lst h e = l" "lst h p' = l" "p' \<noteq> nil" "e \<noteq> p'"
    using l(4) [of e] l(4) [of p'] in'(3) sets d by auto
  then have "moveAfter l e p' h = Some h'"
    using d(5) by (simp add: moveAfter_def ul(1) lk(1))
  moreover have "set (us @ e # vs) = set (as @ e # bs)" "length (us @ e # vs) = length (as @ e # bs)"
    using sets arg_cong [OF assms(2), of length] by auto
  then have "dlist h' l (as @ e # bs)"
    using l d lk(2) sets by (auto simp: dlist_def h'_def h1_def)
  moreover have "list_frame l e h h'"
    using l(4) in' sets by (auto simp: list_frame_def h'_def h1_def)
  moreover have "lst h' = lst h" by (simp add: h'_def h1_def)
  ultimately show ?thesis using that by (simp add: p'_def)
qed

text \<open>An element that is not in the list is left alone.\<close>

lemma list_Remove_other: "lst h e \<noteq> l \<Longrightarrow> e \<noteq> nil \<Longrightarrow> list_Remove l e h = Some h"
  by (simp add: list_Remove_def)

lemma moveAfter_other: "lst h e \<noteq> l \<Longrightarrow> e \<noteq> nil \<Longrightarrow> moveAfter l e location h = Some h"
  by (simp add: moveAfter_def)

lemma alloc_ok:
  assumes "alloc v h = (e, h')" "dlist h l xs" "\<forall>x \<in> set (l # xs). x < limit h" "0 < limit h"
  shows "dlist h' l xs" "lst h' e = nil" "e \<noteq> nil" "val h' e = v" "limit h' = Suc (limit h)" "e = limit h"
    "\<And>a. a \<noteq> e \<Longrightarrow> val h' a = val h a \<and> lst h' a = lst h a"
proof -
  have e: "e = limit h" and h': "h' = h\<lparr>nxt := (nxt h)(e := nil), prv := (prv h)(e := nil),
      lst := (lst h)(e := nil), val := (val h)(e := v), limit := Suc (limit h)\<rparr>"
    using assms(1) by (auto simp: alloc_def)
  have ne: "e \<notin> set (l # xs)" using assms(3) e by auto
  have "chain h' (l # xs @ [l]) \<longleftrightarrow> chain h (l # xs @ [l])"
    using ne by (intro chain_cong) (auto simp: h' butlast_append)
  then show "dlist h' l xs" using assms(2) ne by (auto simp: dlist_def h')
  show "lst h' e = nil" "val h' e = v" "limit h' = Suc (limit h)" by (simp_all add: h')
  show "e = limit h" by (rule e)
  show "e \<noteq> nil" using assms(4) by (simp add: e nil_def)
  show "val h' a = val h a \<and> lst h' a = lst h a" if "a \<noteq> e" for a using that by (simp add: h')
qed

lemma prv_sentinel: "dlist h l xs \<Longrightarrow> prv h l = last (l # xs)"
  using dlist_links(2) [of h l xs "[]"] by simp

lemma list_PushBack_ok:
  assumes "dlist h l xs" "lst h e = nil" "e \<noteq> nil"
  obtains h' where "list_PushBack l e h = Some h'" "dlist h' l (xs @ [e])"
    "list_frame l e h h'" "lst h' = (lst h)(e := l)"
  using insertAfter_ok [of h l xs "[]" e] assms by (auto simp: list_PushBack_def prv_sentinel)

lemma list_PushFront_ok:
  assumes "dlist h l xs" "lst h e = nil" "e \<noteq> nil"
  obtains h' where "list_PushFront l e h = Some h'" "dlist h' l (e # xs)"
    "list_frame l e h h'" "lst h' = (lst h)(e := l)"
  using insertAfter_ok [of h l "[]" xs e] assms by (auto simp: list_PushFront_def)

lemma MoveToBack_ok:
  assumes "dlist h l (us @ e # vs)"
  obtains h' where "MoveToBack l e h = Some h'" "dlist h' l (us @ vs @ [e])"
    "list_frame l e h h'" "lst h' = lst h"
proof (cases "vs = []")
  case True
  have "e \<noteq> nil" "lst h e = l" using assms by (auto simp: dlist_def)
  then have "MoveToBack l e h = Some h" "list_frame l e h h"
    using prv_sentinel [OF assms] True by (auto simp: MoveToBack_def moveAfter_def list_frame_def)
  then show ?thesis using that [of h] assms True by simp
next
  case False
  then have "prv h l = last (l # us @ vs)" using prv_sentinel [OF assms] by simp
  then show ?thesis
    using moveAfter_ok [OF assms, of "us @ vs" "[]"] that by (auto simp: MoveToBack_def)
qed

lemma MoveToFront_ok:
  assumes "dlist h l (us @ e # vs)"
  obtains h' where "MoveToFront l e h = Some h'" "dlist h' l (e # us @ vs)"
    "list_frame l e h h'" "lst h' = lst h"
proof (cases "us = []")
  case True
  have "lst h e = l" using assms by (auto simp: dlist_def)
  then have "MoveToFront l e h = Some h" "list_frame l e h h"
    using dlist_links(1) [of h l "[]" "e # vs"] assms True by (auto simp: MoveToFront_def list_frame_def)
  then show ?thesis using that [of h] assms True by simp
next
  case False
  have "nxt h l = hd us" using dlist_links(1) [of h l "[]" "us @ e # vs"] assms False by simp
  moreover have "hd us \<noteq> e" using assms False by (auto simp: dlist_def)
  ultimately show ?thesis
    using moveAfter_ok [OF assms, of "[]" "us @ vs"] that by (auto simp: MoveToFront_def)
qed

subsection \<open>Properties\<close>

text \<open>
  Inserting an element that is in no list: \<open>PushFront\<close>, \<open>PushBack\<close> and \<open>InsertAfter\<close> do not
  panic and insert it at the front, at the back and right after the given element of the
  represented list; every other list of the store is unchanged.
\<close>

theorem list_insertions:
  assumes "dlist h l (us @ x # vs)" "lst h e = nil" "e \<noteq> nil"
  shows "\<exists>h1 h2 h3. list_PushFront l e h = Some h1 \<and> dlist h1 l (e # us @ x # vs) \<and>
    list_PushBack l e h = Some h2 \<and> dlist h2 l (us @ x # vs @ [e]) \<and>
    list_InsertAfter l e x h = Some h3 \<and> dlist h3 l (us @ x # e # vs) \<and>
    (\<forall>m ys. m \<noteq> l \<and> dlist h m ys \<longrightarrow> dlist h1 m ys \<and> dlist h2 m ys \<and> dlist h3 m ys)"
proof -
  obtain h1 where 1: "list_PushFront l e h = Some h1" "dlist h1 l (e # us @ x # vs)" "list_frame l e h h1"
    using list_PushFront_ok [OF assms] by blast
  obtain h2 where 2: "list_PushBack l e h = Some h2" "dlist h2 l (us @ x # vs @ [e])" "list_frame l e h h2"
    using list_PushBack_ok [OF assms] by auto
  obtain h3 where 3: "insertAfter l e x h = Some h3" "dlist h3 l (us @ x # e # vs)" "list_frame l e h h3"
    using insertAfter_ok [of h l "us @ [x]" vs e] assms by auto
  have "list_InsertAfter l e x h = Some h3"
    using 3(1) assms(1) by (auto simp: list_InsertAfter_def dlist_def)
  moreover have "dlist h1 m ys \<and> dlist h2 m ys \<and> dlist h3 m ys" if "m \<noteq> l" "dlist h m ys" for m ys
    using that assms(2) list_frame_dlist [OF 1(3) that(2,1)] list_frame_dlist [OF 2(3) that(2,1)]
      list_frame_dlist [OF 3(3) that(2,1)] by simp
  ultimately show ?thesis using 1(1,2) 2(1,2) 3(2) by blast
qed

text \<open>
  C39.  Removing and moving an element of the list: \<open>Remove\<close>, \<open>MoveToFront\<close> and \<open>MoveToBack\<close> do not
  panic and take it out, or put it first or last, without touching the order of the others or any
  other list of the store.
\<close>

theorem list_removal_and_moves:
  assumes "dlist h l (us @ e # vs)"
  shows "\<exists>h1 h2 h3. list_Remove l e h = Some h1 \<and> dlist h1 l (us @ vs) \<and> lst h1 e = nil \<and>
    MoveToFront l e h = Some h2 \<and> dlist h2 l (e # us @ vs) \<and>
    MoveToBack l e h = Some h3 \<and> dlist h3 l (us @ vs @ [e]) \<and>
    (\<forall>m ys. m \<noteq> l \<and> dlist h m ys \<longrightarrow> dlist h1 m ys \<and> dlist h2 m ys \<and> dlist h3 m ys)"
proof -
  have e: "lst h e = l" using assms by (auto simp: dlist_def)
  obtain h1 where 1: "list_Remove l e h = Some h1" "dlist h1 l (us @ vs)" "list_frame l e h h1"
      "lst h1 = (lst h)(e := nil)"
    using list_Remove_ok [OF assms] by blast
  have nl: "lst h1 e = nil" by (simp add: 1(4))
  obtain h2 where 2: "MoveToFront l e h = Some h2" "dlist h2 l (e # us @ vs)" "list_frame l e h h2"
    using MoveToFront_ok [OF assms] by blast
  obtain h3 where 3: "MoveToBack l e h = Some h3" "dlist h3 l (us @ vs @ [e])" "list_frame l e h h3"
    using MoveToBack_ok [OF assms] by blast
  have "dlist h1 m ys \<and> dlist h2 m ys \<and> dlist h3 m ys" if "m \<noteq> l" "dlist h m ys" for m ys
    using that e list_frame_dlist [OF 1(3) that(2,1)] list_frame_dlist [OF 2(3) that(2,1)]
      list_frame_dlist [OF 3(3) that(2,1)] by simp
  then show ?thesis using 1(1,2) nl 2(1,2) 3(1,2) by blast
qed

text \<open>
  C40.  \<open>MoveBefore\<close> dereferences \<open>nil\<close> when \<open>e\<close> is in the list and \<open>location\<close> is an element of no
  list, although its comment says that the list is then not modified.
\<close>

theorem MoveBefore_detached_panics:
  assumes "dlist h l xs" "e \<in> set xs" "location \<noteq> e" "location \<noteq> nil" "prv h location = nil"
  shows "MoveBefore l e location h = None"
  using assms by (auto simp: MoveBefore_def moveAfter_def dlist_def)

text \<open>A list of two elements with a third element outside of it, used by the witnesses.\<close>

definition sample_store :: "int store" where
  "sample_store = \<lparr>nxt = (\<lambda>_. 0)(1 := 2, 2 := 3, 3 := 1), prv = (\<lambda>_. 0)(1 := 3, 2 := 1, 3 := 2),
     lst = (\<lambda>_. 0)(1 := 1, 2 := 1, 3 := 1), val = (\<lambda>_. 0), llen = (\<lambda>_. 0)(1 := 2), limit = 5\<rparr>"

lemma sample_dlist: "dlist sample_store 1 [2, 3]"
  by (auto simp: dlist_def sample_store_def nil_def)

lemma sample_nil: "lst sample_store 4 = nil" "prv sample_store 4 = nil" "4 \<noteq> nil"
  by (simp_all add: sample_store_def nil_def)

theorem list_insertions_witness: "\<exists>h. list_InsertAfter 1 4 2 sample_store = Some h \<and> dlist h 1 [2, 4, 3]"
  using list_insertions [of sample_store 1 "[]" 2 "[3]" 4] sample_dlist sample_nil by auto

theorem list_removal_and_moves_witness:
  "\<exists>h. MoveToBack 1 2 sample_store = Some h \<and> dlist h 1 [3, 2]"
  using list_removal_and_moves [of sample_store 1 "[]" 2 "[3]"] sample_dlist by auto

theorem MoveBefore_detached_panics_witness: "MoveBefore 1 2 4 sample_store = None"
  using MoveBefore_detached_panics [OF sample_dlist, of 2 4] sample_nil by simp

end
