(* ===== verification/LinkedHashmap.thy ===== *)
theory LinkedHashmap
  imports LinkedList
begin

text \<open>
  The hash map that remembers insertion order (\<open>src/utils/linked/hashmap.go\<close>): a Go map from keys
  to elements of a linked list, the list itself, and a stack of free elements that are reused.  The
  elements of a map are never shared with another one, so its store is a field of the record.
  \<open>zero\<close> stands for the zero value of the key-value struct.

  \<open>hm_rep m kvs\<close> says that \<open>m\<close> holds the entries \<open>kvs\<close>, oldest first.  The interface \<open>ordered_map\<close>
  states what the map promises, independently of elements and free lists.
\<close>

record ('k, 'v) hashmap =
  heap :: "('k \<times> 'v) store"
  entryMap :: "('k, addr) gomap"
  entryList :: addr
  freeList :: "addr list"

definition empty_store :: "'v \<Rightarrow> 'v store" where
  "empty_store zero = \<lparr>nxt = (\<lambda>_. nil), prv = (\<lambda>_. nil), lst = (\<lambda>_. nil), val = (\<lambda>_. zero),
     llen = (\<lambda>_. 0), limit = 1\<rparr>"

fun alloc_many :: "nat \<Rightarrow> 'v \<Rightarrow> 'v store \<Rightarrow> addr list \<times> 'v store" where
  "alloc_many 0 v h = ([], h)"
| "alloc_many (Suc n) v h = (let (e, h) = alloc v h; (es, h) = alloc_many n v h in (e # es, h))"

definition NewHashmapWithSize :: "'k \<times> 'v \<Rightarrow> nat \<Rightarrow> ('k, 'v) hashmap" where
  "NewHashmapWithSize zero initialSize =
     (let (l, h) = NewList zero (empty_store zero);
          (es, h) = alloc_many initialSize zero h
      in \<lparr>heap = h, entryMap = [], entryList = l, freeList = es\<rparr>)"

definition NewHashmap :: "'k \<times> 'v \<Rightarrow> ('k, 'v) hashmap" where
  "NewHashmap zero = NewHashmapWithSize zero 0"

definition setVal :: "addr \<Rightarrow> 'v \<Rightarrow> 'v store \<Rightarrow> 'v store" where
  "setVal e v h = h\<lparr>val := (val h)(e := v)\<rparr>"

definition hm_Put :: "'k \<times> 'v \<Rightarrow> 'k \<Rightarrow> 'v \<Rightarrow> ('k, 'v) hashmap \<Rightarrow> ('k, 'v) hashmap option" where
  "hm_Put zero key value lh =
     (case mget (entryMap lh) key of
        Some e \<Rightarrow> do {
          h \<leftarrow> MoveToBack (entryList lh) e (heap lh);
          Some (lh\<lparr>heap := setVal e (key, value) h\<rparr>) }
      | None \<Rightarrow>
          let (e, free, h) =
            (if freeList lh \<noteq> [] then (last (freeList lh), butlast (freeList lh), heap lh)
             else let (e, h) = alloc zero (heap lh) in (e, [], h))
          in do {
            h \<leftarrow> list_PushBack (entryList lh) e (setVal e (key, value) h);
            Some (lh\<lparr>heap := h, entryMap := mput key e (entryMap lh), freeList := free\<rparr>) })"

definition hm_Get :: "'k \<Rightarrow> ('k, 'v) hashmap \<Rightarrow> 'v option" where
  "hm_Get key lh = map_option (\<lambda>e. snd (val (heap lh) e)) (mget (entryMap lh) key)"

definition hm_remove :: "'k \<times> 'v \<Rightarrow> addr \<Rightarrow> ('k, 'v) hashmap \<Rightarrow> ('k, 'v) hashmap option" where
  "hm_remove zero e lh = do {
     h \<leftarrow> list_Remove (entryList lh) e (heap lh);
     Some (lh\<lparr>entryMap := mdel (fst (val (heap lh) e)) (entryMap lh), heap := setVal e zero h,
              freeList := freeList lh @ [e]\<rparr>) }"

definition hm_Delete :: "'k \<times> 'v \<Rightarrow> 'k \<Rightarrow> ('k, 'v) hashmap \<Rightarrow> (bool \<times> ('k, 'v) hashmap) option" where
  "hm_Delete zero key lh =
     (case mget (entryMap lh) key of
        Some e \<Rightarrow> do { lh \<leftarrow> hm_remove zero e lh; Some (True, lh) }
      | None \<Rightarrow> Some (False, lh))"

fun remove_all :: "'k \<times> 'v \<Rightarrow> addr list \<Rightarrow> ('k, 'v) hashmap \<Rightarrow> ('k, 'v) hashmap option" where
  "remove_all zero [] lh = Some lh"
| "remove_all zero (e # es) lh = do { lh \<leftarrow> hm_remove zero e lh; remove_all zero es lh }"

definition hm_Clear :: "'k \<times> 'v \<Rightarrow> ('k, 'v) hashmap \<Rightarrow> ('k, 'v) hashmap option" where
  "hm_Clear zero lh = remove_all zero (map snd (entryMap lh)) lh"

definition hm_Len :: "('k, 'v) hashmap \<Rightarrow> int" where
  "hm_Len lh = int (length (entryMap lh))"

definition Oldest :: "('k, 'v) hashmap \<Rightarrow> ('k \<times> 'v) option" where
  "Oldest lh = (let e = Front (entryList lh) (heap lh) in if e \<noteq> nil then Some (val (heap lh) e) else None)"

definition Newest :: "('k, 'v) hashmap \<Rightarrow> ('k \<times> 'v) option" where
  "Newest lh = (let e = Back (entryList lh) (heap lh) in if e \<noteq> nil then Some (val (heap lh) e) else None)"

text \<open>The iterator; \<open>it_Next\<close> returns its result and the advanced iterator, \<open>None\<close> on a nil dereference.\<close>

record ('k, 'v) iterator =
  it_entry :: "'k \<times> 'v"
  it_next :: addr
  initialized :: bool
  exhausted :: bool

definition NewIterator :: "'k \<times> 'v \<Rightarrow> ('k, 'v) iterator" where
  "NewIterator zero = \<lparr>it_entry = zero, it_next = nil, initialized = False, exhausted = False\<rparr>"

definition it_Next ::
  "'k \<times> 'v \<Rightarrow> ('k, 'v) hashmap \<Rightarrow> ('k, 'v) iterator \<Rightarrow> (bool \<times> ('k, 'v) iterator) option" where
  "it_Next zero lh it =
     (let oldest = Front (entryList lh) (heap lh) in
      if exhausted it then Some (False, it\<lparr>it_entry := zero, it_next := nil\<rparr>)
      else if \<not> initialized it \<and> oldest = nil then
        Some (False, it\<lparr>initialized := True, exhausted := True, it_entry := zero, it_next := nil\<rparr>)
      else
        let it = (if \<not> initialized it then it\<lparr>initialized := True, it_next := oldest\<rparr> else it);
            e = it_next it
        in if e = nil then None
           else let n = elem_Next e (heap lh)
                in Some (True, it\<lparr>it_entry := val (heap lh) e, it_next := n, exhausted := (n = nil)\<rparr>))"

subsection \<open>The representation invariant\<close>

definition hm_inv :: "('k, 'v) hashmap \<Rightarrow> addr list \<Rightarrow> bool" where
  "hm_inv lh xs \<longleftrightarrow> dlist (heap lh) (entryList lh) xs \<and>
     (\<forall>x \<in> set (entryList lh # xs @ freeList lh). x < limit (heap lh)) \<and>
     distinct (freeList lh) \<and> (\<forall>f \<in> set (freeList lh). f \<noteq> nil \<and> lst (heap lh) f = nil) \<and>
     wf_map (entryMap lh) \<and>
     (\<forall>k a. mget (entryMap lh) k = Some a \<longleftrightarrow> a \<in> set xs \<and> fst (val (heap lh) a) = k)"

definition hm_rep :: "('k, 'v) hashmap \<Rightarrow> ('k \<times> 'v) list \<Rightarrow> bool" where
  "hm_rep lh kvs \<longleftrightarrow> (\<exists>xs. hm_inv lh xs \<and> kvs = map (val (heap lh)) xs)"

lemma hm_invD:
  assumes "hm_inv lh xs"
  shows "dlist (heap lh) (entryList lh) xs" "\<And>x. x \<in> set xs \<Longrightarrow> x < limit (heap lh)"
    "entryList lh < limit (heap lh)" "\<And>f. f \<in> set (freeList lh) \<Longrightarrow> f \<noteq> nil \<and> lst (heap lh) f = nil \<and> f < limit (heap lh)"
    "distinct (freeList lh)" "wf_map (entryMap lh)" "0 < limit (heap lh)"
    "mget (entryMap lh) k = Some a \<longleftrightarrow> a \<in> set xs \<and> fst (val (heap lh) a) = k"
  using assms by (auto simp: hm_inv_def dlist_def nil_def)

lemma hm_inv_keys:
  assumes "hm_inv lh xs"
  shows "inj_on (\<lambda>a. fst (val (heap lh) a)) (set xs)" "distinct (map fst (map (val (heap lh)) xs))"
    "mget (entryMap lh) k = None \<longleftrightarrow> (\<forall>a \<in> set xs. fst (val (heap lh) a) \<noteq> k)"
proof -
  note map = hm_invD(8) [OF assms]
  show inj: "inj_on (\<lambda>a. fst (val (heap lh) a)) (set xs)"
    by (rule inj_onI) (metis map option.inject)
  have "distinct xs" using hm_invD(1) [OF assms] by (simp add: dlist_def)
  then show "distinct (map fst (map (val (heap lh)) xs))"
    using inj by (simp add: distinct_map comp_def)
  show "mget (entryMap lh) k = None \<longleftrightarrow> (\<forall>a \<in> set xs. fst (val (heap lh) a) \<noteq> k)"
    using map [of k] by (cases "mget (entryMap lh) k") auto
qed

lemma map_of_split:
  assumes "distinct (map fst kvs)" "kvs = us @ (k, v) # vs"
  shows "map_of kvs k = Some v" "AList.delete k kvs = us @ vs"
proof -
  show "map_of kvs k = Some v" using assms by (intro map_of_is_SomeI) simp_all
  have "\<And>b. (k, b) \<notin> set us" "\<And>b. (k, b) \<notin> set vs" using assms by (auto simp: image_iff)
  then have "filter (\<lambda>(k', _). k \<noteq> k') us = us" "filter (\<lambda>(k', _). k \<noteq> k') vs = vs"
    by (auto intro!: filter_True)
  then show "AList.delete k kvs = us @ vs" unfolding assms(2) AList.delete_eq by simp
qed

lemma hm_Get_rep: "hm_rep lh kvs \<Longrightarrow> hm_Get k lh = map_of kvs k"
proof -
  assume "hm_rep lh kvs"
  then obtain xs where xs: "hm_inv lh xs" "kvs = map (val (heap lh)) xs" by (auto simp: hm_rep_def)
  show ?thesis
  proof (cases "mget (entryMap lh) k")
    case None
    then have "\<forall>a \<in> set xs. fst (val (heap lh) a) \<noteq> k" using hm_inv_keys(3) [OF xs(1)] by blast
    then have "map_of kvs k = None" by (auto simp: map_of_eq_None_iff xs(2))
    then show ?thesis by (simp add: hm_Get_def None)
  next
    case (Some a)
    then have a: "a \<in> set xs" "fst (val (heap lh) a) = k" using hm_invD(8) [OF xs(1)] by auto
    then have "(k, snd (val (heap lh) a)) \<in> set kvs" unfolding xs(2) by (metis image_eqI image_set prod.collapse)
    then have "map_of kvs k = Some (snd (val (heap lh) a))"
      using hm_inv_keys(2) [OF xs(1)] xs(2) by simp
    then show ?thesis by (simp add: hm_Get_def Some)
  qed
qed

lemma chain_setVal [simp]: "chain (setVal e v h) xs = chain h xs"
  by (rule chain_cong) (simp_all add: setVal_def)

lemma dlist_setVal [simp]: "dlist (setVal e v h) l xs = dlist h l xs"
  by (simp add: dlist_def) (simp add: setVal_def)

lemma setVal_simps [simp]:
  "lst (setVal e v h) = lst h" "limit (setVal e v h) = limit h" "val (setVal e v h) = (val h)(e := v)"
  by (simp_all add: setVal_def)

lemma list_frame_simps: "list_frame l e h h' \<Longrightarrow> val h' = val h" "list_frame l e h h' \<Longrightarrow> limit h' = limit h"
  by (simp_all add: list_frame_def)

text \<open>\<open>Put\<close> on a key that is present moves its element to the back and overwrites it.\<close>

lemma hm_Put_present:
  assumes "hm_inv lh xs" "mget (entryMap lh) k = Some e"
  shows "\<exists>lh'. hm_Put zero k v lh = Some lh' \<and> hm_rep lh' (AList.delete k (map (val (heap lh)) xs) @ [(k, v)])"
proof -
  note inv = hm_invD [OF assms(1)]
  have e: "e \<in> set xs" "fst (val (heap lh) e) = k" using inv(8) assms(2) by auto
  then obtain us vs where xs: "xs = us @ e # vs" by (meson split_list)
  have d: "distinct xs" using inv(1) by (simp add: dlist_def)
  obtain h' where h': "MoveToBack (entryList lh) e (heap lh) = Some h'" "dlist h' (entryList lh) (us @ vs @ [e])"
      "list_frame (entryList lh) e (heap lh) h'" "lst h' = lst (heap lh)"
    using MoveToBack_ok inv(1) unfolding xs by blast
  note fr = list_frame_simps [OF h'(3)]
  define lh' where "lh' = lh\<lparr>heap := setVal e (k, v) h'\<rparr>"
  have keys: "fst (val (heap lh) a) \<noteq> k" if "a \<in> set (us @ vs)" for a
    using hm_inv_keys(1) [OF assms(1)] that e d unfolding xs inj_on_def by auto
  have "hm_inv lh' (us @ vs @ [e])"
    using h' inv fr keys e d unfolding hm_inv_def lh'_def xs by auto
  moreover have "map (val (heap lh')) (us @ vs @ [e]) = AList.delete k (map (val (heap lh)) xs) @ [(k, v)]"
  proof -
    have "val (heap lh) e = (k, snd (val (heap lh) e))" using e(2) by (metis prod.collapse)
    then have "AList.delete k (map (val (heap lh)) xs) = map (val (heap lh)) us @ map (val (heap lh)) vs"
      using hm_inv_keys(2) [OF assms(1)] by (intro map_of_split(2)) (simp_all add: xs)
    moreover have "e \<notin> set us" "e \<notin> set vs" using d by (auto simp: xs)
    ultimately show ?thesis by (simp add: lh'_def fr)
  qed
  moreover have "hm_Put zero k v lh = Some lh'" by (simp add: hm_Put_def assms(2) h'(1) lh'_def)
  ultimately show ?thesis unfolding hm_rep_def by metis
qed

text \<open>An element for a new entry: the last free one, or a fresh one.\<close>

definition take_free :: "'k \<times> 'v \<Rightarrow> ('k, 'v) hashmap \<Rightarrow> addr \<times> addr list \<times> ('k \<times> 'v) store" where
  "take_free zero lh =
     (if freeList lh \<noteq> [] then (last (freeList lh), butlast (freeList lh), heap lh)
      else let (e, h) = alloc zero (heap lh) in (e, [], h))"

lemma take_free_ok:
  assumes "hm_inv lh xs" "take_free zero lh = (e, free, h)"
  shows "dlist h (entryList lh) xs" "lst h e = nil" "e \<noteq> nil" "e \<notin> set free" "e \<notin> set xs" "distinct free"
    "\<And>f. f \<in> set free \<Longrightarrow> f \<noteq> nil \<and> lst h f = nil" "\<And>a. a \<in> set xs \<Longrightarrow> val h a = val (heap lh) a"
    "\<And>x. x \<in> set (e # entryList lh # xs @ free) \<Longrightarrow> x < limit h"
proof -
  note inv = hm_invD [OF assms(1)]
  have *: "dlist h (entryList lh) xs \<and> lst h e = nil \<and> e \<noteq> nil \<and> e \<notin> set free \<and> distinct free \<and>
    (\<forall>f \<in> set free. f \<noteq> nil \<and> lst h f = nil) \<and> (\<forall>a \<in> set xs. val h a = val (heap lh) a) \<and>
    (\<forall>x \<in> set (e # entryList lh # xs @ free). x < limit h)"
  proof (cases "freeList lh" rule: rev_cases)
    case Nil
    then have al: "alloc zero (heap lh) = (e, h)" "free = []"
      using assms(2) by (auto simp: take_free_def split: prod.splits)
    have "\<forall>x \<in> set (entryList lh # xs). x < limit (heap lh)" using inv(2,3) by auto
    note ao = alloc_ok [OF al(1) inv(1) this inv(7)]
    have "val h a = val (heap lh) a" if "a \<in> set xs" for a
      using ao(6) ao(7) [of a] inv(2) [OF that] by auto
    then show ?thesis using ao(1-6) inv(2,3) al(2) by (auto simp: less_Suc_eq)
  next
    case (snoc fs f)
    then have "e = f" "free = fs" "h = heap lh" using assms(2) by (auto simp: take_free_def)
    then show ?thesis using inv(1-5) snoc by auto
  qed
  then show "dlist h (entryList lh) xs" "lst h e = nil" "e \<noteq> nil" "e \<notin> set free" "distinct free"
    "\<And>f. f \<in> set free \<Longrightarrow> f \<noteq> nil \<and> lst h f = nil" "\<And>a. a \<in> set xs \<Longrightarrow> val h a = val (heap lh) a"
    "\<And>x. x \<in> set (e # entryList lh # xs @ free) \<Longrightarrow> x < limit h" by auto
  show "e \<notin> set xs" using * dlistD(4) [of h "entryList lh" xs] dlistD(6) [of h "entryList lh" xs e] by metis
qed

lemma hm_Put_absent:
  assumes "hm_inv lh xs" "mget (entryMap lh) k = None"
  shows "\<exists>lh'. hm_Put zero k v lh = Some lh' \<and> hm_rep lh' (map (val (heap lh)) xs @ [(k, v)])"
proof -
  note inv = hm_invD [OF assms(1)]
  obtain e free h where tf: "take_free zero lh = (e, free, h)" by (rule prod_cases3)
  note tk = take_free_ok [OF assms(1) tf]
  obtain h' where h': "list_PushBack (entryList lh) e (setVal e (k, v) h) = Some h'"
      "dlist h' (entryList lh) (xs @ [e])" "list_frame (entryList lh) e (setVal e (k, v) h) h'"
      "lst h' = (lst (setVal e (k, v) h))(e := entryList lh)"
    using list_PushBack_ok [of "setVal e (k, v) h" "entryList lh" xs e] tk(1-3) by auto
  note fr = list_frame_simps [OF h'(3)]
  define lh' where "lh' = lh\<lparr>heap := h', entryMap := mput k e (entryMap lh), freeList := free\<rparr>"
  have put: "hm_Put zero k v lh = Some lh'"
    using h'(1) by (simp add: hm_Put_def assms(2) take_free_def [symmetric] tf lh'_def)
  have valx: "val h' a = val (heap lh) a" if "a \<in> set xs" for a using that tk(5,8) fr by auto
  have absent: "fst (val (heap lh) a) \<noteq> k" if "a \<in> set xs" for a
    using hm_inv_keys(3) [OF assms(1), of k] assms(2) that by blast
  have "mget (mput k e (entryMap lh)) k' = Some a \<longleftrightarrow> a \<in> set (xs @ [e]) \<and> fst (val h' a) = k'" for k' a
    using inv(8) [of k' a] absent valx [of a] tk(5) fr by (cases "a = e") auto
  moreover have "x < limit h'" if "x \<in> set (entryList lh # (xs @ [e]) @ free)" for x
    using that tk(9) fr by auto
  moreover have "f \<noteq> nil \<and> lst h' f = nil" if "f \<in> set free" for f
    using that tk(4,7) h'(4) by auto
  ultimately have "hm_inv lh' (xs @ [e])"
    using h'(2) tk(6) inv(6) by (simp add: hm_inv_def lh'_def)
  moreover have "map (val (heap lh')) (xs @ [e]) = map (val (heap lh)) xs @ [(k, v)]"
    using valx fr by (auto simp: lh'_def)
  ultimately show ?thesis unfolding hm_rep_def put by metis
qed

lemma hm_Put_rep:
  assumes "hm_rep lh kvs"
  shows "\<exists>lh'. hm_Put zero k v lh = Some lh' \<and> hm_rep lh' (AList.delete k kvs @ [(k, v)])"
proof -
  obtain xs where xs: "hm_inv lh xs" "kvs = map (val (heap lh)) xs" using assms by (auto simp: hm_rep_def)
  show ?thesis
  proof (cases "mget (entryMap lh) k")
    case None
    then have "AList.delete k kvs = kvs"
      using hm_inv_keys(3) [OF xs(1), of k] by (auto simp: xs(2) AList.delete_eq filter_id_conv)
    then show ?thesis using hm_Put_absent [OF xs(1) None, of zero v] by (simp add: xs(2))
  next
    case (Some e)
    then show ?thesis using hm_Put_present [OF xs(1) Some] by (simp add: xs(2))
  qed
qed

lemma hm_remove_ok:
  assumes "hm_inv lh (us @ e # vs)"
  shows "\<exists>lh'. hm_remove zero e lh = Some lh' \<and> hm_inv lh' (us @ vs) \<and> entryList lh' = entryList lh \<and>
    map (val (heap lh')) (us @ vs) = map (val (heap lh)) (us @ vs) \<and>
    entryMap lh' = mdel (fst (val (heap lh) e)) (entryMap lh) \<and>
    (\<forall>a \<in> set (us @ vs). val (heap lh') a = val (heap lh) a)"
proof -
  note inv = hm_invD [OF assms]
  obtain h' where h': "list_Remove (entryList lh) e (heap lh) = Some h'" "dlist h' (entryList lh) (us @ vs)"
      "list_frame (entryList lh) e (heap lh) h'" "lst h' = (lst (heap lh))(e := nil)"
    using list_Remove_ok [OF inv(1)] by blast
  note fr = list_frame_simps [OF h'(3)]
  have d: "distinct (us @ e # vs)" "e \<noteq> nil" "lst (heap lh) e = entryList lh" "entryList lh \<noteq> nil"
    using inv(1) by (auto simp: dlist_def)
  define lh' where "lh' = lh\<lparr>entryMap := mdel (fst (val (heap lh) e)) (entryMap lh), heap := setVal e zero h',
      freeList := freeList lh @ [e]\<rparr>"
  have rm: "hm_remove zero e lh = Some lh'" by (simp add: hm_remove_def h'(1) lh'_def)
  have vals: "val (heap lh') a = val (heap lh) a" if "a \<in> set (us @ vs)" for a
    using that d fr by (auto simp: lh'_def)
  have keys: "fst (val (heap lh) a) \<noteq> fst (val (heap lh) e)" if "a \<in> set (us @ vs)" for a
    using hm_inv_keys(1) [OF assms] that d(1) by (auto simp: inj_on_def)
  have "mget (entryMap lh') k = Some a \<longleftrightarrow> a \<in> set (us @ vs) \<and> fst (val (heap lh') a) = k" for k a
    using inv(8) [of k a] keys [of a] vals [of a] by (auto simp: lh'_def)
  moreover have "e \<notin> set (freeList lh)" using inv(4) [of e] d(3,4) by auto
  moreover have "f \<noteq> nil \<and> lst h' f = nil" if "f \<in> set (freeList lh @ [e])" for f
    using that inv(4) d(2) h'(4) by auto
  ultimately have "hm_inv lh' (us @ vs)"
    using h'(2) inv(2-6) fr by (auto simp: hm_inv_def lh'_def)
  then show ?thesis using rm vals by (auto simp: lh'_def)
qed

lemma hm_Delete_rep:
  assumes "hm_rep lh kvs"
  shows "\<exists>lh'. hm_Delete zero k lh = Some (k \<in> fst ` set kvs, lh') \<and> hm_rep lh' (AList.delete k kvs)"
proof -
  obtain xs where xs: "hm_inv lh xs" "kvs = map (val (heap lh)) xs" using assms by (auto simp: hm_rep_def)
  show ?thesis
  proof (cases "mget (entryMap lh) k")
    case None
    then have "AList.delete k kvs = kvs" "k \<notin> fst ` set kvs"
      using hm_inv_keys(3) [OF xs(1), of k] by (auto simp: xs(2) AList.delete_eq filter_id_conv)
    then show ?thesis using assms by (simp add: hm_Delete_def None)
  next
    case (Some e)
    then have e: "e \<in> set xs" "fst (val (heap lh) e) = k" using hm_invD(8) [OF xs(1)] by auto
    then obtain us vs where uv: "xs = us @ e # vs" by (meson split_list)
    obtain lh' where lh': "hm_remove zero e lh = Some lh'" "hm_inv lh' (us @ vs)"
        "map (val (heap lh')) (us @ vs) = map (val (heap lh)) (us @ vs)"
      using hm_remove_ok [of lh us e vs zero] xs(1) unfolding uv by metis
    have "val (heap lh) e = (k, snd (val (heap lh) e))" using e(2) by (metis prod.collapse)
    then have "AList.delete k kvs = map (val (heap lh)) us @ map (val (heap lh)) vs"
      using hm_inv_keys(2) [OF xs(1)] by (intro map_of_split(2)) (simp_all add: uv xs(2))
    then have "hm_rep lh' (AList.delete k kvs)"
      using lh'(2,3) unfolding hm_rep_def by (metis map_append)
    moreover have "k \<in> fst ` set kvs" using e by (auto simp: xs(2))
    ultimately show ?thesis using lh'(1) by (simp add: hm_Delete_def Some)
  qed
qed

lemma hm_Len_rep: "hm_rep lh kvs \<Longrightarrow> hm_Len lh = int (length kvs)"
proof -
  assume "hm_rep lh kvs"
  then obtain xs where xs: "hm_inv lh xs" "kvs = map (val (heap lh)) xs" by (auto simp: hm_rep_def)
  note inv = hm_invD [OF xs(1)]
  let ?key = "\<lambda>a. fst (val (heap lh) a)"
  have "fst ` set (entryMap lh) = ?key ` set xs"
  proof -
    have "k \<in> fst ` set (entryMap lh) \<longleftrightarrow> (\<exists>a. mget (entryMap lh) k = Some a)" for k
      using mget_Some_key key_mget_Some by metis
    then have "k \<in> fst ` set (entryMap lh) \<longleftrightarrow> k \<in> ?key ` set xs" for k using inv(8) by (auto simp: image_iff)
    then show ?thesis by blast
  qed
  then have "card (fst ` set (entryMap lh)) = card (set xs)"
    using card_image [OF hm_inv_keys(1) [OF xs(1)]] by simp
  moreover have "card (fst ` set (entryMap lh)) = length (entryMap lh)"
    using inv(6) by (metis distinct_card length_map set_map)
  moreover have "card (set xs) = length xs" using inv(1) by (simp add: dlist_def distinct_card)
  ultimately show ?thesis by (simp add: hm_Len_def xs(2))
qed

lemma hm_rep_ends:
  assumes "hm_rep lh kvs"
  shows "Oldest lh = (if kvs = [] then None else Some (hd kvs))"
    and "Newest lh = (if kvs = [] then None else Some (last kvs))"
proof -
  obtain xs where xs: "hm_inv lh xs" "kvs = map (val (heap lh)) xs" using assms by (auto simp: hm_rep_def)
  note d = hm_invD(1) [OF xs(1)]
  have "hd xs \<noteq> nil" "last xs \<noteq> nil" if "xs \<noteq> []"
    using that dlistD(3) [OF d] hd_in_set [OF that] last_in_set [OF that] by metis+
  then show "Oldest lh = (if kvs = [] then None else Some (hd kvs))"
    and "Newest lh = (if kvs = [] then None else Some (last kvs))"
    using dlist_Front [OF d] dlist_Back [OF d] xs(2)
    by (simp_all add: Oldest_def Newest_def Let_def hd_map last_map)
qed

lemma alloc_many_ok:
  assumes "alloc_many n v h = (es, h')" "dlist h l []" "l < limit h" "0 < limit h"
  shows "dlist h' l [] \<and> l < limit h' \<and> distinct es \<and> 0 < limit h' \<and>
    (\<forall>e \<in> set es. e \<noteq> nil \<and> lst h' e = nil \<and> limit h \<le> e \<and> e < limit h') \<and>
    (\<forall>a < limit h. lst h' a = lst h a) \<and> limit h \<le> limit h'"
  using assms
proof (induction n arbitrary: h es)
  case (Suc n)
  obtain e h1 where a: "alloc v h = (e, h1)" by (rule prod.exhaust)
  obtain es' where m: "alloc_many n v h1 = (es', h')" "es = e # es'"
    using Suc.prems(1) a by (auto split: prod.splits)
  have "\<forall>x \<in> set (l # []). x < limit h" using Suc.prems(3) by simp
  note ao = alloc_ok [OF a Suc.prems(2) this Suc.prems(4)]
  have IH: "dlist h' l [] \<and> l < limit h' \<and> distinct es' \<and> 0 < limit h' \<and>
    (\<forall>e \<in> set es'. e \<noteq> nil \<and> lst h' e = nil \<and> limit h1 \<le> e \<and> e < limit h') \<and>
    (\<forall>a < limit h1. lst h' a = lst h1 a) \<and> limit h1 \<le> limit h'"
    using Suc.prems(3) ao by (intro Suc.IH m) auto
  have "lst h' e = nil" "e < limit h'" "e \<notin> set es'" using IH ao by auto
  moreover have "lst h' a = lst h a" if "a < limit h" for a using that IH ao by auto
  ultimately show ?case using IH ao m(2) by auto
qed simp

lemma NewHashmapWithSize_rep: "hm_rep (NewHashmapWithSize zero n) []"
proof -
  obtain l h where nl: "NewList zero (empty_store zero) = (l, h)" by (rule prod.exhaust)
  obtain es h' where am: "alloc_many n zero h = (es, h')" by (rule prod.exhaust)
  have l: "dlist h l []" "l < limit h" "0 < limit h"
    using nl by (auto simp: NewList_def alloc_def empty_store_def dlist_def nil_def split: if_splits)
  have "hm_inv (NewHashmapWithSize zero n) []"
    using alloc_many_ok [OF am l] by (auto simp: NewHashmapWithSize_def nl am hm_inv_def)
  then show ?thesis by (auto simp: hm_rep_def)
qed

lemma remove_all_ok:
  assumes "hm_inv lh xs" "distinct es" "set es \<subseteq> set xs"
  shows "\<exists>lh'. remove_all zero es lh = Some lh' \<and> hm_inv lh' (filter (\<lambda>a. a \<notin> set es) xs)"
  using assms
proof (induction es arbitrary: lh xs)
  case (Cons e es)
  then obtain us vs where xs: "xs = us @ e # vs" by (meson list.set_intros(1) split_list subsetD)
  obtain lh1 where lh1: "hm_remove zero e lh = Some lh1" "hm_inv lh1 (us @ vs)"
    using hm_remove_ok [of lh us e vs zero] Cons.prems(1) unfolding xs by blast
  have d: "distinct xs" using hm_invD(1) [OF Cons.prems(1)] by (simp add: dlist_def)
  have "set es \<subseteq> set (us @ vs)" using Cons.prems(2,3) by (auto simp: xs)
  from Cons.IH [OF lh1(2) _ this] Cons.prems(2)
  obtain lh' where lh': "remove_all zero es lh1 = Some lh'" "hm_inv lh' (filter (\<lambda>a. a \<notin> set es) (us @ vs))"
    by auto
  have "filter (\<lambda>a. a \<notin> set (e # es)) xs = filter (\<lambda>a. a \<notin> set es) (us @ vs)"
  proof -
    have "e \<notin> set us" "e \<notin> set vs" using d by (auto simp: xs)
    then have "filter (\<lambda>a. a \<noteq> e \<and> a \<notin> set es) us = filter (\<lambda>a. a \<notin> set es) us"
      "filter (\<lambda>a. a \<noteq> e \<and> a \<notin> set es) vs = filter (\<lambda>a. a \<notin> set es) vs"
      by (auto intro!: filter_cong)
    then show ?thesis by (simp add: xs)
  qed
  then show ?case using lh1(1) lh' by simp
qed simp

lemma hm_Clear_rep:
  assumes "hm_rep lh kvs"
  shows "\<exists>lh'. hm_Clear zero lh = Some lh' \<and> hm_rep lh' []"
proof -
  obtain xs where xs: "hm_inv lh xs" using assms by (auto simp: hm_rep_def)
  note inv = hm_invD [OF xs]
  have mem: "(k, a) \<in> set (entryMap lh) \<longleftrightarrow> a \<in> set xs \<and> fst (val (heap lh) a) = k" for k a
    using inv(6) inv(8) [of k a] map_of_eq_Some_iff [OF inv(6)] by metis
  have "inj_on snd (set (entryMap lh))"
    by (rule inj_onI) (metis mem prod.collapse)
  moreover have "distinct (entryMap lh)" using inv(6) by (metis distinct_map)
  ultimately have d: "distinct (map snd (entryMap lh))" by (simp add: distinct_map)
  have "set (map snd (entryMap lh)) = set xs"
    using mem by (force simp: image_iff)
  then have "filter (\<lambda>a. a \<notin> set (map snd (entryMap lh))) xs = []" by simp
  then show ?thesis
    using remove_all_ok [OF xs d, of zero] \<open>set (map snd (entryMap lh)) = set xs\<close>
    unfolding hm_Clear_def hm_rep_def by force
qed

subsection \<open>Iteration\<close>

text \<open>\<open>it_ok it ds rs\<close>: the iterator has passed the elements \<open>ds\<close> and has \<open>rs\<close> ahead of it.\<close>

definition it_ok :: "('k, 'v) iterator \<Rightarrow> addr list \<Rightarrow> addr list \<Rightarrow> bool" where
  "it_ok it ds rs \<longleftrightarrow>
     (if exhausted it then rs = []
      else if initialized it then rs \<noteq> [] \<and> it_next it = hd rs
      else ds = [])"

lemma it_Next_ok:
  assumes "hm_inv lh (ds @ rs)" "it_ok it ds rs"
  shows "\<exists>it'. it_Next zero lh it = Some (rs \<noteq> [], it') \<and>
    (rs \<noteq> [] \<longrightarrow> it_entry it' = val (heap lh) (hd rs) \<and> (\<forall>ds'. it_ok it' ds' (tl rs)))"
proof (cases rs)
  case Nil
  then show ?thesis
    using assms dlist_Front [OF hm_invD(1) [OF assms(1)]]
    by (auto simp: it_ok_def it_Next_def Let_def split: if_splits)
next
  case (Cons e vs)
  have d: "dlist (heap lh) (entryList lh) (ds @ e # vs)" using hm_invD(1) [OF assms(1)] by (simp add: Cons)
  have nx: "elem_Next e (heap lh) = (if vs = [] then nil else hd vs)" by (rule dlist_Next(1) [OF d])
  have nn: "e \<noteq> nil" "vs \<noteq> [] \<Longrightarrow> hd vs \<noteq> nil"
    using d by (auto simp: dlist_def) (metis hd_in_set)
  have "ds = [] \<Longrightarrow> Front (entryList lh) (heap lh) = e" using dlist_Front [OF d] by simp
  then show ?thesis
    using assms(2) nx nn by (cases vs) (auto simp: Cons it_ok_def it_Next_def Let_def split: if_splits)
qed

text \<open>The loop \<open>for iter.Next() { ... }\<close> that collects what it sees; the fuel bounds the passes.\<close>

fun collect :: "nat \<Rightarrow> 'k \<times> 'v \<Rightarrow> ('k, 'v) hashmap \<Rightarrow> ('k, 'v) iterator \<Rightarrow> ('k \<times> 'v) list option" where
  "collect 0 zero lh it = None"
| "collect (Suc n) zero lh it = do {
     (b, it) \<leftarrow> it_Next zero lh it;
     if b then do { kvs \<leftarrow> collect n zero lh it; Some (it_entry it # kvs) } else Some [] }"

lemma collect_ok:
  assumes "hm_inv lh (ds @ rs)" "it_ok it ds rs" "length rs < n"
  shows "collect n zero lh it = Some (map (val (heap lh)) rs)"
  using assms
proof (induction rs arbitrary: n ds it)
  case Nil
  then obtain m where "n = Suc m" by (cases n) auto
  then show ?case using it_Next_ok [OF Nil.prems(1,2), of zero] by auto
next
  case (Cons e rs)
  then obtain m where n: "n = Suc m" by (cases n) auto
  obtain it' where it': "it_Next zero lh it = Some (True, it')" "it_entry it' = val (heap lh) e"
      "\<forall>ds'. it_ok it' ds' rs"
    using it_Next_ok [OF Cons.prems(1,2), of zero] by auto
  have "collect m zero lh it' = Some (map (val (heap lh)) rs)"
    using Cons.prems it' n by (intro Cons.IH [of "ds @ [e]"]) auto
  then show ?case using it' by (simp add: n)
qed

subsection \<open>The interface\<close>

text \<open>
  What a client may rely on: a map that keeps its entries in order of their last \<open>Put\<close>.  The
  operations return \<open>None\<close> for a panic, which the laws exclude.
\<close>

locale ordered_map =
  fixes rep :: "'m \<Rightarrow> ('k \<times> 'v) list \<Rightarrow> bool"
    and put :: "'k \<Rightarrow> 'v \<Rightarrow> 'm \<Rightarrow> 'm option"
    and get :: "'k \<Rightarrow> 'm \<Rightarrow> 'v option"
    and del :: "'k \<Rightarrow> 'm \<Rightarrow> (bool \<times> 'm) option"
  assumes rep_distinct: "rep m kvs \<Longrightarrow> distinct (map fst kvs)"
    and put_rep: "rep m kvs \<Longrightarrow> \<exists>m'. put k v m = Some m' \<and> rep m' (AList.delete k kvs @ [(k, v)])"
    and get_rep: "rep m kvs \<Longrightarrow> get k m = map_of kvs k"
    and del_rep: "rep m kvs \<Longrightarrow> \<exists>m'. del k m = Some (k \<in> fst ` set kvs, m') \<and> rep m' (AList.delete k kvs)"
begin

lemma map_of_snoc: "map_of (AList.delete k kvs @ [(k, v)]) k' = (if k' = k then Some v else map_of kvs k')"
  by (auto simp: map_add_def AList.delete_conv' split: option.splits)

lemma get_after_put:
  assumes "rep m kvs"
  shows "\<exists>m'. put k v m = Some m' \<and> (\<forall>k'. get k' m' = (if k' = k then Some v else get k' m))"
  using put_rep [OF assms, of k v] get_rep assms map_of_snoc by metis

lemma get_after_del:
  assumes "rep m kvs"
  shows "\<exists>b m'. del k m = Some (b, m') \<and> (b \<longleftrightarrow> get k m \<noteq> None) \<and>
    (\<forall>k'. get k' m' = (if k' = k then None else get k' m))"
proof -
  obtain m' where m': "del k m = Some (k \<in> fst ` set kvs, m')" "rep m' (AList.delete k kvs)"
    using del_rep [OF assms] by blast
  moreover have "get k' m' = (if k' = k then None else get k' m)" for k'
    using get_rep [OF m'(2)] get_rep [OF assms] by (simp add: AList.delete_conv')
  moreover have "k \<in> fst ` set kvs \<longleftrightarrow> get k m \<noteq> None"
    using get_rep [OF assms] by (simp add: map_of_eq_None_iff)
  ultimately show ?thesis by blast
qed

end

lemma hm_rep_distinct: "hm_rep lh kvs \<Longrightarrow> distinct (map fst kvs)"
  using hm_inv_keys(2) by (auto simp: hm_rep_def)

interpretation lhm: ordered_map hm_rep "hm_Put zero" hm_Get "hm_Delete zero" for zero :: "'k \<times> 'v"
  by unfold_locales (simp_all add: hm_rep_distinct hm_Put_rep hm_Get_rep hm_Delete_rep)

subsection \<open>Properties\<close>

text \<open>
  C37.  The linked hash map refines an association list in insertion order: \<open>Put\<close> moves or appends
  the entry to the end, \<open>Delete\<close> takes it out and reports whether it was there, \<open>Get\<close> looks it up,
  and \<open>Len\<close>, \<open>Oldest\<close> and \<open>Newest\<close> read the length and the two ends.  No operation panics.
\<close>

theorem hashmap_refines_ordered_entries:
  assumes "hm_rep lh kvs"
  shows "(\<exists>lh'. hm_Put zero k v lh = Some lh' \<and> hm_rep lh' (AList.delete k kvs @ [(k, v)])) \<and>
    (\<exists>lh'. hm_Delete zero k lh = Some (k \<in> fst ` set kvs, lh') \<and> hm_rep lh' (AList.delete k kvs)) \<and>
    (\<exists>lh'. hm_Clear zero lh = Some lh' \<and> hm_rep lh' []) \<and>
    hm_Get k lh = map_of kvs k \<and> hm_Len lh = int (length kvs) \<and>
    Oldest lh = (if kvs = [] then None else Some (hd kvs)) \<and>
    Newest lh = (if kvs = [] then None else Some (last kvs))"
  using hm_Put_rep [OF assms] hm_Delete_rep [OF assms] hm_Clear_rep [OF assms] hm_Get_rep [OF assms]
    hm_Len_rep [OF assms] hm_rep_ends [OF assms] by simp

theorem hashmap_refines_ordered_entries_witness:
  "\<exists>lh. hm_Put (0, 0) (7 :: nat) (8 :: nat) (NewHashmap (0, 0)) = Some lh \<and> hm_rep lh [(7, 8)]"
  using hashmap_refines_ordered_entries [OF NewHashmapWithSize_rep, of "(0 :: nat, 0 :: nat)" 7 8 "(0, 0)" 0]
  by (simp add: NewHashmap_def)

text \<open>
  Lookup after update: after \<open>Put\<close> the key has the new value, after \<open>Delete\<close> it has none, and
  every other key keeps its value.
\<close>

theorem hashmap_lookup_after_update:
  assumes "hm_rep lh kvs"
  shows "(\<exists>lh'. hm_Put zero k v lh = Some lh' \<and> (\<forall>k'. hm_Get k' lh' = (if k' = k then Some v else hm_Get k' lh))) \<and>
    (\<exists>b lh'. hm_Delete zero k lh = Some (b, lh') \<and> (b \<longleftrightarrow> hm_Get k lh \<noteq> None) \<and>
      (\<forall>k'. hm_Get k' lh' = (if k' = k then None else hm_Get k' lh)))"
  using lhm.get_after_put [OF assms] lhm.get_after_del [OF assms] by blast

theorem hashmap_lookup_after_update_witness:
  "\<exists>lh. hm_Put (0, 0) (7 :: nat) (8 :: nat) (NewHashmap (0, 0)) = Some lh \<and> hm_Get 7 lh = Some 8"
  using hashmap_lookup_after_update [OF NewHashmapWithSize_rep, of "(0 :: nat, 0 :: nat)" 7 8 "(0, 0)" 0]
  by (auto simp: NewHashmap_def)

text \<open>
  C38.  Iterating with \<open>Next\<close> from a new iterator yields every entry exactly once, oldest first, and
  the loop ends after one pass more than there are entries.
\<close>

theorem iterator_visits_in_order:
  assumes "hm_rep lh kvs" "length kvs < n"
  shows "collect n zero lh (NewIterator zero) = Some kvs"
proof -
  obtain xs where xs: "hm_inv lh xs" "kvs = map (val (heap lh)) xs" using assms(1) by (auto simp: hm_rep_def)
  have "it_ok (NewIterator zero) [] xs" by (simp add: it_ok_def NewIterator_def)
  then show ?thesis using collect_ok [of lh "[]" xs _ n zero] xs assms(2) by simp
qed

theorem iterator_visits_in_order_witness:
  "collect 1 (0, 0) (NewHashmap (0 :: nat, 0 :: nat)) (NewIterator (0, 0)) = Some []"
  using iterator_visits_in_order [OF NewHashmapWithSize_rep, of 1 "(0, 0)" "(0 :: nat, 0 :: nat)" 0]
  by (simp add: NewHashmap_def)

end
