(* ===== verification/Poll.thy ===== *)
theory Poll
  imports Ids Bag LinkedHashmap
begin

text \<open>
  Outstanding network polls (\<open>src/snow/consensus/snowman/poll\<close>): the vote graph (\<open>graph.go\<close>), the
  groups of IDs with a shared prefix (\<open>prefix.go\<close>), the poll that ends early
  (\<open>early_term_traversal.go\<close>) and the ordered set of polls (\<open>set.go\<close>).

  A vertex of the vote graph is named by its ID, which is unique in the graph; \<open>getParent\<close> is the
  \<open>BlockTraversal\<close> the polls are created with.  Metrics and logging are left out.
\<close>

subsection \<open>The vote graph\<close>

record voteVertex =
  v_parent :: "ID option"
  descendants :: "ID list"

record voteGraph =
  vertices :: "(ID, voteVertex) gomap"
  leaves :: "ID list"
  roots :: "ID list"

definition newVertex :: voteVertex where
  "newVertex = \<lparr>v_parent = None, descendants = []\<rparr>"

function addIDAndAncestorsToGraph ::
  "(ID \<Rightarrow> ID option) \<Rightarrow> ID \<Rightarrow> (ID, voteVertex) gomap \<Rightarrow> (ID, voteVertex) gomap" where
  "addIDAndAncestorsToGraph getParent i g =
     (if mget g i \<noteq> None then g
      else let g = mput i newVertex g in
        case getParent i of None \<Rightarrow> g | Some p \<Rightarrow> addIDAndAncestorsToGraph getParent p g)"
  by pat_completeness auto

termination
proof (relation "measure (\<lambda>(_, _, g). card (UNIV - fst ` set g))", goal_cases)
  case (2 getParent i g g' p)
  then have "i \<notin> fst ` set g" by (simp add: map_of_eq_None_iff)
  then have "UNIV - fst ` set g' \<subset> UNIV - fst ` set g" using 2(2) by auto
  then show ?case by (simp add: psubset_card_mono)
qed simp

definition findLeaves :: "(ID, voteVertex) gomap \<Rightarrow> ID list" where
  "findLeaves g = map fst (filter (\<lambda>(_, v). descendants v = []) g)"

definition linkVertex ::
  "(ID \<Rightarrow> ID option) \<Rightarrow> ID \<Rightarrow> (ID, voteVertex) gomap \<times> ID list \<Rightarrow> (ID, voteVertex) gomap \<times> ID list" where
  "linkVertex getParent i = (\<lambda>(g, rts).
     case getParent i of
       None \<Rightarrow> (g, rts @ [i])
     | Some p \<Rightarrow>
         (case mget g p of
            Some u \<Rightarrow>
              let g = (case mget g i of Some v \<Rightarrow> mput i (v\<lparr>v_parent := Some p\<rparr>) g | None \<Rightarrow> g);
                  u = (case mget g p of Some u \<Rightarrow> u | None \<Rightarrow> u)
              in (mput p (u\<lparr>descendants := descendants u @ [i]\<rparr>) g, rts)
          | None \<Rightarrow> (g, rts @ [i])))"

definition buildVoteGraph :: "(ID \<Rightarrow> ID option) \<Rightarrow> ID bag \<Rightarrow> voteGraph" where
  "buildVoteGraph getParent votes =
     (let id2Vertex = fold (addIDAndAncestorsToGraph getParent) (bag_List votes) [];
          (g, rts) = fold (linkVertex getParent) (mkeys id2Vertex) (id2Vertex, [])
      in \<lparr>vertices = g, leaves = findLeaves g, roots = rts\<rparr>)"

definition childIDs :: "voteGraph \<Rightarrow> ID \<Rightarrow> ID list" where
  "childIDs vg i = (case mget (vertices vg) i of Some v \<Rightarrow> descendants v | None \<Rightarrow> [])"

definition parentID :: "voteGraph \<Rightarrow> ID \<Rightarrow> ID option" where
  "parentID vg i = (case mget (vertices vg) i of Some v \<Rightarrow> v_parent v | None \<Rightarrow> None)"

text \<open>
  Pre-order traversal.  The depth of the recursion is at most the number of vertices, since a path
  from a root repeats no vertex; that number is the bound.
\<close>

fun vertex_traverse :: "nat \<Rightarrow> voteGraph \<Rightarrow> ID \<Rightarrow> ID list" where
  "vertex_traverse 0 vg i = []"
| "vertex_traverse (Suc n) vg i = i # concat (map (vertex_traverse n vg) (childIDs vg i))"

definition graph_traverse :: "voteGraph \<Rightarrow> ID list" where
  "graph_traverse vg = concat (map (vertex_traverse (length (vertices vg)) vg) (roots vg))"

text \<open>
  \<open>topologicalSortTraversal\<close> returns the order in which it visits the vertices.  One round visits the
  current leaves and collects the parents whose last child was visited.
\<close>

definition visitLeaf ::
  "voteGraph \<Rightarrow> ID \<Rightarrow> (ID, int) gomap \<times> ID list \<Rightarrow> (ID, int) gomap \<times> ID list" where
  "visitLeaf vg leaf = (\<lambda>(childCount, newLeaves).
     case parentID vg leaf of
       None \<Rightarrow> (childCount, newLeaves)
     | Some p \<Rightarrow>
         let n = mget_or 0 childCount p - 1;
             childCount = mput p n childCount
         in (childCount, if n = 0 then newLeaves @ [p] else newLeaves))"

definition positives :: "(ID, int) gomap \<Rightarrow> nat" where
  "positives cc = card {i. 0 < mget_or 0 cc i}"

lemma finite_positives [simp]: "finite {i :: ID. 0 < mget_or 0 cc i}"
  by (rule finite)

lemma visitLeaf_positives:
  assumes "visitLeaf vg l (cc, nl) = (cc', nl')"
  shows "positives cc' + length nl' \<le> positives cc + length nl"
proof (cases "parentID vg l")
  case None
  then show ?thesis using assms by (simp add: visitLeaf_def)
next
  case (Some p)
  define n where "n = mget_or 0 cc p - 1"
  have cc': "cc' = mput p n cc" and nl': "nl' = (if n = 0 then nl @ [p] else nl)"
    using assms Some by (auto simp: visitLeaf_def Let_def n_def)
  have sub: "{i. 0 < mget_or 0 cc' i} \<subseteq> {i. 0 < mget_or 0 cc i}"
    by (auto simp: cc' n_def split: if_splits)
  show ?thesis
  proof (cases "n = 0")
    case True
    then have "{i. 0 < mget_or 0 cc' i} \<subset> {i. 0 < mget_or 0 cc i}"
      using sub by (auto simp: cc' n_def psubset_eq set_eq_iff intro!: exI [of _ p])
    then have "positives cc' < positives cc" unfolding positives_def by (simp add: psubset_card_mono)
    then show ?thesis by (simp add: nl' True)
  next
    case False
    then show ?thesis using card_mono [OF _ sub] by (simp add: positives_def nl')
  qed
qed

lemma visitLeaves_positives:
  "fold (visitLeaf vg) ls (cc, nl) = (cc', nl') \<Longrightarrow> positives cc' + length nl' \<le> positives cc + length nl"
proof (induction ls arbitrary: cc nl)
  case (Cons l ls)
  obtain cc1 nl1 where 1: "visitLeaf vg l (cc, nl) = (cc1, nl1)" by (rule prod.exhaust)
  then show ?case using Cons visitLeaf_positives [OF 1] by fastforce
qed simp

function topologicalOrder :: "voteGraph \<Rightarrow> (ID, int) gomap \<Rightarrow> ID list \<Rightarrow> ID list" where
  "topologicalOrder vg childCount ls =
     (if ls = [] then []
      else let (childCount, newLeaves) = fold (visitLeaf vg) ls (childCount, [])
           in ls @ topologicalOrder vg childCount newLeaves)"
  by pat_completeness auto

termination
proof (relation "measure (\<lambda>(_, cc, ls). if ls = [] then 0 else Suc (positives cc))", goal_cases)
  case (2 vg cc ls x cc' nl)
  then have "positives cc' + length nl \<le> positives cc" using visitLeaves_positives [of vg ls cc "[]" cc' nl] by simp
  then show ?case using 2(1) by (cases nl) auto
qed simp

definition topologicalSortTraversal :: "voteGraph \<Rightarrow> ID list" where
  "topologicalSortTraversal vg =
     (let childCount = fold (\<lambda>i cc. mput i (int (length (childIDs vg i))) cc) (graph_traverse vg) []
      in topologicalOrder vg childCount (leaves vg))"

definition computeTransitiveVoteCountGraph :: "voteGraph \<Rightarrow> ID bag \<Rightarrow> ID bag" where
  "computeTransitiveVoteCountGraph vg votes =
     fold (\<lambda>i b. case parentID vg i of None \<Rightarrow> b | Some p \<Rightarrow> AddCount p (Count b i) b)
       (topologicalSortTraversal vg) (bag_Clone votes)"

declare addIDAndAncestorsToGraph.simps [simp del] topologicalOrder.simps [simp del]

subsection \<open>Groups of IDs with a shared prefix\<close>

datatype prefixGroup =
  PrefixGroup (pg_index: nat) (pg_members: "ID list") (pg_child0: "prefixGroup option") (pg_child1: "prefixGroup option")

fun dedup :: "ID list \<Rightarrow> ID list \<Rightarrow> ID list" where
  "dedup used [] = []"
| "dedup used (i # is) = (if i \<in> set used then dedup used is else i # dedup (i # used) is)"

definition deduplicate :: "ID list \<Rightarrow> ID list" where
  "deduplicate ids = dedup [] ids"

definition isBifurcation :: "prefixGroup \<Rightarrow> bool" where
  "isBifurcation pg \<longleftrightarrow> pg_child0 pg \<noteq> None \<and> pg_child1 pg \<noteq> None"

text \<open>
  \<open>grow i ms\<close> is the group that the loop of \<open>longestSharedPrefixes\<close> makes of a group with index \<open>i\<close>
  and members \<open>ms\<close>: it moves to the next bit while the members agree on it (the group becomes its
  only descendant), splits at the first bit where they differ, and grows the two parts.  The Go
  code keeps the parts in a queue; a group is only changed by its own turn, so the order of the
  queue does not matter.  Reading a bit past the last one panics, the value \<open>None\<close>.
\<close>

function grow :: "nat \<Rightarrow> ID list \<Rightarrow> prefixGroup option" where
  "grow i ms =
     (if length ms \<le> 1 then Some (PrefixGroup i ms None None)
      else if NumBits \<le> i then None
      else let zeros = filter (\<lambda>m. Bit m i = 0) ms; ones = filter (\<lambda>m. Bit m i = 1) ms
        in if zeros = [] then grow (i + 1) ones
           else if ones = [] then grow (i + 1) zeros
           else do {
             l \<leftarrow> grow (i + 1) zeros;
             r \<leftarrow> grow (i + 1) ones;
             Some (PrefixGroup i ms (Some l) (Some r)) })"
  by pat_completeness auto

termination
  by (relation "measure (\<lambda>(i, _). NumBits - i)") auto

declare grow.simps [simp del]

definition longestSharedPrefixes :: "ID list \<Rightarrow> prefixGroup option" where
  "longestSharedPrefixes idList = grow 0 (deduplicate idList)"

fun pg_traverse :: "prefixGroup \<Rightarrow> prefixGroup list" where
  "pg_traverse (PrefixGroup i ms None None) = [PrefixGroup i ms None None]"
| "pg_traverse (PrefixGroup i ms (Some l) None) = PrefixGroup i ms (Some l) None # pg_traverse l"
| "pg_traverse (PrefixGroup i ms None (Some r)) = PrefixGroup i ms None (Some r) # pg_traverse r"
| "pg_traverse (PrefixGroup i ms (Some l) (Some r)) =
     PrefixGroup i ms (Some l) (Some r) # pg_traverse l @ pg_traverse r"

definition bifurcationsWithCommonPrefix :: "prefixGroup \<Rightarrow> ID list list" where
  "bifurcationsWithCommonPrefix pg =
     map pg_members (filter (\<lambda>g. isBifurcation g \<and> 0 < pg_index g) (pg_traverse pg))"

subsection \<open>Polls that end early\<close>

record earlyTermPoll =
  votes :: "ID bag"
  polled :: "NodeID bag"
  p_alphaPreference :: int
  p_alphaConfidence :: int
  finished :: bool

definition poll_New :: "int \<Rightarrow> int \<Rightarrow> NodeID bag \<Rightarrow> earlyTermPoll" where
  "poll_New alphaPreference alphaConfidence vdrs =
     \<lparr>votes = empty_bag, polled = vdrs, p_alphaPreference = alphaPreference,
      p_alphaConfidence = alphaConfidence, finished = False\<rparr>"

definition poll_Vote :: "NodeID \<Rightarrow> ID \<Rightarrow> earlyTermPoll \<Rightarrow> earlyTermPoll" where
  "poll_Vote vdr vote p =
     (let cnt = Count (polled p) vdr;
          p = p\<lparr>polled := Remove vdr (polled p)\<rparr>
      in p\<lparr>votes := AddCount vote cnt (votes p)\<rparr>)"

definition poll_Drop :: "NodeID \<Rightarrow> earlyTermPoll \<Rightarrow> earlyTermPoll" where
  "poll_Drop vdr p = p\<lparr>polled := Remove vdr (polled p)\<rparr>"

definition shouldTerminate :: "int \<Rightarrow> int \<Rightarrow> earlyTermPoll \<Rightarrow> bool" where
  "shouldTerminate freq remaining p \<longleftrightarrow>
     (let maxPossibleVotes = freq + remaining in
      maxPossibleVotes < p_alphaPreference p \<or>
      (freq \<ge> p_alphaPreference p \<and> maxPossibleVotes < p_alphaConfidence p) \<or>
      freq \<ge> p_alphaConfidence p)"

definition descendantIDsOfVertex :: "voteGraph \<Rightarrow> ID \<Rightarrow> ID list" where
  "descendantIDsOfVertex vg i = childIDs vg i"

definition sumVotesFromIDs :: "ID list \<Rightarrow> ID bag \<Rightarrow> int" where
  "sumVotesFromIDs ids transitiveVotes = fold (\<lambda>i cnt. cnt + Count transitiveVotes i) ids 0"

definition prefixVotes :: "voteGraph \<Rightarrow> ID bag \<Rightarrow> ID \<Rightarrow> int list option" where
  "prefixVotes vg transitiveVotes i =
     map_option (\<lambda>pg. map (\<lambda>ids. sumVotesFromIDs ids transitiveVotes) (bifurcationsWithCommonPrefix pg))
       (longestSharedPrefixes (descendantIDsOfVertex vg i))"

fun concat_results :: "'a list option list \<Rightarrow> 'a list option" where
  "concat_results [] = Some []"
| "concat_results (r # rs) = do { xs \<leftarrow> r; ys \<leftarrow> concat_results rs; Some (xs @ ys) }"

definition computeTransitiveVotesForPrefixes :: "voteGraph \<Rightarrow> ID bag \<Rightarrow> int list option" where
  "computeTransitiveVotesForPrefixes vg transitiveVotes =
     concat_results (map (prefixVotes vg transitiveVotes) (graph_traverse vg))"

definition aggregateVotesFromPrefixesAndIDs :: "int list \<Rightarrow> ID bag \<Rightarrow> int list" where
  "aggregateVotesFromPrefixesAndIDs prefixes transitiveVotes =
     map (Count transitiveVotes) (bag_List transitiveVotes) @ prefixes"

text \<open>\<open>Finished\<close> returns the answer and the poll, whose \<open>finished\<close> flag it may set; \<open>None\<close> is a panic.\<close>

definition poll_Finished :: "(ID \<Rightarrow> ID option) \<Rightarrow> earlyTermPoll \<Rightarrow> (bool \<times> earlyTermPoll) option" where
  "poll_Finished getParent p =
     (if finished p then Some (True, p)
      else let remaining = bag_Len (polled p) in
      if remaining = 0 then Some (True, p\<lparr>finished := True\<rparr>)
      else let received = bag_Len (votes p); maxPossibleVotes = received + remaining in
      if maxPossibleVotes < p_alphaPreference p then Some (True, p\<lparr>finished := True\<rparr>)
      else do {
        let votesGraph = buildVoteGraph getParent (votes p);
        let transitiveVotes = computeTransitiveVoteCountGraph votesGraph (votes p);
        prefixes \<leftarrow> computeTransitiveVotesForPrefixes votesGraph transitiveVotes;
        let voteCounts = aggregateVotesFromPrefixesAndIDs prefixes transitiveVotes;
        let cantImprove = (voteCounts \<noteq> [] \<and> list_all (\<lambda>c. shouldTerminate c remaining p) voteCounts);
        let p = (if cantImprove then p\<lparr>finished := True\<rparr> else p);
        Some (finished p, p) })"

definition poll_Result :: "earlyTermPoll \<Rightarrow> ID bag" where
  "poll_Result p = votes p"

subsection \<open>The set of polls\<close>

text \<open>
  The linked hash map holds a pointer to each poll, and a vote changes the poll behind the pointer:
  \<open>hm_modify\<close> changes the value of an entry in place, without moving it.
\<close>

definition hm_modify :: "'k \<Rightarrow> ('v \<Rightarrow> 'v) \<Rightarrow> ('k, 'v) hashmap \<Rightarrow> ('k, 'v) hashmap" where
  "hm_modify k f lh =
     (case mget (entryMap lh) k of
        None \<Rightarrow> lh
      | Some e \<Rightarrow> lh\<lparr>heap := setVal e (map_prod id f (val (heap lh) e)) (heap lh)\<rparr>)"

record pollSet =
  polls :: "(32 word, earlyTermPoll) hashmap"
  f_alphaPreference :: int
  f_alphaConfidence :: int

definition zeroEntry :: "32 word \<times> earlyTermPoll" where
  "zeroEntry = (0, poll_New 0 0 empty_bag)"

definition NewSet :: "int \<Rightarrow> int \<Rightarrow> pollSet" where
  "NewSet alphaPreference alphaConfidence =
     \<lparr>polls = NewHashmap zeroEntry, f_alphaPreference = alphaPreference, f_alphaConfidence = alphaConfidence\<rparr>"

definition set_Add :: "32 word \<Rightarrow> NodeID bag \<Rightarrow> pollSet \<Rightarrow> (bool \<times> pollSet) option" where
  "set_Add requestID vdrs s =
     (if hm_Get requestID (polls s) \<noteq> None then Some (False, s)
      else do {
        hm \<leftarrow> hm_Put zeroEntry requestID (poll_New (f_alphaPreference s) (f_alphaConfidence s) vdrs) (polls s);
        Some (True, s\<lparr>polls := hm\<rparr>) })"

fun process_loop ::
  "nat \<Rightarrow> (ID \<Rightarrow> ID option) \<Rightarrow> (32 word, earlyTermPoll) iterator \<Rightarrow> pollSet \<Rightarrow> ID bag list
   \<Rightarrow> (ID bag list \<times> pollSet) option" where
  "process_loop 0 getParent iter s results = None"
| "process_loop (Suc n) getParent iter s results = do {
     (more, iter) \<leftarrow> it_Next zeroEntry (polls s) iter;
     if \<not> more then Some (results, s)
     else do {
       let (k, p) = it_entry iter;
       (fin, p) \<leftarrow> poll_Finished getParent p;
       let s = s\<lparr>polls := hm_modify k (\<lambda>_. p) (polls s)\<rparr>;
       if \<not> fin then Some (results, s)
       else do {
         (_, hm) \<leftarrow> hm_Delete zeroEntry k (polls s);
         process_loop n getParent iter (s\<lparr>polls := hm\<rparr>) (results @ [poll_Result p]) } } }"

text \<open>One pass more than there are polls is enough for the loop to end.\<close>

definition processFinishedPolls :: "(ID \<Rightarrow> ID option) \<Rightarrow> pollSet \<Rightarrow> (ID bag list \<times> pollSet) option" where
  "processFinishedPolls getParent s =
     process_loop (Suc (length (entryMap (polls s)))) getParent (NewIterator zeroEntry) s []"

definition after_response ::
  "(ID \<Rightarrow> ID option) \<Rightarrow> 32 word \<Rightarrow> (earlyTermPoll \<Rightarrow> earlyTermPoll) \<Rightarrow> pollSet \<Rightarrow> (ID bag list \<times> pollSet) option" where
  "after_response getParent requestID f s =
     (case hm_Get requestID (polls s) of
        None \<Rightarrow> Some ([], s)
      | Some p \<Rightarrow> do {
          let p = f p;
          (fin, p) \<leftarrow> poll_Finished getParent p;
          let s = s\<lparr>polls := hm_modify requestID (\<lambda>_. p) (polls s)\<rparr>;
          if \<not> fin then Some ([], s) else processFinishedPolls getParent s })"

definition set_Vote ::
  "(ID \<Rightarrow> ID option) \<Rightarrow> 32 word \<Rightarrow> NodeID \<Rightarrow> ID \<Rightarrow> pollSet \<Rightarrow> (ID bag list \<times> pollSet) option" where
  "set_Vote getParent requestID vdr vote s = after_response getParent requestID (poll_Vote vdr vote) s"

definition set_Drop ::
  "(ID \<Rightarrow> ID option) \<Rightarrow> 32 word \<Rightarrow> NodeID \<Rightarrow> pollSet \<Rightarrow> (ID bag list \<times> pollSet) option" where
  "set_Drop getParent requestID vdr s = after_response getParent requestID (poll_Drop vdr) s"

definition set_Len :: "pollSet \<Rightarrow> int" where
  "set_Len s = hm_Len (polls s)"

subsection \<open>Prefix groups are the bifurcations\<close>

lemma dedup_spec: "set (dedup used ids) = set ids - set used \<and> distinct (dedup used ids)"
  by (induction used ids rule: dedup.induct) auto

lemma deduplicate_spec: "set (deduplicate ids) = set ids" "distinct (deduplicate ids)"
  using dedup_spec [of "[]" ids] by (auto simp: deduplicate_def)

definition agree_on :: "nat \<Rightarrow> ID set \<Rightarrow> bool" where
  "agree_on i S \<longleftrightarrow> (\<forall>x \<in> S. \<forall>y \<in> S. agree 0 i x y)"

text \<open>The bifurcations of a set of IDs from bit \<open>i\<close> on: a bit, and the IDs that meet there.\<close>

definition bifurcations :: "nat \<Rightarrow> ID set \<Rightarrow> (nat \<times> ID set) set" where
  "bifurcations i M = {(j, S). i \<le> j \<and> (\<exists>x \<in> M. S = {y \<in> M. agree 0 j x y} \<and> (\<exists>y \<in> S. Bit y j \<noteq> Bit x j))}"

definition pg_bifurcations :: "prefixGroup \<Rightarrow> (nat \<times> ID set) set" where
  "pg_bifurcations pg = (\<lambda>g. (pg_index g, set (pg_members g))) ` set (filter isBifurcation (pg_traverse pg))"

lemma agree_Suc_Bit: "agree 0 (Suc i) x y \<longleftrightarrow> agree 0 i x y \<and> Bit x i = Bit y i"
  by (auto simp: agree_Suc Bit_eq split: if_splits)

lemma bifurcations_same_bit:
  assumes "\<And>x. x \<in> M \<Longrightarrow> Bit x i = b"
  shows "bifurcations i M = bifurcations (Suc i) M"
proof -
  have "i \<noteq> j" if "x \<in> M" "y \<in> M" "Bit y j \<noteq> Bit x j" for x y j
    using that assms by metis
  then show ?thesis unfolding bifurcations_def by (auto simp: Suc_le_eq le_less)
qed

lemma bifurcations_split:
  assumes "agree_on i M" "Z = {x \<in> M. Bit x i = 0}" "W = {x \<in> M. Bit x i = 1}" "Z \<noteq> {}" "W \<noteq> {}"
  shows "bifurcations i M = insert (i, M) (bifurcations (Suc i) Z \<union> bifurcations (Suc i) W)"
proof -
  have bits: "Bit x i = 0 \<or> Bit x i = 1" for x using Bit_lt2 [of x i] by linarith
  have part: "{y \<in> M. agree 0 j x y} = {y \<in> {y \<in> M. Bit y i = Bit x i}. agree 0 j x y}" if "i < j" for x j
    using agree_mono [of 0 j x _ 0 "Suc i"] that by (auto simp: agree_Suc_Bit)
  have side: "\<And>x. x \<in> Z \<Longrightarrow> {y \<in> Z \<union> W. Bit y i = Bit x i} = Z" "\<And>x. x \<in> W \<Longrightarrow> {y \<in> Z \<union> W. Bit y i = Bit x i} = W"
    and MZW: "M = Z \<union> W"
    using bits by (auto simp: assms(2,3))
  have "(j, S) \<in> bifurcations i M \<longleftrightarrow> (j, S) = (i, M) \<or> (j, S) \<in> bifurcations (Suc i) Z \<union> bifurcations (Suc i) W"
    for j S
  proof (cases "j = i")
    case True
    obtain z w where zw: "z \<in> Z" "w \<in> W" using assms(4,5) by blast
    have "{y \<in> M. agree 0 i x y} = M" if "x \<in> M" for x using that assms(1) by (auto simp: agree_on_def)
    then have "(i, S) \<in> bifurcations i M \<longleftrightarrow> S = M \<and> (\<exists>x \<in> M. \<exists>y \<in> M. Bit y i \<noteq> Bit x i)"
      unfolding bifurcations_def by auto
    moreover have "\<exists>x \<in> M. \<exists>y \<in> M. Bit y i \<noteq> Bit x i"
      using zw assms(2,3) by (intro bexI [of _ z] bexI [of _ w]) auto
    ultimately have "(i, S) \<in> bifurcations i M \<longleftrightarrow> S = M" by blast
    then show ?thesis using True by (auto simp: bifurcations_def)
  next
    case False
    show ?thesis
    proof (cases "i < j")
      case True
      have "(j, S) \<in> bifurcations i M \<longleftrightarrow>
          (\<exists>x \<in> M. S = {y \<in> {y \<in> M. Bit y i = Bit x i}. agree 0 j x y} \<and> (\<exists>y \<in> S. Bit y j \<noteq> Bit x j))"
        using True by (simp add: bifurcations_def part [OF True])
      also have "\<dots> \<longleftrightarrow>
          (\<exists>x \<in> Z. S = {y \<in> Z. agree 0 j x y} \<and> (\<exists>y \<in> S. Bit y j \<noteq> Bit x j)) \<or>
          (\<exists>x \<in> W. S = {y \<in> W. agree 0 j x y} \<and> (\<exists>y \<in> S. Bit y j \<noteq> Bit x j))"
        unfolding MZW bex_Un using side by (simp cong: bex_cong)
      also have "\<dots> \<longleftrightarrow> (j, S) \<in> bifurcations (Suc i) Z \<union> bifurcations (Suc i) W"
        using True by (simp add: bifurcations_def Suc_le_eq)
      finally show ?thesis using False by simp
    next
      case False
      then show ?thesis using \<open>j \<noteq> i\<close> by (auto simp: bifurcations_def)
    qed
  qed
  then show ?thesis by (auto simp: set_eq_iff)
qed

lemma pg_bifurcations_simps:
  "pg_bifurcations (PrefixGroup i ms None None) = {}"
  "pg_bifurcations (PrefixGroup i ms (Some l) (Some r)) =
     insert (i, set ms) (pg_bifurcations l \<union> pg_bifurcations r)"
  by (auto simp: pg_bifurcations_def isBifurcation_def)

lemma bifurcations_small: "length ms \<le> 1 \<Longrightarrow> bifurcations i (set ms) = {}"
  by (cases ms) (auto simp: bifurcations_def)

lemma distinct_agree_bound:
  assumes "distinct ms" "agree_on i (set ms)" "\<not> length ms \<le> 1"
  shows "i < 256"
proof (rule ccontr)
  assume "\<not> i < 256"
  obtain x y r where ms: "ms = x # y # r" using assms(3) by (cases ms rule: remdups_adj.cases) auto
  then have "agree 0 i x y" "x \<noteq> y" using assms by (auto simp: agree_on_def)
  then have "agree 0 256 x y" using agree_mono [of 0 i x y 0 256] \<open>\<not> i < 256\<close> by simp
  then show False using \<open>x \<noteq> y\<close> by (simp add: agree_all_eq)
qed

lemma grow_spec:
  assumes "distinct ms" "agree_on i (set ms)"
  shows "\<exists>pg. grow i ms = Some pg \<and> pg_members pg = ms \<and> pg_bifurcations pg = bifurcations i (set ms)"
  using assms
proof (induction i ms rule: grow.induct)
  case (1 i ms)
  show ?case
  proof (cases "length ms \<le> 1")
    case True
    then show ?thesis by (simp add: grow.simps [of i ms] bifurcations_small pg_bifurcations_simps)
  next
    case False
    have i: "\<not> NumBits \<le> i" using distinct_agree_bound [OF "1.prems" False] by (simp add: NumBits_def)
    define zs os where "zs = filter (\<lambda>m. Bit m i = 0) ms" and "os = filter (\<lambda>m. Bit m i = 1) ms"
    have bits: "Bit x i = 0 \<or> Bit x i = 1" for x using Bit_lt2 [of x i] by linarith
    have zprem: "distinct zs" "agree_on (i + 1) (set zs)" and oprem: "distinct os" "agree_on (i + 1) (set os)"
      using "1.prems" by (auto simp: zs_def os_def agree_on_def agree_Suc_Bit)
    have eq: "grow i ms = (if zs = [] then grow (i + 1) os else if os = [] then grow (i + 1) zs
        else do { l \<leftarrow> grow (i + 1) zs; r \<leftarrow> grow (i + 1) os; Some (PrefixGroup i ms (Some l) (Some r)) })"
      using False i by (simp add: grow.simps [of i ms] zs_def os_def Let_def)
    have all: "zs = [] \<Longrightarrow> os = ms" "os = [] \<Longrightarrow> zs = ms"
      unfolding zs_def os_def filter_empty_conv filter_id_conv using bits by metis+
    note IH = "1.IH" [OF False i zs_def os_def]
    consider "zs = []" | "zs \<noteq> []" "os = []" | "zs \<noteq> []" "os \<noteq> []" by blast
    then show ?thesis
    proof cases
      case 1
      then have "bifurcations i (set ms) = bifurcations (Suc i) (set ms)"
        using all(1) by (intro bifurcations_same_bit [of _ _ 1]) (auto simp: os_def filter_id_conv)
      then show ?thesis using IH(1) [OF 1 oprem] 1 all(1) by (simp add: eq)
    next
      case 2
      then have "bifurcations i (set ms) = bifurcations (Suc i) (set ms)"
        using all(2) by (intro bifurcations_same_bit [of _ _ 0]) (auto simp: zs_def filter_id_conv)
      then show ?thesis using IH(2) [OF 2 zprem] 2 all(2) by (simp add: eq)
    next
      case 3
      have "bifurcations i (set ms) = insert (i, set ms) (bifurcations (Suc i) (set zs) \<union> bifurcations (Suc i) (set os))"
        using 3 by (intro bifurcations_split "1.prems") (auto simp: zs_def os_def filter_empty_conv)
      then show ?thesis
        using IH(3) [OF 3 zprem] IH(4) [OF 3 _ oprem] 3 by (auto simp: eq pg_bifurcations_simps)
    qed
  qed
qed

lemma longestSharedPrefixes_spec:
  "\<exists>pg. longestSharedPrefixes ids = Some pg \<and> pg_bifurcations pg = bifurcations 0 (set ids)"
  using grow_spec [of "deduplicate ids" 0] deduplicate_spec [of ids]
  by (auto simp: longestSharedPrefixes_def agree_on_def)

lemma concat_results_total: "\<forall>r \<in> set rs. r \<noteq> None \<Longrightarrow> \<exists>xs. concat_results rs = Some xs"
  by (induction rs) auto

lemma computeTransitiveVotesForPrefixes_total: "\<exists>xs. computeTransitiveVotesForPrefixes vg tv = Some xs"
  unfolding computeTransitiveVotesForPrefixes_def prefixVotes_def
  using longestSharedPrefixes_spec by (intro concat_results_total) force

subsection \<open>A single poll\<close>

lemma poll_Finished_total:
  "\<exists>p'. poll_Finished getParent p = Some (finished p', p') \<and> votes p' = votes p \<and> polled p' = polled p \<and>
     p_alphaPreference p' = p_alphaPreference p \<and> p_alphaConfidence p' = p_alphaConfidence p \<and>
     (finished p \<longrightarrow> p' = p)"
proof -
  obtain xs where "computeTransitiveVotesForPrefixes (buildVoteGraph getParent (votes p))
      (computeTransitiveVoteCountGraph (buildVoteGraph getParent (votes p)) (votes p)) = Some xs"
    using computeTransitiveVotesForPrefixes_total by blast
  then show ?thesis by (auto simp: poll_Finished_def Let_def)
qed

text \<open>
  Whether a count can still change side of a threshold with \<open>remaining\<close> votes outstanding is what
  \<open>shouldTerminate\<close> decides.
\<close>

definition outcome :: "earlyTermPoll \<Rightarrow> int \<Rightarrow> bool \<times> bool" where
  "outcome p freq = (p_alphaPreference p \<le> freq, p_alphaConfidence p \<le> freq)"

lemma shouldTerminate_iff:
  assumes "p_alphaPreference p \<le> p_alphaConfidence p" "0 \<le> remaining"
  shows "shouldTerminate freq remaining p \<longleftrightarrow>
    (\<forall>extra. 0 \<le> extra \<longrightarrow> extra \<le> remaining \<longrightarrow> outcome p (freq + extra) = outcome p freq)"
proof
  assume "shouldTerminate freq remaining p"
  then show "\<forall>extra. 0 \<le> extra \<longrightarrow> extra \<le> remaining \<longrightarrow> outcome p (freq + extra) = outcome p freq"
    using assms by (auto simp: shouldTerminate_def outcome_def Let_def)
next
  assume "\<forall>extra. 0 \<le> extra \<longrightarrow> extra \<le> remaining \<longrightarrow> outcome p (freq + extra) = outcome p freq"
  then have "outcome p (freq + remaining) = outcome p freq" using assms(2) by simp
  then show "shouldTerminate freq remaining p"
    using assms by (auto simp: shouldTerminate_def outcome_def Let_def)
qed

definition poll_inv :: "earlyTermPoll \<Rightarrow> bool" where
  "poll_inv p \<longleftrightarrow> bag_inv (votes p) \<and> bag_inv (polled p)"

lemma poll_inv_ops:
  assumes "poll_inv p"
  shows "poll_inv (poll_Vote vdr v p)" "poll_inv (poll_Drop vdr p)"
  using assms by (auto simp: poll_inv_def poll_Vote_def poll_Drop_def Let_def)

lemma poll_Vote_effect:
  assumes "poll_inv p"
  shows "bag_Len (votes (poll_Vote vdr v p)) + bag_Len (polled (poll_Vote vdr v p)) =
      bag_Len (votes p) + bag_Len (polled p)"
    "Count (votes (poll_Vote vdr v p)) v' = Count (votes p) v' + (if v' = v then Count (polled p) vdr else 0)"
    "Count (polled (poll_Vote vdr v p)) vdr = 0"
proof -
  have "0 < Count (polled p) vdr \<or> Count (polled p) vdr = 0"
    using assms Count_nonneg [of "polled p" vdr] by (auto simp: poll_inv_def le_less)
  then show "bag_Len (votes (poll_Vote vdr v p)) + bag_Len (polled (poll_Vote vdr v p)) =
      bag_Len (votes p) + bag_Len (polled p)"
    "Count (votes (poll_Vote vdr v p)) v' = Count (votes p) v' + (if v' = v then Count (polled p) vdr else 0)"
    "Count (polled (poll_Vote vdr v p)) vdr = 0"
    using assms by (auto simp: poll_inv_def poll_Vote_def Let_def)
qed

subsection \<open>The set of polls as a queue\<close>

text \<open>
  \<open>drain\<close> is the abstract counterpart of \<open>processFinishedPolls\<close>: it takes finished polls off the front
  of the queue until it meets one that is not finished.
\<close>

definition settle :: "(ID \<Rightarrow> ID option) \<Rightarrow> earlyTermPoll \<Rightarrow> earlyTermPoll" where
  "settle getParent p = snd (the (poll_Finished getParent p))"

lemma poll_Finished_settle: "poll_Finished getParent p = Some (finished (settle getParent p), settle getParent p)"
  using poll_Finished_total [of getParent p] by (auto simp: settle_def)

lemma settle_keeps [simp]: "votes (settle getParent p) = votes p" "finished p \<Longrightarrow> settle getParent p = p"
  using poll_Finished_total [of getParent p] by (auto simp: settle_def)

fun drain :: "(ID \<Rightarrow> ID option) \<Rightarrow> (32 word \<times> earlyTermPoll) list \<Rightarrow> ID bag list \<times> (32 word \<times> earlyTermPoll) list" where
  "drain getParent [] = ([], [])"
| "drain getParent ((k, p) # q) =
     (let p = settle getParent p in
      if finished p then let (rs, q') = drain getParent q in (votes p # rs, q')
      else ([], (k, p) # q))"

lemma hm_modify_inv:
  assumes "hm_inv lh xs"
  shows "hm_inv (hm_modify k f lh) xs"
    and "map (val (heap (hm_modify k f lh))) xs =
      map (\<lambda>(k', v). (k', if k' = k then f v else v)) (map (val (heap lh)) xs)"
    and "length (entryMap (hm_modify k f lh)) = length (entryMap lh)"
proof -
  note inv = hm_invD [OF assms]
  have goals: "hm_inv (hm_modify k f lh) xs \<and> map (val (heap (hm_modify k f lh))) xs =
      map (\<lambda>(k', v). (k', if k' = k then f v else v)) (map (val (heap lh)) xs) \<and>
      length (entryMap (hm_modify k f lh)) = length (entryMap lh)"
  proof (cases "mget (entryMap lh) k")
    case None
    then have "\<forall>a \<in> set xs. fst (val (heap lh) a) \<noteq> k" using hm_inv_keys(3) [OF assms] by blast
    then show ?thesis using assms None by (auto simp: hm_modify_def split: prod.split)
  next
    case (Some e)
    then have e: "e \<in> set xs" "fst (val (heap lh) e) = k" using inv(8) by auto
    have "val (heap (hm_modify k f lh)) a = (\<lambda>(k', v). (k', if k' = k then f v else v)) (val (heap lh) a)"
      if a: "a \<in> set xs" for a
    proof -
      have "fst (val (heap lh) a) = k \<longleftrightarrow> a = e"
        using a e hm_inv_keys(1) [OF assms] by (auto simp: inj_on_def)
      then show ?thesis using Some by (cases "val (heap lh) a") (auto simp: hm_modify_def)
    qed
    then have "map (val (heap (hm_modify k f lh))) xs =
        map (\<lambda>(k', v). (k', if k' = k then f v else v)) (map (val (heap lh)) xs)"
      by simp
    moreover have "hm_inv (hm_modify k f lh) xs"
      using assms Some by (auto simp: hm_modify_def hm_inv_def map_prod_def split: prod.split)
    ultimately show ?thesis using Some by (simp add: hm_modify_def)
  qed
  then show "hm_inv (hm_modify k f lh) xs"
    and "map (val (heap (hm_modify k f lh))) xs =
      map (\<lambda>(k', v). (k', if k' = k then f v else v)) (map (val (heap lh)) xs)"
    and "length (entryMap (hm_modify k f lh)) = length (entryMap lh)" by auto
qed

lemma hm_modify_head:
  assumes "hm_inv lh (x # xs)" "val (heap lh) x = (k, v)"
  shows "hm_inv (hm_modify k f lh) (x # xs)" "val (heap (hm_modify k f lh)) x = (k, f v)"
    "map (val (heap (hm_modify k f lh))) xs = map (val (heap lh)) xs"
proof -
  note md = hm_modify_inv [OF assms(1), of k f]
  show "hm_inv (hm_modify k f lh) (x # xs)" by (rule md(1))
  show "val (heap (hm_modify k f lh)) x = (k, f v)" using md(2) assms(2) by simp
  have "val (heap (hm_modify k f lh)) a = val (heap lh) a" if "a \<in> set xs" for a
  proof -
    have "fst (val (heap lh) a) \<noteq> k"
      using hm_inv_keys(2) [OF assms(1)] assms(2) that by (auto simp: image_iff)
    then show ?thesis using md(2) that by (cases "val (heap lh) a") auto
  qed
  then show "map (val (heap (hm_modify k f lh))) xs = map (val (heap lh)) xs" by simp
qed

lemma hm_Delete_head:
  assumes "hm_inv lh (x # xs)" "val (heap lh) x = (k, v)"
  shows "\<exists>lh'. hm_Delete zero k lh = Some (True, lh') \<and> hm_inv lh' xs \<and>
    map (val (heap lh')) xs = map (val (heap lh)) xs"
proof -
  have "mget (entryMap lh) k = Some x" using hm_invD(8) [OF assms(1), of k x] assms(2) by simp
  moreover obtain lh' where "hm_remove zero x lh = Some lh'" "hm_inv lh' xs"
      "map (val (heap lh')) xs = map (val (heap lh)) xs"
    using hm_remove_ok [of lh "[]" x xs zero] assms(1) by auto
  ultimately show ?thesis by (simp add: hm_Delete_def)
qed

lemma process_loop_drain:
  assumes "hm_inv (polls s) xs" "it_ok iter [] xs" "length xs < n"
    and "drain getParent (map (val (heap (polls s))) xs) = (rs, q)"
  shows "\<exists>s' xs'. process_loop n getParent iter s results = Some (results @ rs, s') \<and>
    hm_inv (polls s') xs' \<and> map (val (heap (polls s'))) xs' = q \<and>
    f_alphaPreference s' = f_alphaPreference s \<and> f_alphaConfidence s' = f_alphaConfidence s"
  using assms
proof (induction xs arbitrary: n iter s results rs)
  case Nil
  then obtain m where "n = Suc m" by (cases n) auto
  moreover have "hm_inv (polls s) ([] @ [])" using Nil.prems(1) by simp
  ultimately show ?case
    using it_Next_ok [of "polls s" "[]" "[]" iter zeroEntry] Nil.prems by auto
next
  case (Cons x xs)
  then obtain m where n: "n = Suc m" by (cases n) auto
  obtain k p where kp: "val (heap (polls s)) x = (k, p)" by (rule prod.exhaust)
  obtain iter' where it': "it_Next zeroEntry (polls s) iter = Some (True, iter')" "it_entry iter' = (k, p)"
      "it_ok iter' [] xs"
    using it_Next_ok [of "polls s" "[]" "x # xs" iter zeroEntry] Cons.prems kp by auto
  define p' where "p' = settle getParent p"
  define s1 where "s1 = s\<lparr>polls := hm_modify k (\<lambda>_. p') (polls s)\<rparr>"
  have s1: "hm_inv (polls s1) (x # xs)" "val (heap (polls s1)) x = (k, p')"
      "map (val (heap (polls s1))) xs = map (val (heap (polls s))) xs"
    using hm_modify_head [OF Cons.prems(1) kp] by (simp_all add: s1_def)
  have step: "process_loop n getParent iter s results =
      (if \<not> finished p' then Some (results, s1)
       else do { (_, hm) \<leftarrow> hm_Delete zeroEntry k (polls s1);
                 process_loop m getParent iter' (s1\<lparr>polls := hm\<rparr>) (results @ [votes p']) })"
    using it' by (simp add: n poll_Finished_settle p'_def s1_def poll_Result_def Let_def)
  show ?case
  proof (cases "finished p'")
    case False
    then have "rs = []" "q = (k, p') # map (val (heap (polls s))) xs"
      using Cons.prems(4) kp by (auto simp: p'_def Let_def)
    then show ?thesis using step False s1 by (auto simp: s1_def)
  next
    case True
    obtain lh' where lh': "hm_Delete zeroEntry k (polls s1) = Some (True, lh')" "hm_inv lh' xs"
        "map (val (heap lh')) xs = map (val (heap (polls s1))) xs"
      using hm_Delete_head [OF s1(1,2), of zeroEntry] by blast
    obtain rs' where rs': "drain getParent (map (val (heap (polls s))) xs) = (rs', q)" "rs = votes p' # rs'"
      using Cons.prems(4) kp True by (auto simp: p'_def Let_def split: prod.splits)
    have "\<exists>s' xs'. process_loop m getParent iter' (s1\<lparr>polls := lh'\<rparr>) (results @ [votes p']) =
        Some ((results @ [votes p']) @ rs', s') \<and> hm_inv (polls s') xs' \<and>
        map (val (heap (polls s'))) xs' = q \<and>
        f_alphaPreference s' = f_alphaPreference (s1\<lparr>polls := lh'\<rparr>) \<and>
        f_alphaConfidence s' = f_alphaConfidence (s1\<lparr>polls := lh'\<rparr>)"
      using lh'(2) it'(3) Cons.prems(3) rs'(1) unfolding s1(3) [symmetric] lh'(3) [symmetric]
      by (intro Cons.IH) (simp_all add: n)
    then show ?thesis using step True lh'(1) rs'(2) by (auto simp: s1_def)
  qed
qed

text \<open>\<open>set_rep s q\<close>: the set holds the polls \<open>q\<close>, oldest first.\<close>

definition set_rep :: "pollSet \<Rightarrow> (32 word \<times> earlyTermPoll) list \<Rightarrow> bool" where
  "set_rep s q \<longleftrightarrow> hm_rep (polls s) q"

lemma processFinishedPolls_drain:
  assumes "set_rep s q"
  shows "\<exists>s'. processFinishedPolls getParent s = Some (fst (drain getParent q), s') \<and>
    set_rep s' (snd (drain getParent q))"
proof -
  obtain xs where xs: "hm_inv (polls s) xs" "q = map (val (heap (polls s))) xs"
    using assms by (auto simp: set_rep_def hm_rep_def)
  have "hm_rep (polls s) q" using assms by (simp add: set_rep_def)
  then have "length xs < Suc (length (entryMap (polls s)))"
    using hm_Len_rep [of "polls s" q] xs(2) by (simp add: hm_Len_def)
  moreover have "it_ok (NewIterator zeroEntry) [] xs" by (simp add: it_ok_def NewIterator_def)
  ultimately show ?thesis
    using process_loop_drain [OF xs(1), of "NewIterator zeroEntry" _ getParent _ _ "[]"] xs(2)
    unfolding processFinishedPolls_def set_rep_def hm_rep_def by (metis append_Nil prod.collapse)
qed

lemma drain_takeWhile:
  "fst (drain getParent q) = map (votes \<circ> snd) (takeWhile (\<lambda>(_, p). finished (settle getParent p)) q)"
  "map fst (snd (drain getParent q)) = map fst (dropWhile (\<lambda>(_, p). finished (settle getParent p)) q)"
  by (induction getParent q rule: drain.induct) (auto simp: Let_def split: prod.splits)

lemma hm_modify_rep:
  "hm_rep lh kvs \<Longrightarrow> hm_rep (hm_modify k f lh) (map (\<lambda>(k', v). (k', if k' = k then f v else v)) kvs)"
  unfolding hm_rep_def using hm_modify_inv(1,2) [of lh _ k f] by force

definition update_poll :: "32 word \<Rightarrow> earlyTermPoll \<Rightarrow> (32 word \<times> earlyTermPoll) list \<Rightarrow> (32 word \<times> earlyTermPoll) list" where
  "update_poll r p q = map (\<lambda>(k, v). (k, if k = r then p else v)) q"

lemma after_response_rep:
  assumes "set_rep s q"
  shows "\<exists>s' rs q'. after_response getParent r f s = Some (rs, s') \<and> set_rep s' q' \<and>
    (rs, q') = (case map_of q r of
       None \<Rightarrow> ([], q)
     | Some p \<Rightarrow> let q1 = update_poll r (settle getParent (f p)) q
         in if finished (settle getParent (f p)) then drain getParent q1 else ([], q1))"
proof -
  have get: "hm_Get r (polls s) = map_of q r" using assms hm_Get_rep by (simp add: set_rep_def)
  show ?thesis
  proof (cases "map_of q r")
    case None
    then show ?thesis using assms get by (simp add: after_response_def)
  next
    case (Some p)
    define s1 where "s1 = s\<lparr>polls := hm_modify r (\<lambda>_. settle getParent (f p)) (polls s)\<rparr>"
    have s1: "set_rep s1 (update_poll r (settle getParent (f p)) q)"
      using assms hm_modify_rep [of "polls s" q r "\<lambda>_. settle getParent (f p)"]
      by (simp add: set_rep_def s1_def update_poll_def)
    have "after_response getParent r f s =
        (if \<not> finished (settle getParent (f p)) then Some ([], s1) else processFinishedPolls getParent s1)"
      using get Some by (simp add: after_response_def poll_Finished_settle s1_def Let_def)
    then show ?thesis
      using s1 Some processFinishedPolls_drain [OF s1, of getParent] by (auto simp: Let_def split: if_splits)
  qed
qed

subsection \<open>Properties\<close>

text \<open>
  C15.  The set of polls is a queue in the order of the requests.  A vote for an unknown request
  changes nothing; otherwise the poll records it, and if the poll is then finished, the results
  returned are those of the finished polls at the front of the queue, oldest first, which are
  removed; younger finished polls wait.  No call panics, and the loop over the polls ends.
\<close>

theorem poll_set_returns_finished_prefix:
  assumes "set_rep s q"
  shows "\<exists>s' q'. set_rep s' q' \<and>
    (case map_of q r of
       None \<Rightarrow> set_Vote getParent r vdr v s = Some ([], s') \<and> q' = q
     | Some p \<Rightarrow>
         let p' = settle getParent (poll_Vote vdr v p); q1 = update_poll r p' q in
         if finished p'
         then set_Vote getParent r vdr v s =
             Some (map (votes \<circ> snd) (takeWhile (\<lambda>(_, p). finished (settle getParent p)) q1), s') \<and>
           map fst q' = map fst (dropWhile (\<lambda>(_, p). finished (settle getParent p)) q1)
         else set_Vote getParent r vdr v s = Some ([], s') \<and> q' = q1)"
proof -
  obtain s' rs q' where ar: "set_Vote getParent r vdr v s = Some (rs, s')" "set_rep s' q'"
    "(rs, q') = (case map_of q r of
       None \<Rightarrow> ([], q)
     | Some p \<Rightarrow> let q1 = update_poll r (settle getParent (poll_Vote vdr v p)) q
         in if finished (settle getParent (poll_Vote vdr v p)) then drain getParent q1 else ([], q1))"
    using after_response_rep [OF assms, of getParent r "poll_Vote vdr v"] unfolding set_Vote_def by blast
  show ?thesis
  proof (cases "map_of q r")
    case None
    then show ?thesis using ar by auto
  next
    case (Some p)
    let ?p' = "settle getParent (poll_Vote vdr v p)"
    let ?q1 = "update_poll r ?p' q"
    show ?thesis
    proof (cases "finished ?p'")
      case True
      then have "drain getParent ?q1 = (rs, q')" using ar(3) Some by (simp add: Let_def)
      then have "rs = fst (drain getParent ?q1)" "q' = snd (drain getParent ?q1)" by simp_all
      then show ?thesis using ar(1,2) Some True drain_takeWhile [of getParent ?q1] by (auto simp: Let_def)
    next
      case False
      then show ?thesis using ar Some by (auto simp: Let_def)
    qed
  qed
qed

theorem poll_set_returns_finished_prefix_witness:
  "\<exists>s'. set_Vote (\<lambda>_. None) 1 2 3 (NewSet 1 1) = Some ([], s')"
proof -
  have "set_rep (NewSet 1 1) []"
    by (simp add: set_rep_def NewSet_def NewHashmap_def NewHashmapWithSize_rep)
  from poll_set_returns_finished_prefix [OF this, of "\<lambda>_. None" 1 2 3] show ?thesis by auto
qed

text \<open>
  C16.  \<open>shouldTerminate\<close> is exact: it holds of a count precisely when no number of the outstanding
  votes can move the count across the preference or the confidence threshold.
\<close>

theorem shouldTerminate_exact:
  assumes "p_alphaPreference p \<le> p_alphaConfidence p" "0 \<le> remaining"
  shows "shouldTerminate freq remaining p \<longleftrightarrow>
    (\<forall>extra \<in> {0..remaining}. (p_alphaPreference p \<le> freq + extra \<longleftrightarrow> p_alphaPreference p \<le> freq) \<and>
      (p_alphaConfidence p \<le> freq + extra \<longleftrightarrow> p_alphaConfidence p \<le> freq))"
  using shouldTerminate_iff [OF assms, of freq] by (auto simp: outcome_def)

theorem shouldTerminate_exact_witness:
  "shouldTerminate 3 1 (poll_New 3 5 empty_bag) = True"
proof -
  have "shouldTerminate 3 1 (poll_New 3 5 empty_bag) \<longleftrightarrow>
    (\<forall>extra \<in> {0..1 :: int}. (3 \<le> 3 + extra \<longleftrightarrow> 3 \<le> (3 :: int)) \<and> (5 \<le> 3 + extra \<longleftrightarrow> 5 \<le> (3 :: int)))"
    using shouldTerminate_exact [of "poll_New 3 5 empty_bag" 1 3] by (simp add: poll_New_def)
  then show ?thesis by auto
qed

text \<open>
  C17.  A validator is counted once.  Its vote adds the weight it was polled with to the chosen block
  and takes it from the outstanding weight, so that the total is unchanged; a second response of
  the same validator does not change the votes.
\<close>

theorem validator_counted_once:
  assumes "bag_inv (votes p)" "bag_inv (polled p)"
  shows "bag_Len (votes (poll_Vote vdr v p)) + bag_Len (polled (poll_Vote vdr v p)) =
      bag_Len (votes p) + bag_Len (polled p) \<and>
    Count (votes (poll_Vote vdr v p)) v = Count (votes p) v + Count (polled p) vdr \<and>
    votes (poll_Vote vdr v' (poll_Vote vdr v p)) = votes (poll_Vote vdr v p)"
proof -
  have p: "poll_inv p" using assms by (simp add: poll_inv_def)
  have "votes (poll_Vote vdr v' q) = votes q" if "Count (polled q) vdr = 0" for q
    using that by (simp add: poll_Vote_def AddCount_def Let_def)
  then show ?thesis using poll_Vote_effect [OF p] by simp
qed

theorem validator_counted_once_witness:
  "votes (poll_Vote 1 5 (poll_Vote 1 4 (poll_New 1 1 (bag_Of [1, 1, 2])))) =
   votes (poll_Vote 1 4 (poll_New 1 1 (bag_Of [1, 1, 2])))"
  using validator_counted_once [of "poll_New 1 1 (bag_Of [1, 1, 2])" 1 4 5] by (simp add: poll_New_def)

text \<open>
  C18.  \<open>longestSharedPrefixes\<close> never panics, and the bifurcations of its result are exactly the bits at
  which two of the given IDs part, each with the set of the given IDs that share the bits before.
\<close>

theorem prefix_groups_are_bifurcations:
  "\<exists>pg. longestSharedPrefixes ids = Some pg \<and>
    (\<lambda>g. (pg_index g, set (pg_members g))) ` set (filter isBifurcation (pg_traverse pg)) =
    {(j, S). \<exists>x \<in> set ids. S = {y \<in> set ids. map (Bit x) [0..<j] = map (Bit y) [0..<j]} \<and> (\<exists>y \<in> S. Bit y j \<noteq> Bit x j)}"
proof -
  have "agree 0 j x y \<longleftrightarrow> map (Bit x) [0..<j] = map (Bit y) [0..<j]" for j x y
    by (auto simp: agree_def Bit_eq split: if_splits)
  then show ?thesis
    using longestSharedPrefixes_spec [of ids] by (simp add: pg_bifurcations_def bifurcations_def)
qed



end
