(* ===== verification/AncestorTree.thy ===== *)
theory AncestorTree
  imports Ids
begin

text \<open>
  The partial view of the block tree kept by the engine (\<open>src/snow/engine/snowman/ancestor/tree.go\<close>):
  a map from blocks to parents and the inverse map to sets of children.  \<open>GetAncestor\<close> and
  \<open>RemoveDescendants\<close> are loops that end only if the view has no cycle; they are defined as partial
  functions (\<open>None\<close>: no result) and shown to return on every reachable view.
\<close>

record ancestorTree =
  childToParent :: "(ID, ID) gomap"
  parentToChildren :: "(ID, ID list) gomap"

definition at_NewTree :: ancestorTree where
  "at_NewTree = \<lparr>childToParent = [], parentToChildren = []\<rparr>"

definition at_Add :: "ID \<Rightarrow> ID \<Rightarrow> ancestorTree \<Rightarrow> ancestorTree" where
  "at_Add blkID parent t =
     (let t = t\<lparr>childToParent := mput blkID parent (childToParent t)\<rparr>;
          children = List.insert blkID (mget_or [] (parentToChildren t) parent)
      in t\<lparr>parentToChildren := mput parent children (parentToChildren t)\<rparr>)"

definition at_Has :: "ID \<Rightarrow> ancestorTree \<Rightarrow> bool" where
  "at_Has blkID t \<longleftrightarrow> mget (childToParent t) blkID \<noteq> None"

partial_function (option) GetAncestor :: "ancestorTree \<Rightarrow> ID \<Rightarrow> ID option" where
  [code]: "GetAncestor t blkID =
     (case mget (childToParent t) blkID of None \<Rightarrow> Some blkID | Some parent \<Rightarrow> GetAncestor t parent)"

definition at_Remove :: "ID \<Rightarrow> ancestorTree \<Rightarrow> ancestorTree" where
  "at_Remove blkID t =
     (case mget (childToParent t) blkID of
        None \<Rightarrow> t
      | Some parent \<Rightarrow>
          let t = t\<lparr>childToParent := mdel blkID (childToParent t)\<rparr>;
              children = removeAll blkID (mget_or [] (parentToChildren t) parent)
          in if children = [] then t\<lparr>parentToChildren := mdel parent (parentToChildren t)\<rparr>
             else t\<lparr>parentToChildren := mput parent children (parentToChildren t)\<rparr>)"

text \<open>The stack \<open>childrenList\<close> has its top at the end.\<close>

partial_function (option) removeLoop :: "ID list \<Rightarrow> ancestorTree \<Rightarrow> ancestorTree option" where
  [code]: "removeLoop childrenList t =
     (if childrenList = [] then Some t
      else let childID = last childrenList;
               t' = at_Remove childID t
           in removeLoop (butlast childrenList @ mget_or [] (parentToChildren t') childID) t')"

definition RemoveDescendants :: "ID \<Rightarrow> ancestorTree \<Rightarrow> ancestorTree option" where
  "RemoveDescendants blkID t = removeLoop [blkID] t"

definition at_Len :: "ancestorTree \<Rightarrow> int" where
  "at_Len t = int (length (childToParent t))"

subsection \<open>The invariant\<close>

abbreviation parent_of :: "ancestorTree \<Rightarrow> ID \<Rightarrow> ID \<Rightarrow> bool" where
  "parent_of t c p \<equiv> mget (childToParent t) c = Some p"

definition children_of :: "ancestorTree \<Rightarrow> ID \<Rightarrow> ID list" where
  "children_of t p = mget_or [] (parentToChildren t) p"

definition at_inv :: "ancestorTree \<Rightarrow> bool" where
  "at_inv t \<longleftrightarrow> wf_map (childToParent t) \<and> wf_map (parentToChildren t) \<and>
     (\<forall>p. distinct (children_of t p)) \<and> (\<forall>p. mget (parentToChildren t) p \<noteq> Some []) \<and>
     (\<forall>c p. c \<in> set (children_of t p) \<longleftrightarrow> parent_of t c p) \<and>
     acyclic {(c, p). parent_of t c p}"

text \<open>\<open>below t x\<close>: the known descendants of \<open>x\<close>, with \<open>x\<close> itself.\<close>

definition below :: "ancestorTree \<Rightarrow> ID \<Rightarrow> ID set" where
  "below t x = {c. (parent_of t)\<^sup>*\<^sup>* c x}"

lemma at_invD:
  assumes "at_inv t"
  shows "distinct (children_of t p)" "c \<in> set (children_of t p) \<longleftrightarrow> parent_of t c p"
    "acyclic {(c, p). parent_of t c p}" "wf_map (childToParent t)"
  using assms by (auto simp: at_inv_def)

lemma at_inv_New: "at_inv at_NewTree"
  by (simp add: at_inv_def at_NewTree_def children_of_def acyclic_def)

lemma rel_eq_pred: "(x, y) \<in> {(c, p). parent_of t c p}\<^sup>* \<longleftrightarrow> (parent_of t)\<^sup>*\<^sup>* x y"
  by (simp add: rtranclp_rtrancl_eq)

lemma at_inv_Add:
  assumes "at_inv t" "mget (childToParent t) blk = None \<or> parent_of t blk p" "\<not> (parent_of t)\<^sup>*\<^sup>* p blk"
  shows "at_inv (at_Add blk p t)"
proof -
  let ?R = "{(c, p). parent_of t c p}"
  have "{(c, p'). parent_of (at_Add blk p t) c p'} = insert (blk, p) ?R"
    using assms(2) by (auto simp: at_Add_def Let_def split: if_splits)
  moreover have "acyclic (insert (blk, p) ?R)"
    using at_invD(3) [OF assms(1)] assms(3) by (simp add: acyclic_insert rel_eq_pred)
  moreover have ch: "children_of (at_Add blk p t) q =
      (if q = p then List.insert blk (children_of t p) else children_of t q)" for q
    by (simp add: at_Add_def Let_def children_of_def)
  moreover have "c \<in> set (children_of (at_Add blk p t) q) \<longleftrightarrow> parent_of (at_Add blk p t) c q" for c q
    unfolding ch using at_invD(2) [OF assms(1)] assms(2) by (auto simp: at_Add_def Let_def)
  ultimately show ?thesis
    using assms(1) by (auto simp: at_inv_def at_Add_def Let_def List.insert_def split: if_splits)
qed

lemma Remove_parent: "at_inv t \<Longrightarrow> mget (childToParent (at_Remove x t)) c = (if c = x then None else mget (childToParent t) c)"
  using at_invD(4) [of t] by (auto simp: at_Remove_def Let_def split: option.split)

lemma Remove_children:
  assumes "at_inv t"
  shows "children_of (at_Remove x t) p = removeAll x (children_of t p)"
proof (cases "mget (childToParent t) x")
  case None
  then show ?thesis
    using at_invD(2) [OF assms, of x p] by (simp add: at_Remove_def)
next
  case (Some q)
  then have "p \<noteq> q \<Longrightarrow> x \<notin> set (children_of t p)"
    using at_invD(2) [OF assms, of x p] by simp
  moreover have "wf_map (parentToChildren t)"
    using assms by (simp add: at_inv_def)
  ultimately show ?thesis
    using Some by (auto simp: at_Remove_def Let_def children_of_def mget_or_def)
qed

lemma at_inv_Remove:
  assumes "at_inv t"
  shows "at_inv (at_Remove x t)"
proof -
  have "{(c, p). parent_of (at_Remove x t) c p} \<subseteq> {(c, p). parent_of t c p}"
    by (auto simp: Remove_parent [OF assms] split: if_splits)
  then have "acyclic {(c, p). parent_of (at_Remove x t) c p}"
    by (rule acyclic_subset [OF at_invD(3) [OF assms]])
  moreover have "wf_map (childToParent (at_Remove x t)) \<and> wf_map (parentToChildren (at_Remove x t))
      \<and> (\<forall>p. mget (parentToChildren (at_Remove x t)) p \<noteq> Some [])"
    using assms by (auto simp: at_inv_def at_Remove_def Let_def simp del: map_of_eq_Some_iff split: option.split)
  moreover have "c \<in> set (children_of (at_Remove x t) p) \<longleftrightarrow> parent_of (at_Remove x t) c p" for c p
    using at_invD(2) [OF assms] by (auto simp: Remove_children [OF assms] Remove_parent [OF assms])
  moreover have "distinct (children_of (at_Remove x t) p)" for p
    using at_invD(1) [OF assms] by (simp add: Remove_children [OF assms] distinct_removeAll)
  ultimately show ?thesis
    by (simp add: at_inv_def)
qed

subsection \<open>The oldest known ancestor\<close>

lemma wf_parent:
  assumes "at_inv t"
  shows "wf {(p, c). parent_of t c p}"
proof -
  have "{(c, p). parent_of t c p} \<subseteq> set (childToParent t)"
    by (auto dest: map_of_SomeD)
  then have "finite {(c, p). parent_of t c p}"
    by (rule finite_subset) simp
  then have "wf ({(c, p). parent_of t c p}\<inverse>)"
    using at_invD(3) [OF assms] by (rule finite_acyclic_wf_converse)
  moreover have "{(c, p). parent_of t c p}\<inverse> = {(p, c). parent_of t c p}"
    by auto
  ultimately show ?thesis
    by simp
qed

lemma GetAncestor_oldest:
  assumes "at_inv t"
  shows "\<exists>a. GetAncestor t x = Some a \<and> (parent_of t)\<^sup>*\<^sup>* x a \<and> \<not> at_Has a t"
proof (induction x rule: wf_induct_rule [OF wf_parent [OF assms]])
  case (1 x)
  show ?case
  proof (cases "mget (childToParent t) x")
    case None
    then show ?thesis
      by (auto simp: GetAncestor.simps [of t x] at_Has_def)
  next
    case (Some p)
    then obtain a where "GetAncestor t p = Some a" "(parent_of t)\<^sup>*\<^sup>* p a" "\<not> at_Has a t"
      using 1 by auto
    then show ?thesis
      using Some by (auto simp: GetAncestor.simps [of t x] intro: converse_rtranclp_into_rtranclp)
  qed
qed

subsection \<open>Removing a subtree\<close>

lemma below_self [simp]: "x \<in> below t x"
  by (simp add: below_def)

lemma finite_below [simp]: "finite (below t x)"
proof -
  have "below t x \<subseteq> insert x (fst ` set (childToParent t))"
    by (auto simp: below_def elim: converse_rtranclpE dest: mget_Some_key)
  then show ?thesis
    by (rule finite_subset) simp
qed

lemma below_children: "at_inv t \<Longrightarrow> below t x = insert x (\<Union>c\<in>set (children_of t x). below t c)"
  by (auto simp: below_def at_invD(2) intro: rtranclp.rtrancl_into_rtrancl elim: rtranclp.cases)

lemma not_above_child:
  assumes "at_inv t" "parent_of t c x"
  shows "x \<notin> below t c"
proof
  let ?R = "{(c, p). parent_of t c p}"
  assume "x \<in> below t c"
  then have "(x, c) \<in> ?R\<^sup>*" "(c, x) \<in> ?R"
    using assms(2) by (simp_all add: below_def rel_eq_pred)
  then have "(x, x) \<in> ?R\<^sup>+"
    by (rule rtrancl_into_trancl1)
  then show False
    using at_invD(3) [OF assms(1)] by (simp add: acyclic_def)
qed

lemma below_child_disjoint:
  assumes inv: "at_inv t" and p: "parent_of t c x" "parent_of t c' x" and "c \<noteq> c'"
  shows "below t c \<inter> below t c' = {}"
proof (rule ccontr)
  let ?R = "{(c, p). parent_of t c p}"
  have not_up: "False" if "(d, d') \<in> ?R\<^sup>*" "d \<noteq> d'" "parent_of t d x" "parent_of t d' x" for d d'
  proof -
    from that(1,2) obtain e where "parent_of t d e" "(e, d') \<in> ?R\<^sup>*"
      by (auto elim: converse_rtranclE)
    then have "x \<in> below t d'"
      using that(3) by (simp add: below_def rel_eq_pred)
    then show False
      using not_above_child [OF inv that(4)] by simp
  qed
  assume "below t c \<inter> below t c' \<noteq> {}"
  then obtain a where a: "(a, c) \<in> ?R\<^sup>*" "(a, c') \<in> ?R\<^sup>*"
    by (auto simp: below_def rel_eq_pred)
  have "single_valued ?R"
    by (auto intro: single_valuedI)
  from single_valued_confluent [OF this a] show False
    using not_up [of c c'] not_up [of c' c] p \<open>c \<noteq> c'\<close> by blast
qed

lemma below_Remove_subset: "at_inv t \<Longrightarrow> below (at_Remove x t) y \<subseteq> below t y"
proof -
  assume inv: "at_inv t"
  have "parent_of (at_Remove x t) \<le> parent_of t"
    by (auto simp: Remove_parent [OF inv] split: if_splits)
  from rtranclp_mono [OF this] show ?thesis
    by (auto simp: below_def)
qed

lemma below_Remove_cover:
  assumes "at_inv t"
  shows "below t y \<subseteq> below (at_Remove x t) y \<union> below t x"
proof
  fix c
  assume "c \<in> below t y"
  then have "(parent_of t)\<^sup>*\<^sup>* c y"
    by (simp add: below_def)
  then show "c \<in> below (at_Remove x t) y \<union> below t x"
  proof (induction rule: converse_rtranclp_induct)
    case base
    then show ?case by simp
  next
    case (step c d)
    then show ?case
      using Remove_parent [OF assms, of x c]
      by (cases "c = x") (auto simp: below_def intro: converse_rtranclp_into_rtranclp)
  qed
qed

lemma children_Remove_self: "at_inv t \<Longrightarrow> children_of (at_Remove x t) x = children_of t x"
  using not_above_child [of t x x] by (auto simp: Remove_children at_invD(2) intro!: removeAll_id)

lemma below_Remove_child:
  assumes "at_inv t" "c \<in> set (children_of t x)"
  shows "below (at_Remove x t) c = below t c"
proof (intro equalityI below_Remove_subset assms(1) subsetI)
  fix a
  assume a: "a \<in> below t c"
  have c: "parent_of t c x"
    using assms by (simp add: at_invD(2))
  have "(parent_of t)\<^sup>*\<^sup>* a c"
    using a by (simp add: below_def)
  then show "a \<in> below (at_Remove x t) c"
  proof (induction rule: converse_rtranclp_induct)
    case base
    then show ?case by simp
  next
    case (step a d)
    have "a \<in> below t c"
      using step(1,2) by (auto simp: below_def intro: converse_rtranclp_into_rtranclp)
    then have "a \<noteq> x"
      using not_above_child [OF assms(1) c] by auto
    then show ?case
      using step Remove_parent [OF assms(1), of x a]
      by (auto simp: below_def intro: converse_rtranclp_into_rtranclp)
  qed
qed

definition below_all :: "ancestorTree \<Rightarrow> ID list \<Rightarrow> ID set" where
  "below_all t xs = (\<Union>x\<in>set xs. below t x)"

lemma below_all_step:
  assumes inv: "at_inv t"
  shows "below_all t (stk @ [x]) = insert x (below_all (at_Remove x t) (stk @ children_of t x))"
proof -
  have "below t y \<subseteq> below (at_Remove x t) y \<union> below t x" "below (at_Remove x t) y \<subseteq> below t y" for y
    by (rule below_Remove_cover [OF inv], rule below_Remove_subset [OF inv])
  then have "(\<Union>y\<in>set stk. below t y) \<union> below t x = (\<Union>y\<in>set stk. below (at_Remove x t) y) \<union> below t x"
    by blast
  moreover have "below t x = insert x (\<Union>c\<in>set (children_of t x). below (at_Remove x t) c)"
    using below_children [OF inv, of x] below_Remove_child [OF inv] by simp
  ultimately show ?thesis
    by (auto simp: below_all_def)
qed

lemma below_size_step:
  assumes inv: "at_inv t"
  shows "(\<Sum>y\<leftarrow>stk @ children_of t x. card (below (at_Remove x t) y)) < (\<Sum>y\<leftarrow>stk @ [x]. card (below t y))"
proof -
  have "(\<Sum>y\<leftarrow>children_of t x. card (below (at_Remove x t) y)) = (\<Sum>y\<in>set (children_of t x). card (below t y))"
    using at_invD(1) [OF inv] below_Remove_child [OF inv] by (simp add: sum_list_distinct_conv_sum_set)
  also have "\<dots> = card (\<Union>c\<in>set (children_of t x). below t c)"
    by (rule card_UN_disjoint [symmetric]) (use below_child_disjoint [OF inv] at_invD(2) [OF inv] in auto)
  also have "\<dots> < card (below t x)"
    using not_above_child [OF inv] at_invD(2) [OF inv]
    by (subst below_children [OF inv]) (auto simp: card_insert_if)
  finally have "(\<Sum>y\<leftarrow>children_of t x. card (below (at_Remove x t) y)) < card (below t x)" .
  moreover have "(\<Sum>y\<leftarrow>stk. card (below (at_Remove x t) y)) \<le> (\<Sum>y\<leftarrow>stk. card (below t y))"
    by (rule sum_list_mono) (simp add: card_mono below_Remove_subset [OF inv])
  ultimately show ?thesis
    by simp
qed

lemma removeLoop_spec:
  assumes "at_inv t"
  shows "\<exists>t'. removeLoop stk t = Some t' \<and> at_inv t' \<and>
    (\<forall>c. mget (childToParent t') c = (if c \<in> below_all t stk then None else mget (childToParent t) c))"
  using assms
proof (induction "\<Sum>y\<leftarrow>stk. card (below t y)" arbitrary: stk t rule: less_induct)
  case less
  show ?case
  proof (cases stk rule: rev_cases)
    case Nil
    then show ?thesis
      using less.prems by (simp add: removeLoop.simps [of "[]"] below_all_def)
  next
    case (snoc st x)
    define t1 where "t1 = at_Remove x t"
    define s1 where "s1 = st @ children_of t x"
    have "(\<Sum>y\<leftarrow>s1. card (below t1 y)) < (\<Sum>y\<leftarrow>stk. card (below t y))"
      unfolding s1_def t1_def snoc by (rule below_size_step [OF less.prems])
    from less.hyps [OF this] obtain t' where
      "removeLoop s1 t1 = Some t'" "at_inv t'" and
      "\<And>c. mget (childToParent t') c = (if c \<in> below_all t1 s1 then None else mget (childToParent t1) c)"
      using at_inv_Remove [OF less.prems] t1_def by auto
    moreover have "removeLoop stk t = removeLoop s1 t1"
      using children_Remove_self [OF less.prems, of x]
      by (subst removeLoop.simps) (simp add: snoc s1_def t1_def children_of_def Let_def)
    moreover have "below_all t stk = insert x (below_all t1 s1)"
      unfolding snoc s1_def t1_def by (rule below_all_step [OF less.prems])
    ultimately show ?thesis
      by (simp add: t1_def Remove_parent [OF less.prems])
  qed
qed

subsection \<open>The tree under every sequence of operations\<close>

datatype at_op = OpAdd ID ID | OpRemove ID | OpRemoveDescendants ID

fun at_run :: "at_op list \<Rightarrow> ancestorTree \<Rightarrow> ancestorTree option" where
  "at_run [] t = Some t"
| "at_run (OpAdd b p # ops) t = at_run ops (at_Add b p t)"
| "at_run (OpRemove b # ops) t = at_run ops (at_Remove b t)"
| "at_run (OpRemoveDescendants b # ops) t = Option.bind (RemoveDescendants b t) (at_run ops)"

text \<open>The \<open>Invariant\<close> comments of \<open>Add\<close>: one parent per block.  A block is newer than its parent, since a
  block ID is a hash over the parent ID: \<open>rank\<close> is any such order.\<close>

fun op_ok :: "(ID \<Rightarrow> ID) \<Rightarrow> (ID \<Rightarrow> nat) \<Rightarrow> at_op \<Rightarrow> bool" where
  "op_ok parent rank (OpAdd b p) \<longleftrightarrow> parent b = p \<and> rank p < rank b"
| "op_ok parent rank (OpRemove b) \<longleftrightarrow> True"
| "op_ok parent rank (OpRemoveDescendants b) \<longleftrightarrow> True"

definition ranked :: "(ID \<Rightarrow> ID) \<Rightarrow> (ID \<Rightarrow> nat) \<Rightarrow> ancestorTree \<Rightarrow> bool" where
  "ranked parent rank t \<longleftrightarrow> (\<forall>c p. parent_of t c p \<longrightarrow> parent c = p \<and> rank p < rank c)"

lemma ranked_path: "(parent_of t)\<^sup>*\<^sup>* c p \<Longrightarrow> ranked parent rank t \<Longrightarrow> rank p \<le> rank c"
  by (induction rule: rtranclp_induct) (fastforce simp: ranked_def)+

lemma at_inv_ranked_Add:
  assumes "at_inv t" "ranked parent rank t" "op_ok parent rank (OpAdd b p)"
  shows "at_inv (at_Add b p t) \<and> ranked parent rank (at_Add b p t)"
proof -
  have "\<not> (parent_of t)\<^sup>*\<^sup>* p b"
    using ranked_path [OF _ assms(2)] assms(3) by fastforce
  moreover have "mget (childToParent t) b = None \<or> parent_of t b p"
    using assms(2,3) by (cases "mget (childToParent t) b") (auto simp: ranked_def)
  ultimately have "at_inv (at_Add b p t)"
    using at_inv_Add [OF assms(1)] by simp
  moreover have "ranked parent rank (at_Add b p t)"
    using assms(2,3) by (auto simp: ranked_def at_Add_def Let_def split: if_splits)
  ultimately show ?thesis ..
qed

lemma at_run_inv:
  assumes "at_inv t" "ranked parent rank t" "list_all (op_ok parent rank) ops"
  shows "\<exists>t'. at_run ops t = Some t' \<and> at_inv t' \<and> ranked parent rank t'"
  using assms
proof (induction ops t rule: at_run.induct)
  case (2 b p ops t)
  then show ?case
    using at_inv_ranked_Add [of t parent rank b p] by simp
next
  case (3 b ops t)
  have "ranked parent rank (at_Remove b t)"
    using 3(3) by (simp add: ranked_def Remove_parent [OF 3(2)])
  then show ?case
    using 3 at_inv_Remove [OF 3(2)] by simp
next
  case (4 b ops t)
  from removeLoop_spec [OF 4(2), of "[b]"] obtain t' where t': "RemoveDescendants b t = Some t'" "at_inv t'"
    and m: "\<forall>c. mget (childToParent t') c = (if c \<in> below_all t [b] then None else mget (childToParent t) c)"
    by (auto simp: RemoveDescendants_def)
  have "ranked parent rank t'"
    using 4(3) m by (auto simp: ranked_def split: if_splits)
  then show ?case
    using 4 t' by simp
qed simp_all

subsection \<open>Properties\<close>

text \<open>
  C24.  From the empty tree, any sequence of additions that respect the comments of \<open>Add\<close>, of removals and
  of subtree removals ends, and in the tree it leaves \<open>GetAncestor\<close> returns, for every block, the end of
  its chain of known parents: an ancestor (or the block itself) whose own parent is not known.  The two
  maps of that tree are inverse to each other and \<open>Len\<close> is the number of blocks with a known parent.\<close>

theorem GetAncestor_returns_oldest:
  assumes "list_all (op_ok parent rank) ops"
  shows "\<exists>t a. at_run ops at_NewTree = Some t \<and> GetAncestor t x = Some a \<and>
      (parent_of t)\<^sup>*\<^sup>* x a \<and> \<not> at_Has a t \<and>
      {(c, p). c \<in> set (children_of t p)} = {(c, p). parent_of t c p} \<and>
      at_Len t = int (card {c. at_Has c t})"
proof -
  have "ranked parent rank at_NewTree"
    by (simp add: ranked_def at_NewTree_def)
  from at_run_inv [OF at_inv_New this assms] obtain t where t: "at_run ops at_NewTree = Some t" "at_inv t"
    by auto
  from GetAncestor_oldest [OF t(2), of x] obtain a where
    "GetAncestor t x = Some a \<and> (parent_of t)\<^sup>*\<^sup>* x a \<and> \<not> at_Has a t"
    by auto
  moreover have "{(c, p). c \<in> set (children_of t p)} = {(c, p). parent_of t c p}"
    using at_invD(2) [OF t(2)] by simp
  moreover have "{c. at_Has c t} = fst ` set (childToParent t)"
    by (auto simp: at_Has_def map_of_eq_None_iff)
  then have "at_Len t = int (card {c. at_Has c t})"
    using at_invD(4) [OF t(2)] distinct_card [of "map fst (childToParent t)"]
    by (simp add: at_Len_def)
  ultimately show ?thesis
    using t(1) by blast
qed

theorem GetAncestor_returns_oldest_witness:
  "\<exists>t a. at_run [OpAdd 3 2, OpAdd 4 3, OpRemove 3, OpAdd 2 1] at_NewTree = Some t \<and> GetAncestor t 4 = Some a \<and>
      (parent_of t)\<^sup>*\<^sup>* 4 a \<and> \<not> at_Has a t \<and>
      {(c, p). c \<in> set (children_of t p)} = {(c, p). parent_of t c p} \<and>
      at_Len t = int (card {c. at_Has c t})"
  by (rule GetAncestor_returns_oldest [of "\<lambda>b. b - 1" unat]) simp

text \<open>
  C25.  In every such tree \<open>RemoveDescendants\<close> returns, and it deletes the parent of exactly the block and
  its known descendants; every other block keeps its parent, and the result satisfies the invariant
  (the two maps stay inverse and acyclic).\<close>

theorem RemoveDescendants_removes_subtree:
  assumes "list_all (op_ok parent rank) ops" "at_run ops at_NewTree = Some t"
  shows "\<exists>t'. RemoveDescendants x t = Some t' \<and> at_inv t' \<and>
    (\<forall>c. mget (childToParent t') c = (if (parent_of t)\<^sup>*\<^sup>* c x then None else mget (childToParent t) c))"
proof -
  have "ranked parent rank at_NewTree"
    by (simp add: ranked_def at_NewTree_def)
  from at_run_inv [OF at_inv_New this assms(1)] have "at_inv t"
    using assms(2) by simp
  from removeLoop_spec [OF this, of "[x]"] show ?thesis
    by (simp add: RemoveDescendants_def below_all_def below_def)
qed

theorem RemoveDescendants_removes_subtree_witness:
  "at_run [OpAdd 2 1, OpAdd 3 2] at_NewTree = Some \<lparr>childToParent = [(2, 1), (3, 2)], parentToChildren = [(1, [2]), (2, [3])]\<rparr> \<and>
   (\<exists>t'. RemoveDescendants 2 \<lparr>childToParent = [(2, 1), (3, 2)], parentToChildren = [(1, [2]), (2, [3])]\<rparr> = Some t' \<and> at_inv t' \<and>
      mget (childToParent t') 2 = None)"
proof -
  have run: "at_run [OpAdd 2 1, OpAdd 3 2] at_NewTree = Some \<lparr>childToParent = [(2, 1), (3, 2)], parentToChildren = [(1, [2]), (2, [3])]\<rparr>"
    by code_simp
  moreover have "list_all (op_ok (\<lambda>b. b - 1) unat) [OpAdd 2 1, OpAdd 3 2]"
    by simp
  from RemoveDescendants_removes_subtree [OF this run, of 2] show ?thesis
    using run by auto
qed

end
