(* ===== verification/Scheduler.thy ===== *)
theory Scheduler
  imports Prelude "HOL-Library.Multiset"
begin

text \<open>
  The job scheduler (\<open>src/snow/engine/snowman/job/scheduler.go\<close>).  A job is one object reachable from
  every dependency it waits for, so jobs live in a heap (an address is a position in it) and
  \<open>dependents\<close> holds addresses.  A job may call the scheduler again while it executes; the step relation
  at the end interleaves the loops of \<open>resolveDependency\<close> with whatever calls the running jobs make.
\<close>

record ('d, 'u) job =
  numUnresolved :: int
  fulfilled :: "'d list"
  abandoned :: "'d list"
  userJob :: 'u

record ('d, 'u) scheduler =
  dependents :: "('d, nat list) gomap"
  jobs :: "('d, 'u) job list"

definition NewScheduler :: "('d, 'u) scheduler" where
  "NewScheduler = \<lparr>dependents = [], jobs = []\<rparr>"

definition addDependent :: "nat \<Rightarrow> 'd \<Rightarrow> ('d, nat list) gomap \<Rightarrow> ('d, nat list) gomap" where
  "addDependent j d m = mput d (mget_or [] m d @ [j]) m"

text \<open>\<open>Schedule\<close> returns the new state and whether the job has to be executed at once.\<close>

definition Schedule :: "'u \<Rightarrow> 'd list \<Rightarrow> ('d, 'u) scheduler \<Rightarrow> ('d, 'u) scheduler \<times> bool" where
  "Schedule u deps s =
     (if deps = [] then (s, True)
      else let j = length (jobs s)
           in (s\<lparr>jobs := jobs s @ [\<lparr>numUnresolved = int (length deps), fulfilled = [], abandoned = [], userJob = u\<rparr>],
                 dependents := fold (addDependent j) deps (dependents s)\<rparr>, False))"

definition NumDependencies :: "('d, 'u) scheduler \<Rightarrow> int" where
  "NumDependencies s = int (length (dependents s))"

text \<open>The two statements before the loop of \<open>resolveDependency\<close>, and one turn of the loop up to \<open>Execute\<close>.\<close>

definition takeDependents :: "'d \<Rightarrow> ('d, 'u) scheduler \<Rightarrow> nat list \<times> ('d, 'u) scheduler" where
  "takeDependents d s = (mget_or [] (dependents s) d, s\<lparr>dependents := mdel d (dependents s)\<rparr>)"

definition noteResolved :: "'d \<Rightarrow> bool \<Rightarrow> ('d, 'u) job \<Rightarrow> ('d, 'u) job" where
  "noteResolved d ful j =
     (let j = j\<lparr>numUnresolved := numUnresolved j - 1\<rparr>
      in if ful then j\<lparr>fulfilled := fulfilled j @ [d]\<rparr> else j\<lparr>abandoned := abandoned j @ [d]\<rparr>)"

definition resolveJob :: "'d \<Rightarrow> bool \<Rightarrow> nat \<Rightarrow> ('d, 'u) scheduler \<Rightarrow> ('d, 'u) scheduler \<times> bool" where
  "resolveJob d ful a s =
     (let j = noteResolved d ful (jobs s ! a)
      in (s\<lparr>jobs := (jobs s)[a := j]\<rparr>, \<not> numUnresolved j > 0))"

text \<open>The whole of \<open>resolveDependency\<close> for jobs that do not call the scheduler back; \<open>execute\<close> is the
  jobs' \<open>Execute\<close>, an error ends the loop.\<close>

fun resolveLoop :: "('u \<Rightarrow> 'd list \<Rightarrow> 'd list \<Rightarrow> 'e option) \<Rightarrow> 'd \<Rightarrow> bool \<Rightarrow> nat list \<Rightarrow>
    ('d, 'u) scheduler \<Rightarrow> ('d, 'u) scheduler \<times> 'e option" where
  "resolveLoop execute d ful [] s = (s, None)"
| "resolveLoop execute d ful (a # as) s =
     (case resolveJob d ful a s of (s', ready) \<Rightarrow>
        if \<not> ready then resolveLoop execute d ful as s'
        else let j = jobs s' ! a
             in case execute (userJob j) (fulfilled j) (abandoned j) of
                  Some err \<Rightarrow> (s', Some err)
                | None \<Rightarrow> resolveLoop execute d ful as s')"

definition resolveDependency where
  "resolveDependency execute d ful s =
     (case takeDependents d s of (as, s') \<Rightarrow> resolveLoop execute d ful as s')"


definition Abandon where
  "Abandon execute d s = resolveDependency execute d False s"

subsection \<open>Jobs that call the scheduler\<close>

text \<open>\<open>Running\<close>: a job inside \<open>Execute\<close>; \<open>Loop d ful as\<close>: a call of \<open>resolveDependency\<close> with the jobs
  \<open>as\<close> still to visit.  The empty stack is the engine between two calls.\<close>

datatype 'd frame = Running | Loop 'd bool "nat list"

record ('d, 'u) sconfig =
  sched :: "('d, 'u) scheduler"
  stack :: "'d frame list"
  deps :: "'d list list"
  executed :: "(nat \<times> 'd list \<times> 'd list) list"
  calls :: "('d \<times> bool) list"
  dropped :: "('d \<times> nat list) list"

text \<open>\<open>deps\<close>, \<open>executed\<close>, \<open>calls\<close> and \<open>dropped\<close> record the dependencies each job was scheduled with, the
  executions with their arguments, the dependencies resolved, and the jobs a loop had not yet visited
  when an error ended it.\<close>

fun may_call :: "'d frame list \<Rightarrow> bool" where
  "may_call [] = True"
| "may_call (Running # st) = True"
| "may_call (Loop d ful as # st) = False"

fun unwind :: "bool \<Rightarrow> 'd frame list \<Rightarrow> 'd frame list \<times> ('d \<times> nat list) list" where
  "unwind True (Loop d ful as # st) = (st, [(d, as)])"
| "unwind err st = (st, [])"

inductive sched_step :: "('d, 'u) sconfig \<Rightarrow> ('d, 'u) sconfig \<Rightarrow> bool" where
  schedule_now: "\<lbrakk>may_call (stack c); Schedule u [] (sched c) = (s', True)\<rbrakk>
    \<Longrightarrow> sched_step c (c\<lparr>sched := s', stack := Running # stack c\<rparr>)"
| schedule: "\<lbrakk>may_call (stack c); Schedule u ds (sched c) = (s', False)\<rbrakk>
    \<Longrightarrow> sched_step c (c\<lparr>sched := s', deps := deps c @ [ds]\<rparr>)"
| resolve: "\<lbrakk>may_call (stack c); takeDependents d (sched c) = (as, s')\<rbrakk>
    \<Longrightarrow> sched_step c (c\<lparr>sched := s', stack := Loop d ful as # stack c, calls := calls c @ [(d, ful)]\<rparr>)"
| visit_wait: "\<lbrakk>stack c = Loop d ful (a # as) # st; resolveJob d ful a (sched c) = (s', False)\<rbrakk>
    \<Longrightarrow> sched_step c (c\<lparr>sched := s', stack := Loop d ful as # st\<rparr>)"
| visit_run: "\<lbrakk>stack c = Loop d ful (a # as) # st; resolveJob d ful a (sched c) = (s', True)\<rbrakk>
    \<Longrightarrow> sched_step c (c\<lparr>sched := s', stack := Running # Loop d ful as # st,
          executed := executed c @ [(a, fulfilled (jobs s' ! a), abandoned (jobs s' ! a))]\<rparr>)"
| loop_end: "stack c = Loop d ful [] # st \<Longrightarrow> sched_step c (c\<lparr>stack := st\<rparr>)"
| execute_end: "\<lbrakk>stack c = Running # st; unwind err st = (st', lost)\<rbrakk>
    \<Longrightarrow> sched_step c (c\<lparr>stack := st', dropped := dropped c @ lost\<rparr>)"

definition sched_start :: "('d, 'u) sconfig" where
  "sched_start = \<lparr>sched = NewScheduler, stack = [], deps = [], executed = [], calls = [], dropped = []\<rparr>"

subsection \<open>The invariant\<close>

text \<open>All places that hold job addresses, each with its dependency.\<close>

definition frame_entries :: "'d frame list \<Rightarrow> ('d \<times> nat list) list" where
  "frame_entries st = concat (map (\<lambda>f. case f of Running \<Rightarrow> [] | Loop d ful as \<Rightarrow> [(d, as)]) st)"

definition entries :: "('d, 'u) sconfig \<Rightarrow> ('d \<times> nat list) list" where
  "entries c = dependents (sched c) @ frame_entries (stack c) @ dropped c"

definition waits :: "('d \<times> nat list) list \<Rightarrow> nat \<Rightarrow> 'd multiset" where
  "waits E a = (\<Sum>(d, as)\<leftarrow>E. replicate_mset (count_list as a) d)"

definition job_ok :: "'d multiset \<Rightarrow> 'd list \<Rightarrow> ('d \<times> bool) list \<Rightarrow> ('d, 'u) job \<Rightarrow> bool" where
  "job_ok W ds cs j \<longleftrightarrow> mset ds = mset (fulfilled j) + mset (abandoned j) + W \<and>
     numUnresolved j = int (size W) \<and>
     (\<forall>d\<in>set (fulfilled j). (d, True) \<in> set cs) \<and> (\<forall>d\<in>set (abandoned j). (d, False) \<in> set cs)"

definition frames_called :: "'d frame list \<Rightarrow> ('d \<times> bool) list \<Rightarrow> bool" where
  "frames_called st cs \<longleftrightarrow> (\<forall>d ful as. Loop d ful as \<in> set st \<longrightarrow> (d, ful) \<in> set cs)"

definition sched_inv :: "('d, 'u) sconfig \<Rightarrow> bool" where
  "sched_inv c \<longleftrightarrow> wf_map (dependents (sched c)) \<and> length (deps c) = length (jobs (sched c)) \<and>
     frames_called (stack c) (calls c) \<and>
     (\<forall>a. a \<ge> length (jobs (sched c)) \<longrightarrow> waits (entries c) a = {#}) \<and>
     (\<forall>a < length (jobs (sched c)). job_ok (waits (entries c) a) (deps c ! a) (calls c) (jobs (sched c) ! a)) \<and>
     distinct (map fst (executed c)) \<and>
     set (executed c) = {(a, fulfilled (jobs (sched c) ! a), abandoned (jobs (sched c) ! a)) | a.
        a < length (jobs (sched c)) \<and> waits (entries c) a = {#}}"

lemma waits_simps [simp]:
  "waits [] a = {#}" "waits ((d, as) # E) a = replicate_mset (count_list as a) d + waits E a"
  "waits (E @ F) a = waits E a + waits F a"
  by (simp_all add: waits_def)

lemma frame_entries_simps [simp]:
  "frame_entries [] = []" "frame_entries (Running # st) = frame_entries st"
  "frame_entries (Loop d ful as # st) = (d, as) # frame_entries st"
  by (simp_all add: frame_entries_def)

lemma waits_mdel_notin: "d \<notin> fst ` set m \<Longrightarrow> mdel d m = m"
  by (simp add: delete_idem)

lemma waits_mdel: "wf_map m \<Longrightarrow> waits (mdel d m) a + replicate_mset (count_list (mget_or [] m d) a) d = waits m a"
proof (induction m)
  case (Cons e m)
  then show ?case
    by (cases e) (auto simp: mget_or_Cons waits_mdel_notin ac_simps)
qed simp

lemma waits_mput: "wf_map m \<Longrightarrow> waits (mput d as m) a = waits (mdel d m) a + replicate_mset (count_list as a) d"
proof (induction m)
  case (Cons e m)
  then show ?case
    by (cases e) (auto simp: waits_mdel_notin ac_simps)
qed simp

lemma replicate_mset_add: "replicate_mset (m + n) x = replicate_mset m x + replicate_mset n x"
  by (rule multiset_eqI) simp

lemma waits_addDependent:
  "wf_map m \<Longrightarrow> waits (addDependent j d m) a = waits m a + (if a = j then {#d#} else {#})"
  using waits_mdel [of m d a]
  by (auto simp: addDependent_def waits_mput replicate_mset_add ac_simps)

lemma wf_addDependent [simp]: "wf_map m \<Longrightarrow> wf_map (addDependent j d m)"
  by (simp add: addDependent_def)

lemma wf_fold_addDependent [simp]: "wf_map m \<Longrightarrow> wf_map (fold (addDependent j) ds m)"
  by (induction ds arbitrary: m) simp_all

lemma waits_fold_addDependent:
  "wf_map m \<Longrightarrow> waits (fold (addDependent j) ds m) a = waits m a + (if a = j then mset ds else {#})"
  by (induction ds arbitrary: m) (simp_all add: waits_addDependent)

lemma job_ok_more: "job_ok W ds cs j \<Longrightarrow> job_ok W ds (cs @ cs') j"
  by (auto simp: job_ok_def)

lemma job_ok_visit:
  assumes "job_ok (add_mset d W) ds cs j" "(d, ful) \<in> set cs"
  shows "job_ok W ds cs (noteResolved d ful j)"
  using assms by (auto simp: job_ok_def noteResolved_def Let_def)

lemma sched_inv_start: "sched_inv sched_start"
  by (simp add: sched_inv_def sched_start_def NewScheduler_def entries_def frames_called_def)

lemma sched_inv_keep:
  assumes "sched_inv c" "wf_map (dependents (sched c'))" "jobs (sched c') = jobs (sched c)"
    "deps c' = deps c" "executed c' = executed c" "frames_called (stack c') (calls c')"
    "\<And>a. waits (entries c') a = waits (entries c) a" "calls c' = calls c @ cs"
  shows "sched_inv c'"
  using assms by (simp add: sched_inv_def job_ok_more)

lemma sched_inv_schedule:
  assumes inv: "sched_inv c" and s': "Schedule u ds (sched c) = (s', False)"
  shows "sched_inv (c\<lparr>sched := s', deps := deps c @ [ds]\<rparr>)"
proof -
  let ?n = "length (jobs (sched c))" and ?c' = "c\<lparr>sched := s', deps := deps c @ [ds]\<rparr>"
  have ds: "ds \<noteq> []" and s: "s' = (sched c)\<lparr>jobs := jobs (sched c) @ [\<lparr>numUnresolved = int (length ds), fulfilled = [], abandoned = [], userJob = u\<rparr>],
      dependents := fold (addDependent ?n) ds (dependents (sched c))\<rparr>"
    using s' by (auto simp: Schedule_def Let_def split: if_splits)
  have wf: "wf_map (dependents (sched c))"
    using inv by (simp add: sched_inv_def)
  have w: "waits (entries ?c') a = waits (entries c) a + (if a = ?n then mset ds else {#})" for a
    by (simp add: entries_def s waits_fold_addDependent [OF wf])
  have new: "waits (entries c) ?n = {#}" and old: "\<And>a. a \<ge> ?n \<Longrightarrow> waits (entries c) a = {#}"
    using inv by (simp_all add: sched_inv_def)
  have "job_ok (waits (entries ?c') a) (deps ?c' ! a) (calls ?c') (jobs s' ! a)" if "a < Suc ?n" for a
    unfolding w using that inv new by (auto simp: s nth_append sched_inv_def less_Suc_eq) (simp add: job_ok_def)
  moreover have "{(a, fulfilled (jobs s' ! a), abandoned (jobs s' ! a)) | a. a < Suc ?n \<and> waits (entries ?c') a = {#}} =
      {(a, fulfilled (jobs (sched c) ! a), abandoned (jobs (sched c) ! a)) | a. a < ?n \<and> waits (entries c) a = {#}}"
    unfolding w using ds by (auto simp: s nth_append less_Suc_eq)
  moreover have "waits (entries ?c') a = {#}" if "a \<ge> Suc ?n" for a
    unfolding w using that old by simp
  moreover have "length (jobs s') = Suc ?n" "wf_map (dependents s')"
    using wf by (simp_all add: s)
  ultimately show ?thesis
    using inv by (simp add: sched_inv_def)
qed

lemma count_list_hd [simp]: "count_list (a # as) a = Suc (count_list as a)"
  by simp

lemma sched_inv_job:
  "sched_inv c \<Longrightarrow> a < length (jobs (sched c)) \<Longrightarrow>
    job_ok (waits (entries c) a) (deps c ! a) (calls c) (jobs (sched c) ! a)"
  by (simp add: sched_inv_def)

lemma sched_inv_visit:
  assumes inv: "sched_inv c" and st: "stack c = Loop d ful (a # as) # st"
    and s': "resolveJob d ful a (sched c) = (s', ready)"
    and c': "c' = c\<lparr>sched := s', stack := (if ready then [Running] else []) @ Loop d ful as # st,
        executed := executed c @ (if ready then [(a, fulfilled (jobs s' ! a), abandoned (jobs s' ! a))] else [])\<rparr>"
  shows "sched_inv c'"
proof -
  let ?n = "length (jobs (sched c))" and ?W = "waits (entries c')"
  let ?J = "jobs (sched c)" and ?exec = "\<lambda>J b. (b, fulfilled (J ! b), abandoned (J ! b))"
  have w: "waits (entries c) b = (if b = a then add_mset d (?W b) else ?W b)" for b
    using s' by (auto simp: entries_def st c' resolveJob_def Let_def)
  have a: "a < ?n"
    using inv w [of a] by (auto simp: sched_inv_def leI dest: leI)
  have called: "(d, ful) \<in> set (calls c)"
    using inv by (auto simp: sched_inv_def frames_called_def st)
  have J': "jobs s' = ?J[a := noteResolved d ful (?J ! a)]"
    using s' by (auto simp: resolveJob_def Let_def)
  have ok: "job_ok (?W b) (deps c ! b) (calls c) (jobs s' ! b)" if "b < ?n" for b
  proof (cases "b = a")
    case True
    have "job_ok (add_mset d (?W a)) (deps c ! a) (calls c) (?J ! a)"
      using sched_inv_job [OF inv a] w [of a] by simp
    then show ?thesis
      using True a job_ok_visit [OF _ called] by (simp add: J')
  next
    case False
    then show ?thesis
      using sched_inv_job [OF inv that] w [of b] by (simp add: J')
  qed
  have ready: "ready \<longleftrightarrow> ?W a = {#}"
    using ok [OF a] s' a by (auto simp: resolveJob_def Let_def job_ok_def)
  have parts: "sched c' = s'" "deps c' = deps c" "calls c' = calls c"
    "executed c' = executed c @ (if ready then [?exec (jobs s') a] else [])"
    by (simp_all add: c')
  have old: "set (executed c) = {?exec ?J b | b. b < ?n \<and> waits (entries c) b = {#}}"
    using inv by (simp add: sched_inv_def)
  have same: "?exec (jobs s') b = ?exec ?J b" if "b \<noteq> a" for b
    using that by (simp add: J')
  have "a \<notin> fst ` set (executed c)"
    unfolding old using w [of a] by auto
  then have "distinct (map fst (executed c'))"
    using inv by (simp add: parts sched_inv_def)
  moreover have "set (executed c') = {?exec (jobs s') b | b. b < ?n \<and> ?W b = {#}}"
  proof -
    have "{?exec ?J b | b. b < ?n \<and> waits (entries c) b = {#}} = {?exec ?J b | b. b < ?n \<and> ?W b = {#} \<and> b \<noteq> a}"
      using w by auto
    also have "\<dots> = {?exec (jobs s') b | b. b < ?n \<and> ?W b = {#} \<and> b \<noteq> a}"
      using same by force
    finally have "set (executed c') = {?exec (jobs s') b | b. b < ?n \<and> ?W b = {#} \<and> b \<noteq> a} \<union>
        (if ?W a = {#} then {?exec (jobs s') a} else {})"
      by (simp add: parts old ready)
    then show ?thesis
      using a by auto
  qed
  moreover have "?W b = {#}" if "b \<ge> ?n" for b
    using inv that a w [of b] by (simp add: sched_inv_def split: if_splits)
  moreover have "dependents s' = dependents (sched c)"
    using s' by (auto simp: resolveJob_def Let_def)
  moreover have "frames_called (stack c') (calls c)"
    using inv by (auto simp: sched_inv_def frames_called_def st c' split: if_splits)
  ultimately show ?thesis
    using inv ok by (simp add: sched_inv_def parts J')
qed

lemma frames_called_more: "frames_called st cs \<Longrightarrow> frames_called st (cs @ cs')"
  by (auto simp: frames_called_def)

lemma unwind_keeps:
  assumes "unwind err st = (st', lost)"
  shows "set st' \<subseteq> set st" "waits (frame_entries st') a + waits lost a = waits (frame_entries st) a"
  using assms by (auto elim!: unwind.elims simp: ac_simps)

lemma frames_called_mono: "frames_called st cs \<Longrightarrow> set st' \<subseteq> set st \<Longrightarrow> frames_called st' cs"
  by (auto simp: frames_called_def)

lemma sched_inv_step: "sched_step c c' \<Longrightarrow> sched_inv c \<Longrightarrow> sched_inv c'"
proof (induction rule: sched_step.induct)
  case (schedule_now c u s')
  then show ?case
    by (intro sched_inv_keep [OF schedule_now(3), of _ "[]"])
      (auto simp: Schedule_def entries_def sched_inv_def frames_called_def)
next
  case (schedule c u ds s')
  then show ?case
    by (intro sched_inv_schedule)
next
  case (resolve c d as s' ful)
  have wf: "wf_map (dependents (sched c))" and called: "frames_called (stack c) (calls c)"
    using resolve(3) by (simp_all add: sched_inv_def)
  then show ?case
    using resolve(2) waits_mdel [OF wf, of d]
    by (intro sched_inv_keep [OF resolve(3), of _ "[(d, ful)]"])
      (auto simp: takeDependents_def entries_def frames_called_def ac_simps)
next
  case (visit_wait c d ful a as st s')
  show ?case
    by (rule sched_inv_visit [OF visit_wait(3,1,2)]) simp
next
  case (visit_run c d ful a as st s')
  show ?case
    by (rule sched_inv_visit [OF visit_run(3,1,2)]) simp
next
  case (loop_end c d ful st)
  then show ?case
    by (intro sched_inv_keep [OF loop_end(2), of _ "[]"])
      (auto simp: entries_def sched_inv_def frames_called_def)
next
  case (execute_end c st err st' lost)
  have "frames_called (stack c) (calls c)" "wf_map (dependents (sched c))"
    using execute_end(3) by (simp_all add: sched_inv_def)
  then have "frames_called st' (calls c)"
    using unwind_keeps(1) [OF execute_end(2)] execute_end(1) frames_called_mono [of "stack c" "calls c" st']
    by auto
  then show ?case
    using execute_end(1) \<open>wf_map (dependents (sched c))\<close>
    by (intro sched_inv_keep [OF execute_end(3), of _ "[]"])
      (simp_all add: entries_def unwind_keeps(2) [OF execute_end(2), symmetric] ac_simps)
qed

lemma sched_reach_inv: "sched_step\<^sup>*\<^sup>* sched_start c \<Longrightarrow> sched_inv c"
  by (induction rule: rtranclp_induct) (auto intro: sched_inv_start sched_inv_step)


lemma waits_empty_iff: "waits E a = {#} \<longleftrightarrow> (\<forall>(d, as)\<in>set E. a \<notin> set as)"
proof (induction E)
  case (Cons e E)
  then show ?case
    by (cases e) (auto simp: replicate_mset_eq_empty_iff count_list_0_iff)
qed simp

lemma size_waits: "int (size (waits E a)) = (\<Sum>as\<leftarrow>map snd E. int (count_list as a))"
  by (induction E) auto

subsection \<open>Properties\<close>

text \<open>
  C12.  However the calls to \<open>Schedule\<close>, \<open>Fulfill\<close> and \<open>Abandon\<close> are interleaved with the loops of
  \<open>resolveDependency\<close>, also by jobs that call the scheduler while they execute, no waiting job is executed
  twice, and a job is executed with lists \<open>fulfilled\<close> and \<open>abandoned\<close> that together are exactly the
  dependencies it was scheduled with (duplicates counted), each fulfilled one passed to \<open>Fulfill\<close>
  and each abandoned one to \<open>Abandon\<close>.\<close>

theorem job_executed_once_with_its_dependencies:
  assumes "sched_step\<^sup>*\<^sup>* sched_start c"
  shows "distinct (map fst (executed c)) \<and>
    (\<forall>(a, ful, ab)\<in>set (executed c). a < length (deps c) \<and> mset ful + mset ab = mset (deps c ! a) \<and>
       set ful \<subseteq> {d. (d, True) \<in> set (calls c)} \<and> set ab \<subseteq> {d. (d, False) \<in> set (calls c)})"
proof -
  have inv: "sched_inv c"
    using assms by (rule sched_reach_inv)
  have "a < length (deps c) \<and> mset ful + mset ab = mset (deps c ! a) \<and>
       set ful \<subseteq> {d. (d, True) \<in> set (calls c)} \<and> set ab \<subseteq> {d. (d, False) \<in> set (calls c)}"
    if "(a, ful, ab) \<in> set (executed c)" for a ful ab
  proof -
    have "a < length (jobs (sched c))" "waits (entries c) a = {#}"
      and e: "ful = fulfilled (jobs (sched c) ! a)" "ab = abandoned (jobs (sched c) ! a)"
      using that inv by (auto simp: sched_inv_def)
    then have "job_ok {#} (deps c ! a) (calls c) (jobs (sched c) ! a)" "a < length (deps c)"
      using sched_inv_job [OF inv] inv by (fastforce, simp add: sched_inv_def)
    then show ?thesis
      by (auto simp: job_ok_def e)
  qed
  then show ?thesis
    using inv by (auto simp: sched_inv_def)
qed

text \<open>
  C13.  When the scheduler is at rest and no job has returned an error to a loop, the jobs that have
  been executed are exactly the scheduled jobs that no pending dependency holds: a job is neither
  forgotten once its last dependency is resolved nor executed before that.  For every job the counter
  \<open>numUnresolved\<close> is the number of its dependencies that are still pending.\<close>

theorem job_executed_iff_resolved:
  assumes "sched_step\<^sup>*\<^sup>* sched_start c" "stack c = []" "dropped c = []" "a < length (deps c)"
  shows "(a \<in> fst ` set (executed c) \<longleftrightarrow> (\<forall>as\<in>snd ` set (dependents (sched c)). a \<notin> set as)) \<and>
    numUnresolved (jobs (sched c) ! a) = (\<Sum>as\<leftarrow>map snd (dependents (sched c)). int (count_list as a))"
proof -
  have inv: "sched_inv c"
    using assms(1) by (rule sched_reach_inv)
  have a: "a < length (jobs (sched c))"
    using inv assms(4) by (simp add: sched_inv_def)
  have w: "waits (entries c) a = waits (dependents (sched c)) a"
    by (simp add: entries_def assms(2,3))
  have "a \<in> fst ` set (executed c) \<longleftrightarrow> waits (entries c) a = {#}"
    using inv a by (auto simp: sched_inv_def image_iff)
  then show ?thesis
    using sched_inv_job [OF inv a] by (auto simp: w waits_empty_iff job_ok_def size_waits)
qed


subsection \<open>A run\<close>

definition example_after_schedule :: "(nat, nat) sconfig" where
  "example_after_schedule = sched_start\<lparr>sched := fst (Schedule 7 [1, 2] NewScheduler), deps := [[1, 2]]\<rparr>"

lemma example_scheduled: "sched_step\<^sup>*\<^sup>* sched_start example_after_schedule"
  using schedule [of sched_start "7 :: nat" "[1 :: nat, 2]" "fst (Schedule 7 [1, 2] NewScheduler)"]
  by (auto simp: example_after_schedule_def sched_start_def Schedule_def Let_def)

definition example_half :: "(nat, nat) sconfig" where
  "example_half = example_after_schedule\<lparr>sched := \<lparr>dependents = [(2, [0])],
      jobs = [\<lparr>numUnresolved = 1, fulfilled = [1], abandoned = [], userJob = 7\<rparr>]\<rparr>, calls := [(1, True)]\<rparr>"

definition example_done :: "(nat, nat) sconfig" where
  "example_done = example_half\<lparr>sched := \<lparr>dependents = [],
      jobs = [\<lparr>numUnresolved = 0, fulfilled = [1], abandoned = [2], userJob = 7\<rparr>]\<rparr>,
      stack := [Running, Loop 2 False []], executed := [(0, [1], [2])], calls := [(1, True), (2, False)]\<rparr>"

lemmas example_defs = example_done_def example_half_def example_after_schedule_def sched_start_def
  Schedule_def NewScheduler_def Let_def addDependent_def takeDependents_def resolveJob_def noteResolved_def mget_or_def

lemma example_half_reached: "sched_step\<^sup>*\<^sup>* sched_start example_half"
proof -
  have "sched_step example_after_schedule (example_half\<lparr>sched := snd (takeDependents 1 (sched example_after_schedule)), stack := [Loop 1 True [0]]\<rparr>)"
    using resolve [of example_after_schedule 1 "[0]" _ True] by (simp add: example_defs)
  moreover have "sched_step \<dots> (example_half\<lparr>stack := [Loop 1 True []]\<rparr>)"
    using visit_wait [of "example_half\<lparr>sched := snd (takeDependents 1 (sched example_after_schedule)), stack := [Loop 1 True [0]]\<rparr>" 1 True 0 "[]" "[]"]
    by (simp add: example_defs)
  moreover have "sched_step (example_half\<lparr>stack := [Loop 1 True []]\<rparr>) example_half"
    using loop_end [of "example_half\<lparr>stack := [Loop 1 True []]\<rparr>" 1 True "[]"] by (simp add: example_defs)
  ultimately show ?thesis
    using example_scheduled by (meson rtranclp.rtrancl_into_rtrancl)
qed

lemma example_done_reached: "sched_step\<^sup>*\<^sup>* sched_start example_done"
proof -
  let ?c = "example_half\<lparr>sched := snd (takeDependents 2 (sched example_half)), stack := [Loop 2 False [0]], calls := [(1, True), (2, False)]\<rparr>"
  have "sched_step example_half ?c"
    using resolve [of example_half 2 "[0]" _ False] by (simp add: example_defs)
  moreover have "sched_step ?c example_done"
    using visit_run [of ?c 2 False 0 "[]" "[]"] by (simp add: example_defs)
  ultimately show ?thesis
    using example_half_reached by (meson rtranclp.rtrancl_into_rtrancl)
qed

theorem job_executed_once_witness:
  "sched_step\<^sup>*\<^sup>* sched_start example_done \<and> executed example_done = [(0, [1], [2])] \<and>
   mset [1] + mset [2] = mset (deps example_done ! 0)"
proof -
  have "executed example_done = [(0, [1], [2])]"
    by (simp add: example_defs)
  then show ?thesis
    using job_executed_once_with_its_dependencies [OF example_done_reached] example_done_reached
    by (simp add: add_mset_commute)
qed

theorem job_executed_iff_resolved_witness:
  "sched_step\<^sup>*\<^sup>* sched_start example_after_schedule \<and> numUnresolved (jobs (sched example_after_schedule) ! 0) = 2"
proof -
  have "stack example_after_schedule = []" "dropped example_after_schedule = []" "0 < length (deps example_after_schedule)"
    by (simp_all add: example_after_schedule_def sched_start_def)
  from job_executed_iff_resolved [OF example_scheduled this] show ?thesis
    using example_scheduled
    by (simp add: example_after_schedule_def sched_start_def Schedule_def NewScheduler_def Let_def addDependent_def)
qed


end
