(* ===== verification/BootstrapPoll.thy ===== *)
theory BootstrapPoll
  imports Ids SafeMath
begin

text \<open>
  The polls of the bootstrapping phase (\<open>src/snow/consensus/snowman/bootstrapper\<close>): \<open>requests\<close> hands out
  the peers to ask, \<open>Minority\<close> collects the frontier reported by some peers, \<open>Majority\<close> accepts the blocks that
  more than half of the stake reports.  A Go set is a list without duplicates; which element \<open>Pop\<close> takes is
  the choice of the run time, the parameter \<open>pick\<close>.
\<close>

subsection \<open>Outstanding requests\<close>

record requests =
  maxOutstanding :: int
  pendingSend :: "NodeID list"
  outstanding :: "NodeID list"

fun popN :: "(NodeID list \<Rightarrow> NodeID) \<Rightarrow> nat \<Rightarrow> NodeID list \<Rightarrow> NodeID list \<Rightarrow> NodeID list \<times> NodeID list" where
  "popN pick 0 pending nodeIDs = (pending, nodeIDs)"
| "popN pick (Suc n) pending nodeIDs =
     (if pending = [] then popN pick n pending (List.insert 0 nodeIDs)
      else let nodeID = pick pending
           in popN pick n (remove1 nodeID pending) (List.insert nodeID nodeIDs))"

definition GetPeers :: "(NodeID list \<Rightarrow> NodeID) \<Rightarrow> requests \<Rightarrow> requests \<times> NodeID list" where
  "GetPeers pick r =
     (let numPending = int (length (outstanding r)) in
      if numPending \<ge> maxOutstanding r then (r, [])
      else let numToSend = min (maxOutstanding r - numPending) (int (length (pendingSend r)));
               (pending, nodeIDs) = popN pick (nat numToSend) (pendingSend r) []
           in (r\<lparr>pendingSend := pending, outstanding := List.union (outstanding r) nodeIDs\<rparr>, nodeIDs))"

definition recordResponse :: "NodeID \<Rightarrow> requests \<Rightarrow> requests \<times> bool" where
  "recordResponse nodeID r =
     (r\<lparr>outstanding := removeAll nodeID (outstanding r)\<rparr>, nodeID \<in> set (outstanding r))"

definition req_finished :: "requests \<Rightarrow> bool" where
  "req_finished r \<longleftrightarrow> length (pendingSend r) = 0 \<and> length (outstanding r) = 0"

subsection \<open>Minority\<close>





subsection \<open>Majority\<close>

record Majority =
  maj_requests :: requests
  nodeWeights :: "(NodeID, 64 word) gomap"
  received :: "(ID, 64 word) gomap"
  accepted :: "ID list"

definition NewMajority :: "(NodeID, 64 word) gomap \<Rightarrow> int \<Rightarrow> Majority" where
  "NewMajority weights maxOut =
     \<lparr>maj_requests = \<lparr>maxOutstanding = maxOut, pendingSend = mkeys weights, outstanding = []\<rparr>,
      nodeWeights = weights, received = [], accepted = []\<rparr>"

fun addWeights :: "64 word \<Rightarrow> ID list \<Rightarrow> (ID, 64 word) gomap \<Rightarrow> (ID, 64 word) gomap \<times> math_error option" where
  "addWeights weight [] rec = (rec, None)"
| "addWeights weight (blkID # blkIDs) rec =
     (case SafeMath.Add (mget_or 0 rec blkID) weight of
        Inl err \<Rightarrow> (rec, Some err)
      | Inr newWeight \<Rightarrow> addWeights weight blkIDs (mput blkID newWeight rec))"

fun sumWeights :: "64 word \<Rightarrow> 64 word list \<Rightarrow> math_error + 64 word" where
  "sumWeights totalWeight [] = Inr totalWeight"
| "sumWeights totalWeight (w # ws) =
     (case SafeMath.Add totalWeight w of Inl err \<Rightarrow> Inl err | Inr t \<Rightarrow> sumWeights t ws)"

definition maj_RecordOpinion :: "NodeID \<Rightarrow> ID list \<Rightarrow> Majority \<Rightarrow> Majority \<times> math_error option" where
  "maj_RecordOpinion nodeID blkIDs m =
     (case recordResponse nodeID (maj_requests m) of (r, ok) \<Rightarrow>
        let m = m\<lparr>maj_requests := r\<rparr> in
        if \<not> ok then (m, None)
        else let weight = mget_or 0 (nodeWeights m) nodeID in
             case addWeights weight blkIDs (received m) of
               (rec, Some err) \<Rightarrow> (m\<lparr>received := rec\<rparr>, Some err)
             | (rec, None) \<Rightarrow>
                 let m = m\<lparr>received := rec\<rparr> in
                 if \<not> req_finished (maj_requests m) then (m, None)
                 else case sumWeights 0 (map snd (nodeWeights m)) of
                        Inl err \<Rightarrow> (m, Some err)
                      | Inr totalWeight \<Rightarrow>
                          let requiredWeight = totalWeight div 2 + 1
                          in (m\<lparr>accepted := accepted m @ [blkID. (blkID, weight) \<leftarrow> received m, weight \<ge> requiredWeight]\<rparr>, None))"

definition maj_Result :: "Majority \<Rightarrow> ID list \<times> bool" where
  "maj_Result m = (accepted m, req_finished (maj_requests m))"

definition noop_GetPeers :: "NodeID list" where
  "noop_GetPeers = []"

definition noop_Result :: "ID list \<times> bool" where
  "noop_Result = ([], False)"

subsection \<open>Runs of a poll\<close>

text \<open>The engine asks for peers and reports opinions in any order, also opinions nobody asked for.  The log
  keeps the opinions of peers with an outstanding request.\<close>

datatype peer_event = Ask "NodeID list \<Rightarrow> NodeID" | Answer NodeID "ID list"

fun event_ok :: "peer_event \<Rightarrow> bool" where
  "event_ok (Ask pick) \<longleftrightarrow> pick_ok pick"
| "event_ok (Answer n bs) \<longleftrightarrow> distinct bs"

type_synonym opinion_log = "(NodeID \<times> ID list) list"

fun poll_run :: "('s \<Rightarrow> requests) \<Rightarrow> (requests \<Rightarrow> 's \<Rightarrow> 's) \<Rightarrow> (NodeID \<Rightarrow> ID list \<Rightarrow> 's \<Rightarrow> 's) \<Rightarrow>
    peer_event list \<Rightarrow> 's \<times> opinion_log \<Rightarrow> 's \<times> opinion_log" where
  "poll_run req setreq opinion [] c = c"
| "poll_run req setreq opinion (Ask pick # es) (s, log) =
     poll_run req setreq opinion es (setreq (fst (GetPeers pick (req s))) s, log)"
| "poll_run req setreq opinion (Answer n bs # es) (s, log) =
     poll_run req setreq opinion es
       (opinion n bs s, log @ (if n \<in> set (outstanding (req s)) then [(n, bs)] else []))"

definition maj_run :: "peer_event list \<Rightarrow> (NodeID, 64 word) gomap \<Rightarrow> int \<Rightarrow> Majority \<times> opinion_log" where
  "maj_run es weights maxOut =
     poll_run maj_requests (\<lambda>r. maj_requests_update (\<lambda>_. r)) (\<lambda>n bs m. fst (maj_RecordOpinion n bs m)) es
       (NewMajority weights maxOut, [])"


text \<open>Every peer is pending, outstanding or answered, and only one of them.\<close>

definition req_inv :: "NodeID list \<Rightarrow> opinion_log \<Rightarrow> requests \<Rightarrow> bool" where
  "req_inv nodes log r \<longleftrightarrow> distinct (pendingSend r @ outstanding r @ map fst log) \<and>
     set (pendingSend r @ outstanding r @ map fst log) = set nodes \<and>
     int (length (outstanding r)) \<le> max 0 (maxOutstanding r)"

lemma popN_spec:
  assumes "pick_ok pick" "n \<le> length pending" "distinct (pending @ acc)" "popN pick n pending acc = (p, a)"
  shows "distinct (p @ a) \<and> set (p @ a) = set (pending @ acc) \<and> length a = length acc + n \<and> length p = length pending - n"
  using assms
proof (induction n arbitrary: pending acc)
  case (Suc n)
  let ?x = "pick pending"
  have ne: "pending \<noteq> []"
    using Suc.prems(2) by auto
  then have x: "?x \<in> set pending"
    using Suc.prems(1) by (simp add: pick_ok_def)
  have new: "?x \<notin> set acc"
    using x Suc.prems(3) by auto
  have "distinct (p @ a) \<and> set (p @ a) = set (remove1 ?x pending @ List.insert ?x acc) \<and>
      length a = length (List.insert ?x acc) + n \<and> length p = length (remove1 ?x pending) - n"
    using Suc.prems ne x by (intro Suc.IH) (auto simp: length_remove1 Let_def)
  then show ?case
    using x new Suc.prems(3) by (auto simp: length_remove1)
qed auto

lemma length_union_disjoint:
  assumes "distinct xs" "distinct ys" "set xs \<inter> set ys = {}"
  shows "length (List.union xs ys) = length xs + length ys"
  using assms distinct_card [of "List.union xs ys"] distinct_card [of xs] distinct_card [of ys]
  by (simp add: card_Un_disjoint)

lemma GetPeers_inv:
  assumes "pick_ok pick" "req_inv nodes log r" "GetPeers pick r = (r', peers)"
  shows "req_inv nodes log r' \<and> maxOutstanding r' = maxOutstanding r \<and> (req_finished r' \<longleftrightarrow> req_finished r) \<and>
    set peers \<subseteq> set (pendingSend r) \<and> distinct peers"
proof (cases "int (length (outstanding r)) \<ge> maxOutstanding r")
  case True
  then show ?thesis
    using assms by (simp add: GetPeers_def)
next
  case False
  let ?n = "nat (min (maxOutstanding r - int (length (outstanding r))) (int (length (pendingSend r))))"
  obtain p a where pa: "popN pick ?n (pendingSend r) [] = (p, a)"
    by (rule prod.exhaust)
  have dist: "distinct (pendingSend r @ outstanding r @ map fst log)"
    using assms(2) by (simp add: req_inv_def)
  have spec: "distinct (p @ a) \<and> set (p @ a) = set (pendingSend r) \<and> length a = ?n \<and>
      length p = length (pendingSend r) - ?n"
    using dist popN_spec [OF assms(1) _ _ pa] by simp
  have r': "r' = r\<lparr>pendingSend := p, outstanding := List.union (outstanding r) a\<rparr>" "peers = a"
    using assms(3) False pa by (auto simp: GetPeers_def Let_def)
  have disj: "set a \<inter> set (outstanding r) = {}"
    using dist spec by auto
  then have un: "length (List.union (outstanding r) a) = length (outstanding r) + length a"
    using dist spec by (intro length_union_disjoint) auto
  have "req_inv nodes log r'"
    unfolding req_inv_def using assms(2) dist spec False un by (auto simp: r' req_inv_def)
  moreover have "req_finished r' \<longleftrightarrow> req_finished r"
    using un spec by (auto simp: r' req_finished_def)
  ultimately show ?thesis
    using spec by (auto simp: r')
qed

lemma recordResponse_inv:
  assumes "req_inv nodes log r" "recordResponse n r = (r', ok)"
  shows "req_inv nodes (log @ (if ok then [(n, bs)] else [])) r' \<and> maxOutstanding r' = maxOutstanding r \<and>
    (ok \<longleftrightarrow> n \<in> set (outstanding r)) \<and> (ok \<longrightarrow> \<not> req_finished r) \<and> (\<not> ok \<longrightarrow> r' = r)"
proof -
  have r': "r' = r\<lparr>outstanding := removeAll n (outstanding r)\<rparr>" and ok: "ok \<longleftrightarrow> n \<in> set (outstanding r)"
    using assms(2) by (auto simp: recordResponse_def)
  show ?thesis
  proof (cases "n \<in> set (outstanding r)")
    case True
    have "distinct (pendingSend r' @ outstanding r' @ map fst (log @ [(n, bs)]))"
      using assms(1) True by (auto simp: req_inv_def r' distinct_removeAll)
    moreover have "set (pendingSend r' @ outstanding r' @ map fst (log @ [(n, bs)])) = set nodes"
      using assms(1) True by (auto simp: req_inv_def r')
    moreover have "int (length (outstanding r')) \<le> int (length (outstanding r))"
      by (simp add: r' removeAll_filter_not_eq)
    moreover have "int (length (outstanding r)) \<le> max 0 (maxOutstanding r)" "maxOutstanding r' = maxOutstanding r"
      using assms(1) by (simp_all add: req_inv_def r')
    ultimately have "req_inv nodes (log @ [(n, bs)]) r'"
      unfolding req_inv_def by linarith
    then show ?thesis
      using True by (auto simp: ok r' req_finished_def)
  next
    case False
    then have "r' = r"
      by (simp add: r' removeAll_id)
    then show ?thesis
      using False assms(1) by (simp add: ok)
  qed
qed

text \<open>The interface of a bootstrapping poll: a state that embeds \<open>requests\<close> and a predicate that the poll
  keeps about the opinions it has counted.\<close>

locale bootstrap_poll =
  fixes req :: "'s \<Rightarrow> requests" and setreq :: "requests \<Rightarrow> 's \<Rightarrow> 's"
    and opinion :: "NodeID \<Rightarrow> ID list \<Rightarrow> 's \<Rightarrow> 's" and nodes :: "NodeID list"
    and good :: "opinion_log \<Rightarrow> 's \<Rightarrow> bool"
  assumes req_setreq: "req (setreq r s) = r"
    and req_opinion: "req (opinion n bs s) = fst (recordResponse n (req s))"
    and good_ask: "good log s \<Longrightarrow> (req_finished r \<longleftrightarrow> req_finished (req s)) \<Longrightarrow> good log (setreq r s)"
    and good_unasked: "good log s \<Longrightarrow> n \<notin> set (outstanding (req s)) \<Longrightarrow> good log (opinion n bs s)"
    and good_answer: "good log s \<Longrightarrow> req_inv nodes (log @ [(n, bs)]) (req (opinion n bs s)) \<Longrightarrow>
      n \<in> set (outstanding (req s)) \<Longrightarrow> \<not> req_finished (req s) \<Longrightarrow> distinct bs \<Longrightarrow> good (log @ [(n, bs)]) (opinion n bs s)"
begin

lemma run_inv:
  assumes "list_all event_ok es" "req_inv nodes log (req s)" "good log s"
    "poll_run req setreq opinion es (s, log) = (s', log')"
  shows "req_inv nodes log' (req s') \<and> good log' s' \<and> maxOutstanding (req s') = maxOutstanding (req s)"
  using assms
proof (induction es arbitrary: s log)
  case (Cons e es)
  show ?case
  proof (cases e)
    case (Ask pick)
    obtain r' peers where r': "GetPeers pick (req s) = (r', peers)"
      by (rule prod.exhaust)
    have "req_inv nodes log r' \<and> maxOutstanding r' = maxOutstanding (req s) \<and> (req_finished r' \<longleftrightarrow> req_finished (req s))"
      using GetPeers_inv [OF _ Cons.prems(2) r'] Cons.prems(1) Ask by simp
    then show ?thesis
      using Cons.IH [of log "setreq r' s"] Cons.prems Ask r' good_ask by (simp add: req_setreq)
  next
    case (Answer n bs)
    obtain r' ok where r': "recordResponse n (req s) = (r', ok)"
      by (rule prod.exhaust)
    let ?log = "log @ (if n \<in> set (outstanding (req s)) then [(n, bs)] else [])"
    have inv: "req_inv nodes ?log (req (opinion n bs s))" "maxOutstanding r' = maxOutstanding (req s)"
      and pend: "n \<in> set (outstanding (req s)) \<longrightarrow> \<not> req_finished (req s)"
      using recordResponse_inv [OF Cons.prems(2) r', of bs] r' by (auto simp: req_opinion)
    have "good ?log (opinion n bs s)"
    proof (cases "n \<in> set (outstanding (req s))")
      case True
      then show ?thesis
        using good_answer [OF Cons.prems(3), of n bs] inv(1) pend Cons.prems(1) Answer by simp
    next
      case False
      then show ?thesis
        using good_unasked [OF Cons.prems(3)] by simp
    qed
    with inv show ?thesis
      using Cons.IH [of ?log "opinion n bs s"] Cons.prems Answer r' by (simp add: req_opinion)
  qed
qed simp

end

subsection \<open>The majority\<close>

definition total_weight :: "(NodeID, 64 word) gomap \<Rightarrow> nat" where
  "total_weight weights = (\<Sum>(n, w)\<leftarrow>weights. unat w)"

definition support :: "(NodeID, 64 word) gomap \<Rightarrow> opinion_log \<Rightarrow> ID \<Rightarrow> nat" where
  "support weights log b = (\<Sum>(n, bs)\<leftarrow>log. if b \<in> set bs then unat (mget_or 0 weights n) else 0)"

definition maj_good :: "(NodeID, 64 word) gomap \<Rightarrow> opinion_log \<Rightarrow> Majority \<Rightarrow> bool" where
  "maj_good weights log m \<longleftrightarrow> wf_map weights \<and> total_weight weights < 2 ^ 64 \<and> nodeWeights m = weights \<and>
     wf_map (received m) \<and> (\<forall>b. unat (mget_or 0 (received m) b) = support weights log b) \<and>
     (if req_finished (maj_requests m)
      then distinct (accepted m) \<and> set (accepted m) = {b. total_weight weights < 2 * support weights log b}
      else accepted m = [])"

lemma support_snoc [simp]:
  "support weights (log @ [(n, bs)]) b = support weights log b + (if b \<in> set bs then unat (mget_or 0 weights n) else 0)"
  by (simp add: support_def)

lemma total_weight_keys: "wf_map weights \<Longrightarrow> total_weight weights = (\<Sum>n\<in>fst ` set weights. unat (mget_or 0 weights n))"
proof (induction weights)
  case (Cons e weights)
  have "(\<Sum>n\<in>fst ` set weights. unat (mget_or 0 (e # weights) n)) = (\<Sum>n\<in>fst ` set weights. unat (mget_or 0 weights n))"
    using Cons.prems by (cases e) (force intro!: sum.cong simp: mget_or_Cons)
  then show ?case
    using Cons by (cases e) (auto simp: total_weight_def mget_or_Cons)
qed (simp add: total_weight_def)

lemma support_le_total:
  assumes "wf_map weights" "distinct (map fst log)" "fst ` set log \<subseteq> fst ` set weights"
  shows "support weights log b \<le> total_weight weights"
proof -
  have "support weights log b \<le> (\<Sum>n\<leftarrow>map fst log. unat (mget_or 0 weights n))"
    unfolding support_def map_map by (rule sum_list_mono) auto
  also have "\<dots> = (\<Sum>n\<in>fst ` set log. unat (mget_or 0 weights n))"
    using assms(2) sum_list_distinct_conv_sum_set [of "map fst log"] by simp
  also have "\<dots> \<le> (\<Sum>n\<in>fst ` set weights. unat (mget_or 0 weights n))"
    by (rule sum_mono2) (use assms(3) in auto)
  finally show ?thesis
    by (simp add: total_weight_keys [OF assms(1)])
qed

lemma Add_fits: "unat a + unat (b :: 64 word) < 2 ^ 64 \<Longrightarrow> SafeMath.Add a b = Inr (a + b) \<and> unat (a + b) = unat a + unat b"
  using unat_add_lem [of a b] by (simp add: Add_cases)

lemma addWeights_spec:
  assumes "distinct bs" "wf_map rec" "\<And>b. b \<in> set bs \<Longrightarrow> unat (mget_or 0 rec b) + unat w < 2 ^ 64"
  shows "\<exists>rec'. addWeights w bs rec = (rec', None) \<and> wf_map rec' \<and>
    (\<forall>b. unat (mget_or 0 rec' b) = unat (mget_or 0 rec b) + (if b \<in> set bs then unat w else 0))"
  using assms
proof (induction bs arbitrary: rec)
  case (Cons x bs)
  let ?s = "mget_or 0 rec x + w"
  have add: "SafeMath.Add (mget_or 0 rec x) w = Inr ?s" "unat ?s = unat (mget_or 0 rec x) + unat w"
    using Add_fits [of "mget_or 0 rec x" w] Cons.prems(3) [of x] by simp_all
  have "\<exists>rec'. addWeights w bs (mput x ?s rec) = (rec', None) \<and> wf_map rec' \<and>
      (\<forall>b. unat (mget_or 0 rec' b) = unat (mget_or 0 (mput x ?s rec) b) + (if b \<in> set bs then unat w else 0))"
    using Cons.prems by (intro Cons.IH) auto
  then show ?case
    using add Cons.prems(1) by auto
qed auto

lemma sumWeights_spec: "unat t + sum_list (map unat ws) < 2 ^ 64 \<Longrightarrow>
  \<exists>r. sumWeights t ws = Inr r \<and> unat r = unat t + sum_list (map unat ws)"
proof (induction ws arbitrary: t)
  case (Cons w ws)
  then show ?case
    using Add_fits [of t w] Cons.IH [of "t + w"] by auto
qed simp

lemma above_filter: "[b. (b, w) \<leftarrow> xs, w \<ge> q] = map fst (filter (\<lambda>e. snd e \<ge> q) xs)"
  by (induction xs) auto

lemma above_set:
  assumes "wf_map rec" "0 < (q :: 64 word)"
  shows "set (map fst (filter (\<lambda>e. snd e \<ge> q) rec)) = {b. q \<le> mget_or 0 rec b}"
proof (rule set_eqI)
  fix b
  have "b \<in> set (map fst (filter (\<lambda>e. snd e \<ge> q) rec)) \<longleftrightarrow> (\<exists>w. (b, w) \<in> set rec \<and> q \<le> w)"
    by force
  also have "\<dots> \<longleftrightarrow> (\<exists>w. mget rec b = Some w \<and> q \<le> w)"
    by (simp add: map_of_eq_Some_iff [OF assms(1)])
  also have "\<dots> \<longleftrightarrow> q \<le> mget_or 0 rec b"
    using assms(2) by (cases "mget rec b") (simp_all add: mget_or_def leD)
  finally show "b \<in> set (map fst (filter (\<lambda>e. snd e \<ge> q) rec)) \<longleftrightarrow> b \<in> {b. q \<le> mget_or 0 rec b}"
    by simp
qed

lemma required_weight:
  fixes t :: "64 word"
  shows "unat (t div 2 + 1) = unat t div 2 + 1"
proof -
  have "unat (t div 2) = unat t div 2"
    by (simp add: unat_div)
  moreover have "unat t div 2 + 1 < 2 ^ 64"
    using unat_lt_pow [of t] by simp
  ultimately show ?thesis
    using unat_add_lem [of "t div 2" 1] by simp
qed

lemma maj_good_answer:
  assumes good: "maj_good weights log m"
    and inv: "req_inv (mkeys weights) (log @ [(n, bs)]) (maj_requests (fst (maj_RecordOpinion n bs m)))"
    and n: "n \<in> set (outstanding (maj_requests m))" and fin: "\<not> req_finished (maj_requests m)" and bs: "distinct bs"
  shows "maj_good weights (log @ [(n, bs)]) (fst (maj_RecordOpinion n bs m)) \<and> snd (maj_RecordOpinion n bs m) = None"
proof -
  let ?w = "mget_or 0 weights n" and ?T = "total_weight weights"
  obtain r where r: "recordResponse n (maj_requests m) = (r, True)"
    using n by (simp add: recordResponse_def)
  note g = good [unfolded maj_good_def]
  have log: "distinct (map fst (log @ [(n, bs)]))" "fst ` set (log @ [(n, bs)]) \<subseteq> fst ` set weights"
    using inv by (auto simp: req_inv_def)
  have le: "support weights (log @ [(n, bs)]) b \<le> ?T" for b
    using support_le_total [OF _ log] g by simp
  have "unat (mget_or 0 (received m) b) + unat ?w < 2 ^ 64" if "b \<in> set bs" for b
    using le [of b] g that by simp
  then obtain rec where rec: "addWeights ?w bs (received m) = (rec, None)" "wf_map rec"
    "\<And>b. unat (mget_or 0 rec b) = support weights (log @ [(n, bs)]) b"
    using addWeights_spec [OF bs, of "received m" ?w] g by auto
  have acc: "accepted m = []" and nw: "nodeWeights m = weights"
    using g fin by simp_all
  show ?thesis
  proof (cases "req_finished r")
    case False
    then show ?thesis
      using g r rec acc nw by (simp add: maj_RecordOpinion_def maj_good_def Let_def)
  next
    case True
    have T: "sum_list (map unat (map snd weights)) = ?T"
      by (simp add: total_weight_def case_prod_beta' o_def)
    obtain t where t: "sumWeights 0 (map snd weights) = Inr t" "unat t = ?T"
      using sumWeights_spec [of 0 "map snd weights"] g T by auto
    let ?acc = "map fst (filter (\<lambda>e. snd e \<ge> t div 2 + 1) rec)"
    have q: "t div 2 + 1 \<le> mget_or 0 rec b \<longleftrightarrow> ?T < 2 * support weights (log @ [(n, bs)]) b" for b
      using rec(3) [of b] t(2) by (simp add: word_le_nat_alt required_weight del: support_snoc) linarith
    have "0 < t div 2 + 1"
      using required_weight [of t] by (metis add_gr_0 unat_gt_0 word_gt_0 zero_less_one)
    then have "set ?acc = {b. ?T < 2 * support weights (log @ [(n, bs)]) b}"
      using above_set [OF rec(2)] q by simp
    moreover have "distinct ?acc"
      using rec(2) by (simp add: distinct_map_filter)
    moreover have "maj_RecordOpinion n bs m = (m\<lparr>maj_requests := r, received := rec, accepted := ?acc\<rparr>, None)"
      using True r rec(1) acc nw t(1) above_filter [of "t div 2 + 1" rec]
      by (simp add: maj_RecordOpinion_def Let_def)
    ultimately show ?thesis
      using g True rec nw by (simp add: maj_good_def del: support_snoc)
  qed
qed

interpretation maj: bootstrap_poll maj_requests "\<lambda>r. maj_requests_update (\<lambda>_. r)"
  "\<lambda>n bs m. fst (maj_RecordOpinion n bs m)" "mkeys weights" "maj_good weights" for weights
proof unfold_locales
  show "maj_requests (fst (maj_RecordOpinion n bs m)) = fst (recordResponse n (maj_requests m))" for n bs m
    by (auto simp: maj_RecordOpinion_def Let_def split: prod.split option.split sum.split)
  show "maj_good weights log (fst (maj_RecordOpinion n bs m))"
    if "maj_good weights log m" "n \<notin> set (outstanding (maj_requests m))" for log m n bs
    using that by (simp add: maj_RecordOpinion_def recordResponse_def removeAll_id Let_def)
  show "maj_good weights (log @ [(n, bs)]) (fst (maj_RecordOpinion n bs m))"
    if "maj_good weights log m" "req_inv (mkeys weights) (log @ [(n, bs)]) (maj_requests (fst (maj_RecordOpinion n bs m)))"
      "n \<in> set (outstanding (maj_requests m))" "\<not> req_finished (maj_requests m)" "distinct bs" for log m n bs
    using maj_good_answer [OF that] ..
qed (simp_all add: maj_good_def)

lemma support_as_sum:
  assumes "distinct (map fst log)"
  shows "support weights log b = (\<Sum>n \<in> {n. \<exists>bs. (n, bs) \<in> set log \<and> b \<in> set bs}. unat (mget_or 0 weights n))"
  using assms
proof (induction log)
  case (Cons e log)
  obtain x bs where e: "e = (x, bs)"
    by (rule prod.exhaust)
  let ?A = "{n. \<exists>bs. (n, bs) \<in> set log \<and> b \<in> set bs}"
  have "?A \<subseteq> fst ` set log"
    by force
  then have fin: "finite ?A" "x \<notin> ?A"
    using Cons.prems e by (auto intro: finite_subset)
  have "{n. \<exists>bs. (n, bs) \<in> set (e # log) \<and> b \<in> set bs} = (if b \<in> set bs then insert x ?A else ?A)"
    by (auto simp: e)
  then show ?case
    using Cons fin by (simp add: e support_def)
qed (simp add: support_def)



lemma req_inv_start: "distinct nodes \<Longrightarrow> req_inv nodes [] \<lparr>maxOutstanding = k, pendingSend = nodes, outstanding = []\<rparr>"
  by (simp add: req_inv_def)

lemma maj_run_inv:
  assumes "list_all event_ok es" "wf_map weights" "total_weight weights < 2 ^ 64" "maj_run es weights k = (m, log)"
  shows "req_inv (mkeys weights) log (maj_requests m) \<and> maj_good weights log m \<and> maxOutstanding (maj_requests m) = k"
proof -
  have good: "maj_good weights [] (NewMajority weights k)"
    using assms(2,3) by (auto simp: maj_good_def NewMajority_def support_def total_weight_def req_finished_def)
  have "req_inv (mkeys weights) [] (maj_requests (NewMajority weights k))"
    using req_inv_start [OF assms(2)] by (simp add: NewMajority_def)
  from maj.run_inv [OF assms(1) this good assms(4) [unfolded maj_run_def]] show ?thesis
    by (simp add: NewMajority_def)
qed

subsection \<open>Properties\<close>

text \<open>
  C10.  However requests and opinions are interleaved, when a majority poll over a total weight
  that fits 64 bits reports that it is finished, every peer has been counted exactly once, and the accepted blocks
  are exactly those that peers with more than half of the total weight reported.  Before, it reports
  none.  Recording the opinion of an asked peer never fails.\<close>

theorem majority_accepts_more_than_half:
  assumes "list_all event_ok es" "wf_map weights" "total_weight weights < 2 ^ 64" "maj_run es weights k = (m, log)"
  shows "distinct (map fst log) \<and>
    (case maj_Result m of (blks, finished) \<Rightarrow>
       if finished then fst ` set log = fst ` set weights \<and> distinct blks \<and>
         set blks = {b. total_weight weights < 2 * (\<Sum>n \<in> {n. \<exists>bs. (n, bs) \<in> set log \<and> b \<in> set bs}. unat (mget_or 0 weights n))}
       else blks = []) \<and>
    (n \<in> set (outstanding (maj_requests m)) \<and> distinct bs \<longrightarrow> snd (maj_RecordOpinion n bs m) = None)"
proof -
  have inv: "req_inv (mkeys weights) log (maj_requests m)" and good: "maj_good weights log m"
    using maj_run_inv [OF assms] by auto
  have dist: "distinct (map fst log)"
    using inv by (simp add: req_inv_def)
  have "support weights log b = (\<Sum>n \<in> {n. \<exists>bs. (n, bs) \<in> set log \<and> b \<in> set bs}. unat (mget_or 0 weights n))" for b
    using dist by (rule support_as_sum)
  moreover have "fst ` set log = fst ` set weights" if "req_finished (maj_requests m)"
    using inv that by (simp add: req_inv_def req_finished_def)
  moreover have "snd (maj_RecordOpinion n bs m) = None" if n: "n \<in> set (outstanding (maj_requests m))" "distinct bs"
  proof -
    obtain r ok where r: "recordResponse n (maj_requests m) = (r, ok)"
      by (rule prod.exhaust)
    have "req_inv (mkeys weights) (log @ [(n, bs)]) r \<and> \<not> req_finished (maj_requests m)"
      using recordResponse_inv [OF inv r, of bs] n by (cases ok) simp_all
    then show ?thesis
      using maj_good_answer [OF good _ n(1) _ n(2)] r by (simp add: maj.req_opinion)
  qed
  ultimately show ?thesis
    using good dist by (simp add: maj_good_def maj_Result_def)
qed

text \<open>Two of three peers report block 7, the third reports block 8; an unasked opinion is ignored.\<close>

definition example_events :: "peer_event list" where
  "example_events = [Answer 3 [8], Ask hd, Answer 1 [7], Ask hd, Answer 2 [7, 9], Answer 3 [8]]"

lemma example_events_ok: "list_all event_ok example_events"
  by (simp add: example_events_def pick_ok_def)

theorem majority_accepts_more_than_half_witness:
  "list_all event_ok example_events \<and> maj_Result (fst (maj_run example_events [(1, 10), (2, 20), (3, 25)] 2)) = ([7], True) \<and>
   total_weight [(1, 10), (2, 20), (3, 25)] < 2 * (10 + 20)"
proof -
  have run: "maj_run example_events [(1, 10), (2, 20), (3, 25)] 2 =
      (fst (maj_run example_events [(1, 10), (2, 20), (3, 25)] 2), [(1, [7]), (2, [7, 9]), (3, [8])])"
    and res: "maj_Result (fst (maj_run example_events [(1, 10), (2, 20), (3, 25)] 2)) = ([7], True)"
    by (code_simp, code_simp)
  from majority_accepts_more_than_half [OF example_events_ok _ _ run]
  show ?thesis
    using res example_events_ok by (auto simp: total_weight_def)
qed



end
