(* ===== verification/DbHelpers.thy ===== *)
theory DbHelpers
  imports Prelude "HOL-Library.List_Lexorder"
begin

text \<open>
  Byte strings and the typed accessors of \<open>src/database/helpers.go\<close>.  A byte slice is a list of 8-bit words
  (nil and the empty slice are both \<open>[]\<close>), compared lexicographically as Go compares strings;
  \<open>binary.BigEndian\<close> is \<open>be_pack\<close> and \<open>be_parse\<close>.
\<close>

type_synonym byte = "8 word"
type_synonym bytes = "byte list"

datatype db_error = ErrClosed | ErrNotFound | errWrongSize | errInvalidBool | errInvalidKeyLength

subsection \<open>Big-endian integers\<close>

definition be_pack :: "nat \<Rightarrow> 'a::len word \<Rightarrow> bytes" where
  "be_pack n w = map (\<lambda>i. ucast (drop_bit (8 * i) w)) (rev [0..<n])"

definition be_parse :: "bytes \<Rightarrow> 'a::len word" where
  "be_parse bs = fold (\<lambda>b acc. push_bit 8 acc OR ucast b) bs 0"

definition Uint64Size :: nat where
  "Uint64Size = 8"

definition PackUInt64 :: "64 word \<Rightarrow> bytes" where
  "PackUInt64 val = be_pack Uint64Size val"

definition ParseUInt64 :: "bytes \<Rightarrow> db_error + 64 word" where
  "ParseUInt64 b = (if length b \<noteq> Uint64Size then Inl errWrongSize else Inr (be_parse b))"

definition PackUInt32 :: "32 word \<Rightarrow> bytes" where
  "PackUInt32 val = be_pack 4 val"

definition ParseUInt32 :: "bytes \<Rightarrow> db_error + 32 word" where
  "ParseUInt32 b = (if length b \<noteq> 4 then Inl errWrongSize else Inr (be_parse b))"

definition boolKey :: "bool \<Rightarrow> bytes" where
  "boolKey b = (if b then [1] else [0])"

definition parseBool :: "bytes \<Rightarrow> db_error + bool" where
  "parseBool b = (if length b \<noteq> 1 then Inl errInvalidBool
     else if b ! 0 \<noteq> 0 \<and> b ! 0 \<noteq> 1 then Inl errInvalidBool
     else Inr (b ! 0 = 1))"

subsection \<open>Digits\<close>

definition digits :: "nat \<Rightarrow> nat \<Rightarrow> nat list" where
  "digits n m = map (\<lambda>i. m div 256 ^ i mod 256) (rev [0..<n])"

definition digits_val :: "nat list \<Rightarrow> nat" where
  "digits_val ds = fold (\<lambda>d a. a * 256 + d) ds 0"

lemma digits_0 [simp]: "digits 0 m = []"
  by (simp add: digits_def)

lemma digits_Suc: "digits (Suc n) m = (m div 256 ^ n mod 256) # digits n m"
  by (simp add: digits_def)

lemma digits_val_fold: "fold (\<lambda>d a. a * 256 + d) ds a = a * 256 ^ length ds + digits_val ds"
proof (induction ds arbitrary: a)
  case Nil
  then show ?case
    by (simp add: digits_val_def)
next
  case (Cons d ds)
  have "digits_val (d # ds) = fold (\<lambda>d a. a * 256 + d) ds d"
    by (simp add: digits_val_def)
  also have "\<dots> = d * 256 ^ length ds + digits_val ds"
    by (rule Cons)
  finally show ?case
    by (simp add: Cons distrib_right)
qed

lemma digits_val_Cons: "digits_val (d # ds) = d * 256 ^ length ds + digits_val ds"
  using digits_val_fold [of ds d] by (simp add: digits_val_def)

lemma length_digits [simp]: "length (digits n m) = n"
  by (simp add: digits_def)

lemma digits_val_digits: "digits_val (digits n m) = m mod 256 ^ n"
proof (induction n)
  case 0
  then show ?case
    by (simp add: digits_val_def)
next
  case (Suc n)
  then show ?case
    using mod_mult2_eq [of m "256 ^ n" 256] by (simp add: digits_Suc digits_val_Cons mult.commute [of "256 ^ n"])
qed

lemma digit_compare:
  fixes p :: nat
  assumes "a < p" "b < p"
  shows "x * p + a < y * p + b \<longleftrightarrow> x < y \<or> x = y \<and> a < b"
proof (cases x y rule: linorder_cases)
  case less
  then obtain k where "y = x + Suc k"
    using less_imp_Suc_add by fastforce
  then show ?thesis
    using assms by (simp add: distrib_right)
next
  case greater
  then obtain k where "x = y + Suc k"
    using less_imp_Suc_add by fastforce
  then show ?thesis
    using assms by (simp add: distrib_right)
qed simp

lemma digits_val_bound: "(\<forall>d\<in>set xs. d < 256) \<Longrightarrow> digits_val xs < 256 ^ length xs"
proof (induction xs)
  case (Cons x xs)
  then have "digits_val xs < 256 ^ length xs" "x < 256"
    by simp_all
  then show ?case
    using digit_compare [of "digits_val xs" "256 ^ length xs" 0 x 256] by (simp add: digits_val_Cons)
qed (simp add: digits_val_def)

lemma digits_val_less:
  "length xs = length ys \<Longrightarrow> (\<forall>d\<in>set xs. d < 256) \<Longrightarrow> (\<forall>d\<in>set ys. d < 256) \<Longrightarrow>
    xs < ys \<longleftrightarrow> digits_val xs < digits_val ys"
proof (induction xs ys rule: list_induct2)
  case (Cons x xs y ys)
  have "digits_val xs < 256 ^ length xs" "digits_val ys < 256 ^ length xs"
    using Cons.prems digits_val_bound [of xs] digits_val_bound [of ys] Cons.hyps by auto
  from digit_compare [OF this, of x y] show ?case
    using Cons by (simp add: digits_val_Cons)
qed simp

lemma digits_less: "m < 256 ^ n \<Longrightarrow> m' < 256 ^ n \<Longrightarrow> digits n m < digits n m' \<longleftrightarrow> m < m'"
proof -
  have "\<forall>d\<in>set (digits n k). d < 256" for k
    by (auto simp: digits_def)
  then show "m < 256 ^ n \<Longrightarrow> m' < 256 ^ n \<Longrightarrow> ?thesis"
    by (simp add: digits_val_less digits_val_digits)
qed

subsection \<open>The codec\<close>

lemma unat_bound: "unat (w :: 'a::len word) < 2 ^ LENGTH('a)"
  by (rule unsigned_less)

lemma unat_byte: "unat (ucast (drop_bit k (w :: 'a::len word)) :: byte) = unat w div 2 ^ k mod 256"
proof -
  have "unat (drop_bit k w) = drop_bit k (unat w)"
    by (simp add: unsigned_drop_bit_eq take_bit_nat_eq_self)
  also have "\<dots> = unat w div 2 ^ k"
    by (simp add: drop_bit_eq_div)
  finally show ?thesis
    by (simp add: unsigned_ucast_eq take_bit_eq_mod)
qed

lemma be_pack_digits: "map unat (be_pack n w) = digits n (unat w)"
  by (simp add: be_pack_def digits_def unat_byte power_mult)

lemma length_be_pack [simp]: "length (be_pack n w) = n"
  by (simp add: be_pack_def)

lemma map_unat_less: "(xs :: bytes) < ys \<longleftrightarrow> map unat xs < map unat ys"
proof (induction xs arbitrary: ys)
  case Nil
  then show ?case
    by (cases ys) auto
next
  case (Cons x xs)
  show ?case
  proof (cases ys)
    case (Cons y zs)
    then show ?thesis
      using Cons.IH [of zs] by (simp add: word_less_nat_alt word_unat_eq_iff)
  qed simp
qed

lemma be_pack_less:
  fixes v w :: "'a::len word"
  assumes "LENGTH('a) = 8 * n"
  shows "be_pack n v < be_pack n w \<longleftrightarrow> v < w"
proof -
  have "unat x < 256 ^ n" for x :: "'a word"
    using unat_bound [of x] assms by (simp add: power_mult)
  then show ?thesis
    by (simp add: map_unat_less be_pack_digits digits_less word_less_nat_alt)
qed

lemma unat_shift_or:
  fixes acc :: "'a::len word" and b :: byte
  assumes "unat acc * 256 + unat b < 2 ^ LENGTH('a)" "8 \<le> LENGTH('a)"
  shows "unat (push_bit 8 acc OR ucast b) = unat acc * 256 + unat b"
proof -
  have "push_bit 8 acc AND (ucast b :: 'a word) = 0"
    by (rule bit_word_eqI) (auto simp: bit_simps dest: bit_imp_le_length)
  then have "push_bit 8 acc OR ucast b = push_bit 8 acc + (ucast b :: 'a word)"
    by (simp add: disjunctive_add_eq_or)
  moreover have "unat (push_bit 8 acc) = unat acc * 256"
  proof -
    have "unat (push_bit 8 acc) = take_bit LENGTH('a) (push_bit 8 (unat acc))"
      by (rule unsigned_push_bit_eq)
    also have "\<dots> = unat acc * 256"
      using assms(1) by (simp add: push_bit_eq_mult take_bit_nat_eq_self)
    finally show ?thesis .
  qed
  moreover have "unat (ucast b :: 'a word) = unat b"
    using assms(1) by (simp add: unsigned_ucast_eq take_bit_nat_eq_self)
  ultimately show ?thesis
    using assms(1) unat_add_lem [of "push_bit 8 acc" "ucast b"] by simp
qed

lemma be_parse_val:
  fixes acc :: "'a::len word" and bs :: bytes
  assumes "unat acc < 256 ^ k" "256 ^ (k + length bs) \<le> (2 :: nat) ^ LENGTH('a)" "8 \<le> LENGTH('a)"
  shows "unat (fold (\<lambda>b acc. push_bit 8 acc OR ucast b) bs acc) = fold (\<lambda>d a. a * 256 + d) (map unat bs) (unat acc)"
  using assms
proof (induction bs arbitrary: acc k)
  case (Cons b bs)
  have b: "unat b < 256"
    using unat_bound [of b] by simp
  have "unat acc * 256 + unat b < 256 ^ Suc k"
    using digit_compare [of "unat b" 256 0 "unat acc" "256 ^ k"] Cons.prems(1) b by (simp add: mult.commute)
  moreover have "(256 :: nat) ^ Suc k \<le> 256 ^ (k + length (b # bs))"
    by (rule power_increasing) simp_all
  ultimately have "unat acc * 256 + unat b < 2 ^ LENGTH('a)"
    using Cons.prems(2) by linarith
  then have step: "unat (push_bit 8 acc OR ucast b) = unat acc * 256 + unat b"
    using Cons.prems(3) by (rule unat_shift_or)
  then have "unat (push_bit 8 acc OR ucast b) < 256 ^ Suc k"
    using \<open>unat acc * 256 + unat b < 256 ^ Suc k\<close> by simp
  then show ?case
    using Cons.IH [of "push_bit 8 acc OR ucast b" "Suc k"] Cons.prems step by simp
qed simp

lemma be_parse_pack:
  fixes w :: "'a::len word"
  assumes "LENGTH('a) = 8 * n" "0 < n"
  shows "be_parse (be_pack n w) = w"
proof -
  have size: "(256 :: nat) ^ n = 2 ^ LENGTH('a)"
    using assms by (simp add: power_mult)
  have "unat (be_parse (be_pack n w) :: 'a word) = digits_val (digits n (unat w))"
    unfolding be_parse_def using be_parse_val [of "0 :: 'a word" 0 "be_pack n w"] size assms
    by (simp add: be_pack_digits digits_val_def)
  also have "\<dots> = unat w"
    using unat_bound [of w] by (simp add: digits_val_digits size)
  finally show ?thesis
    by (simp add: word_unat_eq_iff)
qed

lemma ParsePack64 [simp]: "ParseUInt64 (PackUInt64 v) = Inr v"
  by (simp add: ParseUInt64_def PackUInt64_def be_parse_pack Uint64Size_def)

lemma ParsePack32 [simp]: "ParseUInt32 (PackUInt32 v) = Inr v"
  by (simp add: ParseUInt32_def PackUInt32_def be_parse_pack)

lemma Pack64_less [simp]: "PackUInt64 v < PackUInt64 w \<longleftrightarrow> v < w"
  by (simp add: PackUInt64_def be_pack_less Uint64Size_def)

lemma Pack64_inj [simp]: "PackUInt64 v = PackUInt64 w \<longleftrightarrow> v = w"
  by (metis ParsePack64 sum.inject(2))

lemma Pack64_le [simp]: "PackUInt64 v \<le> PackUInt64 w \<longleftrightarrow> v \<le> w"
  by (simp add: list_le_def order_le_less)

lemma parseBool_boolKey [simp]: "parseBool (boolKey b) = Inr b"
  by (simp add: parseBool_def boolKey_def)

end
