(* ===== verification/Database.thy ===== *)
theory Database
  imports DbHelpers
begin

text \<open>
  The key-value database interface (\<open>src/database\<close>), batches and the in-memory implementation
  (\<open>src/database/memdb/db.go\<close>).  A value of the Go interface \<open>Database\<close> is its method table, the record
  \<open>kv_ops\<close>, together with a state \<open>'s\<close>; \<open>'i\<close> is the state of its iterators.  The contract of the interface is
  the locale \<open>kv_database\<close>: every implementation is a map from byte strings to byte strings, and an iterator delivers the
  entries present at its creation in increasing order of keys.  Each call holds the lock for its whole
  duration, so calls are atomic steps of the model.
\<close>

subsection \<open>Batches\<close>

record BatchOp =
  op_Key :: bytes
  op_Value :: bytes
  op_Delete :: bool

record BatchOps =
  Ops :: "BatchOp list"
  batch_size :: int

definition NewBatch :: BatchOps where
  "NewBatch = \<lparr>Ops = [], batch_size = 0\<rparr>"

definition batch_Put :: "bytes \<Rightarrow> bytes \<Rightarrow> BatchOps \<Rightarrow> BatchOps" where
  "batch_Put key value b =
     b\<lparr>Ops := Ops b @ [\<lparr>op_Key = key, op_Value = value, op_Delete = False\<rparr>],
       batch_size := batch_size b + int (length key) + int (length value)\<rparr>"

definition batch_Delete :: "bytes \<Rightarrow> BatchOps \<Rightarrow> BatchOps" where
  "batch_Delete key b =
     b\<lparr>Ops := Ops b @ [\<lparr>op_Key = key, op_Value = [], op_Delete = True\<rparr>],
       batch_size := batch_size b + int (length key)\<rparr>"

definition batch_Size :: "BatchOps \<Rightarrow> int" where
  "batch_Size b = batch_size b"

definition batch_Reset :: "BatchOps \<Rightarrow> BatchOps" where
  "batch_Reset b = b\<lparr>Ops := [], batch_size := 0\<rparr>"

subsection \<open>The interface\<close>

record ('s, 'i) kv_ops =
  kv_Has :: "bytes \<Rightarrow> 's \<Rightarrow> db_error + bool"
  kv_Get :: "bytes \<Rightarrow> 's \<Rightarrow> db_error + bytes"
  kv_Put :: "bytes \<Rightarrow> bytes \<Rightarrow> 's \<Rightarrow> 's \<times> db_error option"
  kv_Delete :: "bytes \<Rightarrow> 's \<Rightarrow> 's \<times> db_error option"
  kv_Write :: "BatchOp list \<Rightarrow> 's \<Rightarrow> 's \<times> db_error option"
  kv_Close :: "'s \<Rightarrow> 's \<times> db_error option"
  kv_NewIteratorWithStartAndPrefix :: "bytes \<Rightarrow> bytes \<Rightarrow> 's \<Rightarrow> 'i"
  it_Next :: "'s \<Rightarrow> 'i \<Rightarrow> 'i \<times> bool"
  it_Error :: "'i \<Rightarrow> db_error option"
  it_Key :: "'i \<Rightarrow> bytes"
  it_Value :: "'i \<Rightarrow> bytes"
  it_Release :: "'i \<Rightarrow> 'i"

fun Replay :: "('s, 'i, 'z) kv_ops_scheme \<Rightarrow> BatchOp list \<Rightarrow> 's \<Rightarrow> 's \<times> db_error option" where
  "Replay K [] w = (w, None)"
| "Replay K (op # ops) w =
     (case (if op_Delete op then kv_Delete K (op_Key op) w else kv_Put K (op_Key op) (op_Value op) w) of
        (w, Some err) \<Rightarrow> (w, Some err)
      | (w, None) \<Rightarrow> Replay K ops w)"

definition PutUInt64 :: "('s, 'i, 'z) kv_ops_scheme \<Rightarrow> bytes \<Rightarrow> 64 word \<Rightarrow> 's \<Rightarrow> 's \<times> db_error option" where
  "PutUInt64 K key val db = kv_Put K key (PackUInt64 val) db"

definition GetUInt64 :: "('s, 'i, 'z) kv_ops_scheme \<Rightarrow> bytes \<Rightarrow> 's \<Rightarrow> db_error + 64 word" where
  "GetUInt64 K key db = (case kv_Get K key db of Inl err \<Rightarrow> Inl err | Inr b \<Rightarrow> ParseUInt64 b)"

definition PutUInt32 :: "('s, 'i, 'z) kv_ops_scheme \<Rightarrow> bytes \<Rightarrow> 32 word \<Rightarrow> 's \<Rightarrow> 's \<times> db_error option" where
  "PutUInt32 K key val db = kv_Put K key (PackUInt32 val) db"

definition GetUInt32 :: "('s, 'i, 'z) kv_ops_scheme \<Rightarrow> bytes \<Rightarrow> 's \<Rightarrow> db_error + 32 word" where
  "GetUInt32 K key db = (case kv_Get K key db of Inl err \<Rightarrow> Inl err | Inr b \<Rightarrow> ParseUInt32 b)"

definition PutBool :: "('s, 'i, 'z) kv_ops_scheme \<Rightarrow> bytes \<Rightarrow> bool \<Rightarrow> 's \<Rightarrow> 's \<times> db_error option" where
  "PutBool K key b db = kv_Put K key (boolKey b) db"

definition GetBool :: "('s, 'i, 'z) kv_ops_scheme \<Rightarrow> bytes \<Rightarrow> 's \<Rightarrow> db_error + bool" where
  "GetBool K key db = (case kv_Get K key db of Inl err \<Rightarrow> Inl err | Inr b \<Rightarrow> parseBool b)"

subsection \<open>The in-memory database\<close>

text \<open>A nil map means closed.\<close>

type_synonym memdb = "(bytes, bytes) gomap option"

record mem_iterator =
  mi_initialized :: bool
  mi_keys :: "bytes list"
  mi_values :: "bytes list"
  mi_err :: "db_error option"

definition mem_New :: memdb where
  "mem_New = Some []"

definition mem_Close :: "memdb \<Rightarrow> memdb \<times> db_error option" where
  "mem_Close db = (case db of None \<Rightarrow> (None, Some ErrClosed) | Some m \<Rightarrow> (None, None))"

definition mem_isClosed :: "memdb \<Rightarrow> bool" where
  "mem_isClosed db \<longleftrightarrow> db = None"

definition mem_Has :: "bytes \<Rightarrow> memdb \<Rightarrow> db_error + bool" where
  "mem_Has key db = (case db of None \<Rightarrow> Inl ErrClosed | Some m \<Rightarrow> Inr (mget m key \<noteq> None))"

definition mem_Get :: "bytes \<Rightarrow> memdb \<Rightarrow> db_error + bytes" where
  "mem_Get key db =
     (case db of None \<Rightarrow> Inl ErrClosed
      | Some m \<Rightarrow> (case mget m key of Some entry \<Rightarrow> Inr entry | None \<Rightarrow> Inl ErrNotFound))"

definition mem_Put :: "bytes \<Rightarrow> bytes \<Rightarrow> memdb \<Rightarrow> memdb \<times> db_error option" where
  "mem_Put key val db = (case db of None \<Rightarrow> (None, Some ErrClosed) | Some m \<Rightarrow> (Some (mput key val m), None))"

definition mem_Delete :: "bytes \<Rightarrow> memdb \<Rightarrow> memdb \<times> db_error option" where
  "mem_Delete key db = (case db of None \<Rightarrow> (None, Some ErrClosed) | Some m \<Rightarrow> (Some (mdel key m), None))"

fun applyOps :: "BatchOp list \<Rightarrow> (bytes, bytes) gomap \<Rightarrow> (bytes, bytes) gomap" where
  "applyOps [] m = m"
| "applyOps (op # ops) m =
     applyOps ops (if op_Delete op then mdel (op_Key op) m else mput (op_Key op) (op_Value op) m)"

definition mem_Write :: "BatchOp list \<Rightarrow> memdb \<Rightarrow> memdb \<times> db_error option" where
  "mem_Write ops db = (case db of None \<Rightarrow> (None, Some ErrClosed) | Some m \<Rightarrow> (Some (applyOps ops m), None))"

definition hasPrefix :: "bytes \<Rightarrow> bytes \<Rightarrow> bool" where
  "hasPrefix key prefix \<longleftrightarrow> take (length prefix) key = prefix"

definition mem_NewIterator :: "bytes \<Rightarrow> bytes \<Rightarrow> memdb \<Rightarrow> mem_iterator" where
  "mem_NewIterator start prefix db =
     (case db of
        None \<Rightarrow> \<lparr>mi_initialized = True, mi_keys = [], mi_values = [], mi_err = Some ErrClosed\<rparr>
      | Some m \<Rightarrow>
          let keys = sort (filter (\<lambda>key. hasPrefix key prefix \<and> start \<le> key) (mkeys m));
              values = map (mget_or [] m) keys
          in \<lparr>mi_initialized = False, mi_keys = keys, mi_values = values, mi_err = None\<rparr>)"

definition mem_Next :: "memdb \<Rightarrow> mem_iterator \<Rightarrow> mem_iterator \<times> bool" where
  "mem_Next db it =
     (if mem_isClosed db then (it\<lparr>mi_keys := [], mi_values := [], mi_err := Some ErrClosed\<rparr>, False)
      else if \<not> mi_initialized it then
        let it = it\<lparr>mi_initialized := True\<rparr> in (it, length (mi_keys it) > 0)
      else let it = (if length (mi_keys it) > 0
                     then it\<lparr>mi_keys := tl (mi_keys it), mi_values := tl (mi_values it)\<rparr> else it)
           in (it, length (mi_keys it) > 0))"

definition mem_Key :: "mem_iterator \<Rightarrow> bytes" where
  "mem_Key it = (if length (mi_keys it) > 0 then mi_keys it ! 0 else [])"

definition mem_Value :: "mem_iterator \<Rightarrow> bytes" where
  "mem_Value it = (if length (mi_values it) > 0 then mi_values it ! 0 else [])"

definition mem_Release :: "mem_iterator \<Rightarrow> mem_iterator" where
  "mem_Release it = it\<lparr>mi_keys := [], mi_values := []\<rparr>"

definition mem_Compact :: "memdb \<Rightarrow> db_error option" where
  "mem_Compact db = (if db = None then Some ErrClosed else None)"

definition mem_HealthCheck :: "memdb \<Rightarrow> db_error option" where
  "mem_HealthCheck db = (if mem_isClosed db then Some ErrClosed else None)"

definition mem_ops :: "(memdb, mem_iterator) kv_ops" where
  "mem_ops = \<lparr>kv_Has = mem_Has, kv_Get = mem_Get, kv_Put = mem_Put, kv_Delete = mem_Delete, kv_Write = mem_Write,
     kv_Close = mem_Close, kv_NewIteratorWithStartAndPrefix = mem_NewIterator, it_Next = mem_Next,
     it_Error = mi_err, it_Key = mem_Key, it_Value = mem_Value, it_Release = mem_Release\<rparr>"

subsection \<open>The contract\<close>

text \<open>The entries an iterator has to deliver.\<close>

definition entries_from :: "(bytes \<rightharpoonup> bytes) \<Rightarrow> bytes \<Rightarrow> bytes \<Rightarrow> (bytes \<times> bytes) list \<Rightarrow> bool" where
  "entries_from m start prefix xs \<longleftrightarrow> sorted_wrt (<) (map fst xs) \<and>
     set xs = {(k, v). m k = Some v \<and> hasPrefix k prefix \<and> start \<le> k}"

fun apply_ops :: "BatchOp list \<Rightarrow> (bytes \<rightharpoonup> bytes) \<Rightarrow> (bytes \<rightharpoonup> bytes)" where
  "apply_ops [] m = m"
| "apply_ops (op # ops) m = apply_ops ops (m(op_Key op := if op_Delete op then None else Some (op_Value op)))"

text \<open>A write: the new contents of an open database, or the error of a closed one.\<close>

definition written :: "(bytes \<rightharpoonup> bytes) option \<Rightarrow> ((bytes \<rightharpoonup> bytes) \<Rightarrow> (bytes \<rightharpoonup> bytes)) \<Rightarrow>
    (bytes \<rightharpoonup> bytes) option \<times> db_error option \<Rightarrow> bool" where
  "written before f after \<longleftrightarrow> after = (case before of None \<Rightarrow> (None, Some ErrClosed) | Some m \<Rightarrow> (Some (f m), None))"

locale kv_database =
  fixes K :: "('s, 'i) kv_ops" and view :: "'s \<Rightarrow> (bytes \<rightharpoonup> bytes) option" and ok :: "'s \<Rightarrow> bool"
    and rest :: "'i \<Rightarrow> (bytes \<times> bytes) list" and it_ok :: "'i \<Rightarrow> bool"
  assumes finite_view: "ok s \<Longrightarrow> view s = Some m \<Longrightarrow> finite (dom m)"
    and Has_law: "ok s \<Longrightarrow> kv_Has K k s = (case view s of None \<Rightarrow> Inl ErrClosed | Some m \<Rightarrow> Inr (m k \<noteq> None))"
    and Get_law: "ok s \<Longrightarrow> kv_Get K k s =
      (case view s of None \<Rightarrow> Inl ErrClosed | Some m \<Rightarrow> (case m k of None \<Rightarrow> Inl ErrNotFound | Some v \<Rightarrow> Inr v))"
    and Put_law: "ok s \<Longrightarrow> kv_Put K k v s = (s', e) \<Longrightarrow> ok s' \<and> written (view s) (\<lambda>m. m(k \<mapsto> v)) (view s', e)"
    and Delete_law: "ok s \<Longrightarrow> kv_Delete K k s = (s', e) \<Longrightarrow> ok s' \<and> written (view s) (\<lambda>m. m(k := None)) (view s', e)"
    and Write_law: "ok s \<Longrightarrow> kv_Write K ops s = (s', e) \<Longrightarrow> ok s' \<and> written (view s) (apply_ops ops) (view s', e)"
    and Close_law: "ok s \<Longrightarrow> kv_Close K s = (s', e) \<Longrightarrow> ok s' \<and> view s' = None \<and> (e = None \<longleftrightarrow> view s \<noteq> None)"
    and Iterator_law: "ok s \<Longrightarrow> view s = Some m \<Longrightarrow> it = kv_NewIteratorWithStartAndPrefix K start prefix s \<Longrightarrow>
      it_ok it \<and> it_Error K it = None \<and> entries_from m start prefix (rest it)"
    and Next_law: "ok s \<Longrightarrow> view s = Some m \<Longrightarrow> it_ok it \<Longrightarrow> it_Next K s it = (it', again) \<Longrightarrow>
      it_ok it' \<and> it_Error K it' = None \<and>
      (case rest it of [] \<Rightarrow> \<not> again \<and> rest it' = []
       | (k, v) # r \<Rightarrow> again \<and> rest it' = r \<and> it_Key K it' = k \<and> it_Value K it' = v)"
    and Next_closed: "ok s \<Longrightarrow> view s = None \<Longrightarrow> it_ok it \<Longrightarrow> it_Next K s it = (it', again) \<Longrightarrow>
      \<not> again \<and> it_Error K it' = Some ErrClosed"

text \<open>The loop \<open>for it.Next()\<close> with at most \<open>n\<close> turns: the pairs it reads, and the iterator it leaves.\<close>

fun it_collect :: "('s, 'i, 'z) kv_ops_scheme \<Rightarrow> 's \<Rightarrow> nat \<Rightarrow> 'i \<Rightarrow> (bytes \<times> bytes) list \<times> 'i" where
  "it_collect K s 0 it = ([], it)"
| "it_collect K s (Suc n) it =
     (case it_Next K s it of
        (it, False) \<Rightarrow> ([], it)
      | (it, True) \<Rightarrow> (case it_collect K s n it of (xs, it') \<Rightarrow> ((it_Key K it, it_Value K it) # xs, it')))"

context kv_database
begin

lemma collect_all:
  assumes "ok s" "view s = Some m" "it_ok it" "length (rest it) < n"
  shows "\<exists>it'. it_collect K s n it = (rest it, it') \<and> it_ok it' \<and> it_Error K it' = None"
  using assms(3,4)
proof (induction n arbitrary: it)
  case (Suc n)
  obtain it1 again where nx: "it_Next K s it = (it1, again)"
    by (rule prod.exhaust)
  note law = Next_law [OF assms(1,2) Suc.prems(1) nx]
  show ?case
  proof (cases "rest it")
    case Nil
    then show ?thesis
      using law nx by simp
  next
    case (Cons kv r)
    then have "\<exists>it'. it_collect K s n it1 = (rest it1, it') \<and> it_ok it' \<and> it_Error K it' = None"
      using Suc.prems law by (intro Suc.IH) (auto split: prod.splits)
    then show ?thesis
      using law nx Cons by (cases kv) auto
  qed
qed simp

lemma iterate_snapshot:
  assumes "ok s" "view s = Some m"
  shows "\<exists>xs it'. it_collect K s n (kv_NewIteratorWithStartAndPrefix K start prefix s) = (xs, it') \<and>
    (card (dom m) < n \<longrightarrow> entries_from m start prefix xs \<and> it_Error K it' = None)"
proof -
  let ?it = "kv_NewIteratorWithStartAndPrefix K start prefix s"
  have it: "it_ok ?it" "entries_from m start prefix (rest ?it)"
    using Iterator_law [OF assms refl] by auto
  have "distinct (map fst (rest ?it))"
    using it(2) strict_sorted_iff by (auto simp: entries_from_def)
  then have "length (rest ?it) = card (fst ` set (rest ?it))"
    by (metis distinct_card length_map list.set_map)
  also have "\<dots> \<le> card (dom m)"
    using it(2) finite_view [OF assms] by (intro card_mono) (auto simp: entries_from_def)
  finally show ?thesis
    using collect_all [OF assms it(1), of n] it(2) by (cases "card (dom m) < n") (auto intro: prod.exhaust)
qed

lemma Replay_is_Write:
  assumes "ok s" "Replay K ops s = (s', e)"
  shows "ok s' \<and> (case view s of None \<Rightarrow> ops \<noteq> [] \<longrightarrow> e = Some ErrClosed | Some m \<Rightarrow> view s' = Some (apply_ops ops m) \<and> e = None)"
  using assms
proof (induction ops arbitrary: s)
  case (Cons op ops)
  let ?step = "if op_Delete op then kv_Delete K (op_Key op) s else kv_Put K (op_Key op) (op_Value op) s"
  obtain s1 e1 where s1: "?step = (s1, e1)"
    by (rule prod.exhaust)
  have law: "ok s1 \<and> written (view s) (\<lambda>m. m(op_Key op := if op_Delete op then None else Some (op_Value op))) (view s1, e1)"
    using Put_law [OF Cons.prems(1)] Delete_law [OF Cons.prems(1)] s1 by (cases "op_Delete op") auto
  show ?case
  proof (cases "view s")
    case None
    then show ?thesis
      using law Cons.prems(2) s1 by (simp add: written_def)
  next
    case (Some m)
    then show ?thesis
      using law Cons.prems(2) s1 Cons.IH [of s1] by (simp add: written_def)
  qed
qed (auto split: option.split)

lemma UInt64_roundtrip:
  assumes "ok s" "view s = Some m" "PutUInt64 K key v s = (s', e)"
  shows "e = None \<and> GetUInt64 K key s' = Inr v"
  using Put_law [OF assms(1)] Get_law [of s' key] assms
  by (fastforce simp: PutUInt64_def GetUInt64_def written_def)

end

subsection \<open>The in-memory database meets the contract\<close>

definition mem_view :: "memdb \<Rightarrow> (bytes \<rightharpoonup> bytes) option" where
  "mem_view db = map_option map_of db"

definition mem_ok :: "memdb \<Rightarrow> bool" where
  "mem_ok db \<longleftrightarrow> (case db of None \<Rightarrow> True | Some m \<Rightarrow> wf_map m)"

definition mem_rest :: "mem_iterator \<Rightarrow> (bytes \<times> bytes) list" where
  "mem_rest it = (if mi_initialized it then tl (zip (mi_keys it) (mi_values it)) else zip (mi_keys it) (mi_values it))"

definition mem_it_ok :: "mem_iterator \<Rightarrow> bool" where
  "mem_it_ok it \<longleftrightarrow> length (mi_keys it) = length (mi_values it) \<and> mi_err it = None"

lemma applyOps_apply_ops: "wf_map m \<Longrightarrow> wf_map (applyOps ops m) \<and> map_of (applyOps ops m) = apply_ops ops (map_of m)"
proof (induction ops arbitrary: m)
  case (Cons op ops)
  then show ?case
    by (simp add: update_conv' delete_conv')
qed simp

text \<open>The keys of a map with a given prefix from a given start, sorted: shared by the two implementations.\<close>

lemma sorted_keys_from:
  assumes "wf_map m" "keys = sort (filter (\<lambda>key. hasPrefix key prefix \<and> start \<le> key) (mkeys m))"
  shows "sorted_wrt (<) keys \<and> set keys = {k. mget m k \<noteq> None \<and> hasPrefix k prefix \<and> start \<le> k}"
proof -
  have "sorted keys" "distinct keys"
    using assms by (simp_all add: sorted_filter)
  then show ?thesis
    using assms(2) by (auto simp: strict_sorted_iff map_of_eq_None_iff)
qed

lemma mem_Iterator:
  assumes "wf_map m"
  shows "entries_from (map_of m) start prefix (mem_rest (mem_NewIterator start prefix (Some m)))"
proof -
  define keys where "keys = sort (filter (\<lambda>key. hasPrefix key prefix \<and> start \<le> key) (mkeys m))"
  have k: "sorted_wrt (<) keys" "set keys = {k. mget m k \<noteq> None \<and> hasPrefix k prefix \<and> start \<le> k}"
    using sorted_keys_from [OF assms keys_def] by auto
  have "mem_rest (mem_NewIterator start prefix (Some m)) = map (\<lambda>k. (k, mget_or [] m k)) keys"
    by (simp add: mem_rest_def mem_NewIterator_def keys_def Let_def zip_map2 zip_same_conv_map)
  then show ?thesis
    using k by (auto simp: entries_from_def o_def mget_or_def image_iff split: option.split)
qed

lemma tl_zip: "tl (zip xs ys) = zip (tl xs) (tl ys)"
  by (cases xs; cases ys) auto

lemma mem_Next_spec:
  assumes "mem_it_ok it" "mem_Next (Some m) it = (it', again)"
  shows "mem_it_ok it' \<and> mi_err it' = None \<and>
      (case mem_rest it of [] \<Rightarrow> \<not> again \<and> mem_rest it' = []
       | (k, v) # r \<Rightarrow> again \<and> mem_rest it' = r \<and> mem_Key it' = k \<and> mem_Value it' = v)"
proof -
  let ?ks = "if mi_initialized it then tl (mi_keys it) else mi_keys it"
  let ?vs = "if mi_initialized it then tl (mi_values it) else mi_values it"
  have it': "mi_keys it' = ?ks" "mi_values it' = ?vs" "mi_initialized it'" "mi_err it' = mi_err it"
    and again: "again \<longleftrightarrow> ?ks \<noteq> []"
    using assms by (auto simp: mem_Next_def mem_isClosed_def mem_it_ok_def Let_def split: if_splits)
  have len: "length ?ks = length ?vs" and err: "mi_err it = None"
    using assms(1) by (simp_all add: mem_it_ok_def)
  have "mem_rest it = zip ?ks ?vs"
    by (simp add: mem_rest_def tl_zip)
  moreover have "mem_rest it' = tl (zip ?ks ?vs)"
    using it' by (simp add: mem_rest_def)
  ultimately show ?thesis
    using len err it' again by (cases ?ks; cases ?vs) (auto simp: mem_it_ok_def mem_Key_def mem_Value_def)
qed

interpretation memdb: kv_database mem_ops mem_view mem_ok mem_rest mem_it_ok
proof unfold_locales
  fix s :: memdb and m :: "bytes \<rightharpoonup> bytes"
  assume "mem_ok s" "mem_view s = Some m"
  then show "finite (dom m)"
    by (auto simp: mem_view_def finite_dom_map_of)
next
  fix s s' :: memdb and k v and e
  assume "mem_ok s" "kv_Put mem_ops k v s = (s', e)"
  then show "mem_ok s' \<and> written (mem_view s) (\<lambda>m. m(k \<mapsto> v)) (mem_view s', e)"
    by (auto simp: mem_ops_def mem_Put_def mem_ok_def mem_view_def written_def update_conv' split: option.splits)
next
  fix s s' :: memdb and k and e
  assume "mem_ok s" "kv_Delete mem_ops k s = (s', e)"
  then show "mem_ok s' \<and> written (mem_view s) (\<lambda>m. m(k := None)) (mem_view s', e)"
    by (auto simp: mem_ops_def mem_Delete_def mem_ok_def mem_view_def written_def delete_conv' split: option.splits)
next
  fix s s' :: memdb and ops and e
  assume "mem_ok s" "kv_Write mem_ops ops s = (s', e)"
  then show "mem_ok s' \<and> written (mem_view s) (apply_ops ops) (mem_view s', e)"
    using applyOps_apply_ops
    by (auto simp: mem_ops_def mem_Write_def mem_ok_def mem_view_def written_def split: option.splits)
next
  fix s :: memdb and m it start prefix
  assume "mem_ok s" "mem_view s = Some m" and it: "it = kv_NewIteratorWithStartAndPrefix mem_ops start prefix s"
  then obtain a where "s = Some a" "wf_map a" "m = map_of a"
    by (auto simp: mem_ok_def mem_view_def)
  then show "mem_it_ok it \<and> it_Error mem_ops it = None \<and> entries_from m start prefix (mem_rest it)"
    using mem_Iterator [of a start prefix] it
    by (simp add: mem_ops_def mem_it_ok_def) (simp add: mem_NewIterator_def Let_def)
next
  fix s :: memdb and m it it' again
  assume "mem_ok s" "mem_view s = Some m" "mem_it_ok it" "it_Next mem_ops s it = (it', again)"
  then show "mem_it_ok it' \<and> it_Error mem_ops it' = None \<and>
      (case mem_rest it of [] \<Rightarrow> \<not> again \<and> mem_rest it' = []
       | (k, v) # r \<Rightarrow> again \<and> mem_rest it' = r \<and> it_Key mem_ops it' = k \<and> it_Value mem_ops it' = v)"
    unfolding mem_ops_def kv_ops.select_convs mem_view_def by (auto dest: mem_Next_spec)
qed (auto simp: mem_ops_def mem_view_def mem_ok_def mem_Has_def mem_Get_def mem_Close_def mem_Next_def
    mem_isClosed_def split: option.splits)

end
