(* ===== verification/VersionDB.thy ===== *)
theory VersionDB
  imports Database
begin

text \<open>
  The versioned database (\<open>src/database/versiondb/db.go\<close>): uncommitted changes live in memory on top of any
  database, given by its method table \<open>K\<close>.  \<open>Close\<close> sets the three fields to nil together and nothing
  else does, so \<open>v_mem = None\<close> is the closed state.  A Go map is iterated in the order of its association list.
  The result is again a database in the sense of \<open>kv_database\<close>; an iterator merges the changes
  with the iterator of the underlying database.
\<close>

record valueDelete =
  vd_value :: bytes
  vd_delete :: bool

record 's versiondb =
  v_mem :: "(bytes, valueDelete) gomap option"
  v_db :: 's
  v_batch :: BatchOps

definition v_New :: "'s \<Rightarrow> 's versiondb" where
  "v_New db = \<lparr>v_mem = Some [], v_db = db, v_batch = NewBatch\<rparr>"

definition v_Has :: "('s, 'i) kv_ops \<Rightarrow> bytes \<Rightarrow> 's versiondb \<Rightarrow> db_error + bool" where
  "v_Has K key d =
     (case v_mem d of None \<Rightarrow> Inl ErrClosed
      | Some mem \<Rightarrow> (case mget mem key of Some val \<Rightarrow> Inr (\<not> vd_delete val) | None \<Rightarrow> kv_Has K key (v_db d)))"

definition v_Get :: "('s, 'i) kv_ops \<Rightarrow> bytes \<Rightarrow> 's versiondb \<Rightarrow> db_error + bytes" where
  "v_Get K key d =
     (case v_mem d of None \<Rightarrow> Inl ErrClosed
      | Some mem \<Rightarrow>
          (case mget mem key of
             Some val \<Rightarrow> if vd_delete val then Inl ErrNotFound else Inr (vd_value val)
           | None \<Rightarrow> kv_Get K key (v_db d)))"

definition v_Put :: "bytes \<Rightarrow> bytes \<Rightarrow> 's versiondb \<Rightarrow> 's versiondb \<times> db_error option" where
  "v_Put key value d =
     (case v_mem d of None \<Rightarrow> (d, Some ErrClosed)
      | Some mem \<Rightarrow> (d\<lparr>v_mem := Some (mput key \<lparr>vd_value = value, vd_delete = False\<rparr> mem)\<rparr>, None))"

definition v_Delete :: "bytes \<Rightarrow> 's versiondb \<Rightarrow> 's versiondb \<times> db_error option" where
  "v_Delete key d =
     (case v_mem d of None \<Rightarrow> (d, Some ErrClosed)
      | Some mem \<Rightarrow> (d\<lparr>v_mem := Some (mput key \<lparr>vd_value = [], vd_delete = True\<rparr> mem)\<rparr>, None))"

fun v_applyOps :: "BatchOp list \<Rightarrow> (bytes, valueDelete) gomap \<Rightarrow> (bytes, valueDelete) gomap" where
  "v_applyOps [] mem = mem"
| "v_applyOps (op # ops) mem =
     v_applyOps ops (mput (op_Key op) \<lparr>vd_value = op_Value op, vd_delete = op_Delete op\<rparr> mem)"

definition v_Write :: "BatchOp list \<Rightarrow> 's versiondb \<Rightarrow> 's versiondb \<times> db_error option" where
  "v_Write ops d =
     (case v_mem d of None \<Rightarrow> (d, Some ErrClosed) | Some mem \<Rightarrow> (d\<lparr>v_mem := Some (v_applyOps ops mem)\<rparr>, None))"

definition v_SetDatabase :: "'s \<Rightarrow> 's versiondb \<Rightarrow> 's versiondb \<times> db_error option" where
  "v_SetDatabase newDB d =
     (case v_mem d of None \<Rightarrow> (d, Some ErrClosed) | Some mem \<Rightarrow> (d\<lparr>v_db := newDB, v_batch := NewBatch\<rparr>, None))"

definition v_GetDatabase :: "'s versiondb \<Rightarrow> 's option" where
  "v_GetDatabase d = map_option (\<lambda>_. v_db d) (v_mem d)"

definition v_abort :: "'s versiondb \<Rightarrow> 's versiondb" where
  "v_abort d = d\<lparr>v_mem := map_option (\<lambda>_. []) (v_mem d)\<rparr>"

fun fillBatch :: "(bytes, valueDelete) gomap \<Rightarrow> BatchOps \<Rightarrow> BatchOps" where
  "fillBatch [] b = b"
| "fillBatch ((key, value) # mem) b =
     fillBatch mem (if vd_delete value then batch_Delete key b else batch_Put key (vd_value value) b)"

definition v_commitBatch :: "'s versiondb \<Rightarrow> 's versiondb \<times> db_error option" where
  "v_commitBatch d =
     (case v_mem d of None \<Rightarrow> (d, Some ErrClosed)
      | Some mem \<Rightarrow> (d\<lparr>v_batch := fillBatch mem (batch_Reset (v_batch d))\<rparr>, None))"

definition v_Commit :: "('s, 'i) kv_ops \<Rightarrow> 's versiondb \<Rightarrow> 's versiondb \<times> db_error option" where
  "v_Commit K d =
     (case v_commitBatch d of
        (d, Some err) \<Rightarrow> (d, Some err)
      | (d, None) \<Rightarrow>
          (case kv_Write K (Ops (v_batch d)) (v_db d) of
             (db, Some err) \<Rightarrow> (d\<lparr>v_db := db\<rparr>, Some err)
           | (db, None) \<Rightarrow> (v_abort (d\<lparr>v_db := db, v_batch := batch_Reset (v_batch d)\<rparr>), None)))"

definition v_Close :: "'s versiondb \<Rightarrow> 's versiondb \<times> db_error option" where
  "v_Close d =
     (case v_mem d of None \<Rightarrow> (d, Some ErrClosed) | Some mem \<Rightarrow> (d\<lparr>v_mem := None, v_batch := NewBatch\<rparr>, None))"

definition v_isClosed :: "'s versiondb \<Rightarrow> bool" where
  "v_isClosed d \<longleftrightarrow> v_mem d = None"

subsection \<open>The iterator\<close>

record 'i v_iterator =
  vi_it :: 'i
  vi_key :: bytes
  vi_value :: bytes
  vi_err :: "db_error option"
  vi_keys :: "bytes list"
  vi_values :: "valueDelete list"
  vi_initialized :: bool
  vi_exhausted :: bool

definition v_NewIterator :: "('s, 'i) kv_ops \<Rightarrow> bytes \<Rightarrow> bytes \<Rightarrow> 's versiondb \<Rightarrow> 'i v_iterator" where
  "v_NewIterator K start prefix d =
     (let inner = kv_NewIteratorWithStartAndPrefix K start prefix (v_db d) in
      case v_mem d of
        None \<Rightarrow> \<lparr>vi_it = inner, vi_key = [], vi_value = [], vi_err = Some ErrClosed, vi_keys = [], vi_values = [],
                 vi_initialized = True, vi_exhausted = True\<rparr>
      | Some mem \<Rightarrow>
          let keys = sort (filter (\<lambda>key. hasPrefix key prefix \<and> start \<le> key) (mkeys mem));
              values = map (mget_or \<lparr>vd_value = [], vd_delete = False\<rparr> mem) keys
          in \<lparr>vi_it = inner, vi_key = [], vi_value = [], vi_err = None, vi_keys = keys, vi_values = values,
              vi_initialized = False, vi_exhausted = False\<rparr>)"

definition v_advance :: "('s, 'i) kv_ops \<Rightarrow> 's \<Rightarrow> 'i v_iterator \<Rightarrow> 'i v_iterator" where
  "v_advance K db it = (case it_Next K db (vi_it it) of (i, again) \<Rightarrow> it\<lparr>vi_it := i, vi_exhausted := \<not> again\<rparr>)"

definition v_popMem :: "'i v_iterator \<Rightarrow> 'i v_iterator" where
  "v_popMem it = it\<lparr>vi_keys := tl (vi_keys it), vi_values := tl (vi_values it)\<rparr>"

text \<open>The loop of \<open>Next\<close>; every turn that does not return takes one of the keys in memory.\<close>

function v_loop :: "('s, 'i) kv_ops \<Rightarrow> 's \<Rightarrow> 'i v_iterator \<Rightarrow> 'i v_iterator \<times> bool" where
  "v_loop K db it =
     (if vi_exhausted it \<and> vi_keys it = [] then (it\<lparr>vi_key := [], vi_value := []\<rparr>, False)
      else if vi_exhausted it then
        let nextKey = hd (vi_keys it); nextValue = hd (vi_values it); it' = v_popMem it
        in if \<not> vd_delete nextValue then (it'\<lparr>vi_key := nextKey, vi_value := vd_value nextValue\<rparr>, True)
           else v_loop K db it'
      else if vi_keys it = [] then
        (v_advance K db (it\<lparr>vi_key := it_Key K (vi_it it), vi_value := it_Value K (vi_it it)\<rparr>), True)
      else
        let memKey = hd (vi_keys it); memValue = hd (vi_values it); dbKey = it_Key K (vi_it it)
        in if memKey < dbKey then
             (let it' = v_popMem it
              in if \<not> vd_delete memValue then (it'\<lparr>vi_key := memKey, vi_value := vd_value memValue\<rparr>, True)
                 else v_loop K db it')
           else if dbKey < memKey then
             (v_advance K db (it\<lparr>vi_key := dbKey, vi_value := it_Value K (vi_it it)\<rparr>), True)
           else
             (let it' = v_advance K db (v_popMem it)
              in if \<not> vd_delete memValue then (it'\<lparr>vi_key := memKey, vi_value := vd_value memValue\<rparr>, True)
                 else v_loop K db it'))"
  by pat_completeness auto
termination
  by (relation "measure (\<lambda>(K, db, it). length (vi_keys it))")
    (auto simp: v_popMem_def v_advance_def split: prod.splits)

declare v_loop.simps [simp del]

definition v_Next :: "('s, 'i) kv_ops \<Rightarrow> 's versiondb \<Rightarrow> 'i v_iterator \<Rightarrow> 'i v_iterator \<times> bool" where
  "v_Next K d it =
     (if v_isClosed d then (it\<lparr>vi_key := [], vi_value := [], vi_err := Some ErrClosed\<rparr>, False)
      else let it = (if \<not> vi_initialized it then (v_advance K (v_db d) it)\<lparr>vi_initialized := True\<rparr> else it)
           in v_loop K (v_db d) it)"

definition v_Error :: "('s, 'i) kv_ops \<Rightarrow> 'i v_iterator \<Rightarrow> db_error option" where
  "v_Error K it = (if vi_err it \<noteq> None then vi_err it else it_Error K (vi_it it))"

definition v_Release :: "('s, 'i) kv_ops \<Rightarrow> 'i v_iterator \<Rightarrow> 'i v_iterator" where
  "v_Release K it =
     it\<lparr>vi_key := [], vi_value := [], vi_keys := [], vi_values := [], vi_it := it_Release K (vi_it it)\<rparr>"

definition v_ops :: "('s, 'i) kv_ops \<Rightarrow> ('s versiondb, 'i v_iterator) kv_ops" where
  "v_ops K = \<lparr>kv_Has = v_Has K, kv_Get = v_Get K, kv_Put = v_Put, kv_Delete = v_Delete, kv_Write = v_Write,
     kv_Close = v_Close, kv_NewIteratorWithStartAndPrefix = v_NewIterator K, it_Next = v_Next K,
     it_Error = v_Error K, it_Key = vi_key, it_Value = vi_value, it_Release = v_Release K\<rparr>"

subsection \<open>The overlay\<close>

definition overlay :: "(bytes, valueDelete) gomap \<Rightarrow> (bytes \<rightharpoonup> bytes) \<Rightarrow> (bytes \<rightharpoonup> bytes)" where
  "overlay mem m k =
     (case mget mem k of None \<Rightarrow> m k | Some val \<Rightarrow> if vd_delete val then None else Some (vd_value val))"

definition emit :: "bytes \<Rightarrow> valueDelete \<Rightarrow> (bytes \<times> bytes) list" where
  "emit k val = (if vd_delete val then [] else [(k, vd_value val)])"

fun merge :: "(bytes \<times> valueDelete) list \<Rightarrow> (bytes \<times> bytes) list \<Rightarrow> (bytes \<times> bytes) list" where
  "merge [] ys = ys"
| "merge ((k, val) # xs) [] = emit k val @ merge xs []"
| "merge ((k, val) # xs) ((k', v') # ys) =
     (if k < k' then emit k val @ merge xs ((k', v') # ys)
      else if k' < k then (k', v') # merge ((k, val) # xs) ys
      else emit k val @ merge xs ys)"

lemma overlay_Nil [simp]: "overlay [] m = m"
  by (rule ext) (simp add: overlay_def)

lemma overlay_mput [simp]:
  "overlay (mput k \<lparr>vd_value = v, vd_delete = d\<rparr> mem) m = (overlay mem m)(k := if d then None else Some v)"
  by (rule ext) (simp add: overlay_def)

lemma overlay_Cons:
  assumes "k \<notin> fst ` set mem"
  shows "overlay ((k, val) # mem) m = overlay mem (m(k := if vd_delete val then None else Some (vd_value val)))"
proof (rule ext)
  fix x
  have "mget mem k = None"
    using assms by (simp add: map_of_eq_None_iff)
  then show "overlay ((k, val) # mem) m x = overlay mem (m(k := if vd_delete val then None else Some (vd_value val))) x"
    by (cases "x = k"; cases "mget mem x") (simp_all add: overlay_def)
qed

lemma finite_overlay:
  assumes "finite (dom m)"
  shows "finite (dom (overlay mem m))"
proof (rule finite_subset)
  show "dom (overlay mem m) \<subseteq> fst ` set mem \<union> dom m"
    by (auto simp: overlay_def split: option.splits if_splits dest: mget_Some_key)
qed (simp add: assms)

lemma v_applyOps_overlay:
  "wf_map mem \<Longrightarrow> wf_map (v_applyOps ops mem) \<and> overlay (v_applyOps ops mem) m = apply_ops ops (overlay mem m)"
  by (induction ops arbitrary: mem) simp_all

lemma fillBatch_apply:
  "wf_map mem \<Longrightarrow> Ops (fillBatch mem b) = Ops b @ ops \<Longrightarrow> apply_ops ops m = overlay mem m"
proof (induction mem arbitrary: b ops m)
  case (Cons e mem)
  obtain k val where e: "e = (k, val)"
    by (rule prod.exhaust)
  let ?op = "\<lparr>op_Key = k, op_Value = if vd_delete val then [] else vd_value val, op_Delete = vd_delete val\<rparr>"
  have pre: "\<exists>ops'. Ops (fillBatch mem b) = Ops b @ ops'" for b
    by (induction mem b rule: fillBatch.induct) (auto simp: batch_Put_def batch_Delete_def split: if_splits)
  let ?b = "if vd_delete val then batch_Delete k b else batch_Put k (vd_value val) b"
  have b: "Ops ?b = Ops b @ [?op]"
    by (simp add: batch_Put_def batch_Delete_def)
  obtain ops' where ops': "Ops (fillBatch mem ?b) = Ops ?b @ ops'"
    using pre by blast
  then have "ops = ?op # ops'"
    using Cons.prems(2) e b by simp
  moreover have "apply_ops ops' m' = overlay mem m'" for m'
    using Cons.IH [OF _ ops'] Cons.prems(1) by simp
  moreover have "overlay (e # mem) m = overlay mem (m(k := if vd_delete val then None else Some (vd_value val)))"
    unfolding e using Cons.prems(1) e by (intro overlay_Cons) simp
  ultimately show ?case
    by (cases "vd_delete val") simp_all
qed simp

lemma fst_emit: "fst ` set (emit k val) \<subseteq> {k}"
  by (simp add: emit_def)

lemma merge_keys: "fst ` set (merge xs ys) \<subseteq> fst ` set xs \<union> fst ` set ys"
proof (induction xs ys rule: merge.induct)
  case (3 k val xs k' v' ys)
  show ?case
  proof (cases k k' rule: linorder_cases)
    case less
    have "fst ` set (merge xs ((k', v') # ys)) \<subseteq> insert k' (fst ` set xs \<union> fst ` set ys)"
      using 3(1) [OF less] by simp
    then show ?thesis
      using less fst_emit [of k val] by (simp add: image_Un) blast
  next
    case equal
    have "fst ` set (merge xs ys) \<subseteq> fst ` set xs \<union> fst ` set ys"
      using 3(3) equal by simp
    then show ?thesis
      using equal fst_emit [of k val] by (simp add: image_Un) blast
  next
    case greater
    have "fst ` set (merge ((k, val) # xs) ys) \<subseteq> insert k (fst ` set xs) \<union> fst ` set ys"
      using 3(2) greater by simp
    moreover have "merge ((k, val) # xs) ((k', v') # ys) = (k', v') # merge ((k, val) # xs) ys"
      using greater by (simp add: less_not_sym)
    ultimately show ?thesis
      by auto
  qed
qed (auto simp: emit_def)

text \<open>The entries of a merge: the changes that are not deletions, and the entries below that no change hides.\<close>

definition kept :: "(bytes \<times> valueDelete) list \<Rightarrow> (bytes \<times> bytes) set" where
  "kept xs = (\<Union>(k, val)\<in>set xs. set (emit k val))"

definition unhidden :: "(bytes \<times> valueDelete) list \<Rightarrow> (bytes \<times> bytes) list \<Rightarrow> (bytes \<times> bytes) set" where
  "unhidden xs ys = {e \<in> set ys. fst e \<notin> fst ` set xs}"

lemma kept_Cons [simp]: "kept ((k, val) # xs) = set (emit k val) \<union> kept xs"
  by (simp add: kept_def)

lemma unhidden_below: "k \<notin> fst ` set ys \<Longrightarrow> unhidden ((k, val) # xs) ys = unhidden xs ys"
  by (auto simp: unhidden_def)

lemma unhidden_same: "unhidden ((k, val) # xs) ((k, v) # ys) = unhidden ((k, val) # xs) ys"
  by (auto simp: unhidden_def)

lemma unhidden_first: "k \<notin> fst ` set xs \<Longrightarrow> unhidden xs ((k, v) # ys) = insert (k, v) (unhidden xs ys)"
  by (rule set_eqI) (simp add: unhidden_def, metis fst_conv)

lemma above_notin: "\<forall>x\<in>fst ` S. k < x \<Longrightarrow> k \<notin> fst ` (S :: (bytes \<times> 'v) set)"
  by auto

lemma merge_set:
  assumes "sorted_wrt (<) (map fst xs)" "sorted_wrt (<) (map fst ys)"
  shows "set (merge xs ys) = kept xs \<union> unhidden xs ys"
  using assms
proof (induction xs ys rule: merge.induct)
  case (1 ys)
  then show ?case
    by (simp add: kept_def unhidden_def)
next
  case (2 k val xs)
  then show ?case
    by (simp add: unhidden_def)
next
  case (3 k val xs k' v' ys)
  have xs: "\<forall>x\<in>fst ` set xs. k < x" and ys: "\<forall>x\<in>fst ` set ys. k' < x"
    using 3(4,5) by simp_all
  show ?case
  proof (cases k k' rule: linorder_cases)
    case less
    have "\<forall>x\<in>fst ` set ((k', v') # ys). k < x"
      using ys less by auto
    from unhidden_below [OF above_notin [OF this]] show ?thesis
      using less 3(1) [OF less] 3(4,5) by (simp add: Un_assoc)
  next
    case equal
    have "unhidden ((k, val) # xs) ((k', v') # ys) = unhidden xs ys"
      using unhidden_same [of k val xs v' ys] unhidden_below [OF above_notin] ys equal by simp
    then show ?thesis
      using equal 3(3) 3(4,5) by (simp add: Un_assoc)
  next
    case greater
    have "\<forall>x\<in>fst ` set ((k, val) # xs). k' < x"
      using xs greater by auto
    from unhidden_first [OF above_notin [OF this]]
    have "unhidden ((k, val) # xs) ((k', v') # ys) = insert (k', v') (unhidden ((k, val) # xs) ys)" .
    moreover have "merge ((k, val) # xs) ((k', v') # ys) = (k', v') # merge ((k, val) # xs) ys"
      using greater by (simp add: less_not_sym)
    moreover have "set (merge ((k, val) # xs) ys) = kept ((k, val) # xs) \<union> unhidden ((k, val) # xs) ys"
      using 3(2) greater 3(4,5) by (simp add: less_not_sym)
    ultimately show ?thesis
      by simp
  qed
qed

lemma sorted_emit:
  assumes "sorted_wrt (<) (map fst zs)" "\<forall>x\<in>fst ` set zs. k < x"
  shows "sorted_wrt (<) (map fst (emit k val @ zs))"
  using assms by (simp add: emit_def)

lemma merge_sorted:
  assumes "sorted_wrt (<) (map fst xs)" "sorted_wrt (<) (map fst ys)"
  shows "sorted_wrt (<) (map fst (merge xs ys))"
  using assms
proof (induction xs ys rule: merge.induct)
  case (2 k val xs)
  have "\<forall>x\<in>fst ` set xs \<union> fst ` set []. k < x"
    using 2(2) by simp
  then have "\<forall>x\<in>fst ` set (merge xs []). k < x"
    using merge_keys [of xs "[]"] by blast
  then show ?case
    using 2 sorted_emit by simp
next
  case (3 k val xs k' v' ys)
  have xs: "\<forall>x\<in>fst ` set xs. k < x" and ys: "\<forall>x\<in>fst ` set ys. k' < x"
    using 3(4,5) by simp_all
  show ?case
  proof (cases k k' rule: linorder_cases)
    case less
    have "\<forall>x\<in>fst ` set xs \<union> fst ` set ((k', v') # ys). k < x"
      using xs ys less by auto
    then have "\<forall>x\<in>fst ` set (merge xs ((k', v') # ys)). k < x"
      using merge_keys [of xs "(k', v') # ys"] by blast
    then show ?thesis
      using less 3(1) [OF less] 3(4,5) sorted_emit by simp
  next
    case equal
    have "\<forall>x\<in>fst ` set (merge xs ys). k < x"
      using merge_keys [of xs ys] xs ys equal by blast
    then show ?thesis
      using equal 3(3) 3(4,5) sorted_emit by simp
  next
    case greater
    have "\<forall>x\<in>fst ` set ((k, val) # xs) \<union> fst ` set ys. k' < x"
      using xs ys greater by auto
    then have "\<forall>x\<in>fst ` set (merge ((k, val) # xs) ys). k' < x"
      using merge_keys [of "(k, val) # xs" ys] by blast
    moreover have "merge ((k, val) # xs) ((k', v') # ys) = (k', v') # merge ((k, val) # xs) ys"
      using greater by (simp add: less_not_sym)
    moreover have "sorted_wrt (<) (map fst (merge ((k, val) # xs) ys))"
      using 3(2) greater 3(4,5) by (simp add: less_not_sym)
    ultimately show ?thesis
      by simp
  qed
qed simp

subsection \<open>The versioned database meets the contract\<close>

definition v_view :: "('s \<Rightarrow> (bytes \<rightharpoonup> bytes) option) \<Rightarrow> 's versiondb \<Rightarrow> (bytes \<rightharpoonup> bytes) option" where
  "v_view view d = (case v_mem d of None \<Rightarrow> None | Some mem \<Rightarrow> map_option (overlay mem) (view (v_db d)))"

definition v_ok :: "('s \<Rightarrow> (bytes \<rightharpoonup> bytes) option) \<Rightarrow> ('s \<Rightarrow> bool) \<Rightarrow> 's versiondb \<Rightarrow> bool" where
  "v_ok view ok d \<longleftrightarrow> (case v_mem d of None \<Rightarrow> True | Some mem \<Rightarrow> wf_map mem \<and> ok (v_db d) \<and> view (v_db d) \<noteq> None)"

text \<open>What the underlying iterator has still to give: its current entry, unless it has not been started, and the rest.\<close>

definition v_pending :: "('s, 'i) kv_ops \<Rightarrow> ('i \<Rightarrow> (bytes \<times> bytes) list) \<Rightarrow> 'i v_iterator \<Rightarrow> (bytes \<times> bytes) list" where
  "v_pending K rest it =
     (if \<not> vi_initialized it then rest (vi_it it)
      else if vi_exhausted it then []
      else (it_Key K (vi_it it), it_Value K (vi_it it)) # rest (vi_it it))"

definition v_rest :: "('s, 'i) kv_ops \<Rightarrow> ('i \<Rightarrow> (bytes \<times> bytes) list) \<Rightarrow> 'i v_iterator \<Rightarrow> (bytes \<times> bytes) list" where
  "v_rest K rest it = merge (zip (vi_keys it) (vi_values it)) (v_pending K rest it)"

definition v_it_ok :: "('s, 'i) kv_ops \<Rightarrow> ('i \<Rightarrow> bool) \<Rightarrow> 'i v_iterator \<Rightarrow> bool" where
  "v_it_ok K it_ok it \<longleftrightarrow> length (vi_keys it) = length (vi_values it) \<and> vi_err it = None \<and>
     it_ok (vi_it it) \<and> it_Error K (vi_it it) = None"

lemmas v_it_defs = v_it_ok_def v_rest_def v_pending_def v_popMem_def

definition delivers :: "('s, 'i) kv_ops \<Rightarrow> ('i \<Rightarrow> (bytes \<times> bytes) list) \<Rightarrow> ('i \<Rightarrow> bool) \<Rightarrow> 'i v_iterator \<Rightarrow>
    'i v_iterator \<times> bool \<Rightarrow> bool" where
  "delivers K rest it_ok it r \<longleftrightarrow> v_it_ok K it_ok (fst r) \<and> vi_initialized (fst r) \<and>
     (case v_rest K rest it of [] \<Rightarrow> \<not> snd r \<and> v_rest K rest (fst r) = []
      | (k, v) # xs \<Rightarrow> snd r \<and> v_rest K rest (fst r) = xs \<and> vi_key (fst r) = k \<and> vi_value (fst r) = v)"

lemma delivers_cong: "v_rest K rest it = v_rest K rest it' \<Longrightarrow> delivers K rest it_ok it r = delivers K rest it_ok it' r"
  by (simp add: delivers_def)

lemma popMem_simps:
  "vi_keys (v_popMem it) = tl (vi_keys it)" "vi_values (v_popMem it) = tl (vi_values it)"
  "v_pending K rest (v_popMem it) = v_pending K rest it" "vi_initialized (v_popMem it) = vi_initialized it"
  "v_it_ok K it_ok it \<Longrightarrow> v_it_ok K it_ok (v_popMem it)" "vi_it (v_popMem it) = vi_it it"
  by (simp_all add: v_it_defs)

lemma set_current_simps:
  "v_pending K rest (it\<lparr>vi_key := k, vi_value := v\<rparr>) = v_pending K rest it"
  "v_it_ok K it_ok (it\<lparr>vi_key := k, vi_value := v\<rparr>) = v_it_ok K it_ok it"
  by (simp_all add: v_it_defs)

context kv_database
begin

lemma advance_spec:
  assumes "ok s" "view s = Some m" "v_it_ok K it_ok it"
  shows "v_it_ok K it_ok (v_advance K s it)"
    "v_pending K rest ((v_advance K s it)\<lparr>vi_initialized := True\<rparr>) = rest (vi_it it)"
    "vi_keys (v_advance K s it) = vi_keys it" "vi_values (v_advance K s it) = vi_values it"
    "vi_key (v_advance K s it) = vi_key it" "vi_value (v_advance K s it) = vi_value it"
    "vi_initialized (v_advance K s it) = vi_initialized it"
proof -
  obtain i again where nx: "it_Next K s (vi_it it) = (i, again)"
    by (rule prod.exhaust)
  have "it_ok (vi_it it)"
    using assms(3) by (simp add: v_it_ok_def)
  note law = Next_law [OF assms(1,2) this nx]
  show "v_it_ok K it_ok (v_advance K s it)"
    using law assms(3) nx by (simp add: v_advance_def v_it_ok_def)
  show "v_pending K rest ((v_advance K s it)\<lparr>vi_initialized := True\<rparr>) = rest (vi_it it)"
    using law nx by (cases "rest (vi_it it)") (auto simp: v_advance_def v_pending_def)
qed (simp_all add: v_advance_def split: prod.splits)

lemma advance_pending:
  assumes "ok s" "view s = Some m" "v_it_ok K it_ok it" "vi_initialized it"
  shows "v_pending K rest (v_advance K s it) = rest (vi_it it)"
proof -
  have "(v_advance K s it)\<lparr>vi_initialized := True\<rparr> = v_advance K s it"
    using advance_spec(7) [OF assms(1-3)] assms(4) by simp
  then show ?thesis
    using advance_spec(2) [OF assms(1-3)] by simp
qed

lemma loop_delivers:
  assumes "ok s" "view s = Some m"
  shows "v_it_ok K it_ok it \<Longrightarrow> vi_initialized it \<Longrightarrow> delivers K rest it_ok it (v_loop K s it)"
proof (induction "length (vi_keys it)" arbitrary: it rule: less_induct)
  case less
  note ok_it = less.prems(1) and init = less.prems(2)
  note step = v_loop.simps [of K s it]
  note adv = advance_spec [OF assms] and pend = advance_pending [OF assms]
  show ?case
  proof (cases "vi_keys it")
    case Nil
    then have vals: "vi_values it = []"
      using ok_it by (simp add: v_it_ok_def)
    show ?thesis
    proof (cases "vi_exhausted it")
      case True
      then show ?thesis
        using Nil ok_it init by (simp add: step delivers_def v_it_defs)
    next
      case False
      let ?it = "it\<lparr>vi_key := it_Key K (vi_it it), vi_value := it_Value K (vi_it it)\<rparr>"
      have ok': "v_it_ok K it_ok ?it" and init': "vi_initialized ?it"
        using ok_it init by (simp_all add: set_current_simps)
      have "v_pending K rest it = (it_Key K (vi_it it), it_Value K (vi_it it)) # rest (vi_it it)"
        using init False by (simp add: v_pending_def)
      moreover have "v_loop K s it = (v_advance K s ?it, True)"
        using Nil False by (simp add: step)
      ultimately show ?thesis
        using adv [OF ok'] pend [OF ok' init'] Nil vals init by (simp add: delivers_def v_rest_def)
    qed
  next
    case (Cons k ks)
    then obtain w vs where vals: "vi_values it = w # vs" and len: "length ks = length vs"
      using ok_it by (cases "vi_values it") (auto simp: v_it_ok_def)
    have zips: "zip (vi_keys it) (vi_values it) = (k, w) # zip ks vs"
      by (simp add: Cons vals)
    have popped: "vi_keys (v_popMem it) = ks" "vi_values (v_popMem it) = vs" "vi_initialized (v_popMem it)"
      "v_it_ok K it_ok (v_popMem it)"
      using Cons vals init ok_it by (simp_all add: popMem_simps)
    have take_mem: "delivers K rest it_ok it (if \<not> vd_delete w then (it1\<lparr>vi_key := k, vi_value := vd_value w\<rparr>, True) else v_loop K s it1)"
      if "v_it_ok K it_ok it1" "vi_initialized it1" "vi_keys it1 = ks" "v_rest K rest it = emit k w @ v_rest K rest it1" for it1
      using that Cons less.hyps [of it1] by (simp add: delivers_def emit_def v_rest_def set_current_simps)
    show ?thesis
    proof (cases "vi_exhausted it")
      case True
      have "v_pending K rest it = []"
        using True init by (simp add: v_pending_def)
      then have "v_rest K rest it = emit k w @ v_rest K rest (v_popMem it)"
        by (simp add: v_rest_def zips popMem_simps Cons vals)
      from take_mem [OF popped(4,3,1) this] show ?thesis
        using True Cons vals by (simp add: step Let_def)
    next
      case False
      let ?k = "it_Key K (vi_it it)" and ?v = "it_Value K (vi_it it)"
      have p: "v_pending K rest it = (?k, ?v) # rest (vi_it it)"
        using False init by (simp add: v_pending_def)
      show ?thesis
      proof (cases k ?k rule: linorder_cases)
        case less
        have "v_rest K rest it = emit k w @ v_rest K rest (v_popMem it)"
          using less p by (simp add: v_rest_def zips popMem_simps Cons vals)
        from take_mem [OF popped(4,3,1) this] show ?thesis
          using less False Cons vals by (simp add: step Let_def)
      next
        case greater
        let ?it = "it\<lparr>vi_key := ?k, vi_value := ?v\<rparr>"
        have ok': "v_it_ok K it_ok ?it" and init': "vi_initialized ?it"
          using ok_it init by (simp_all add: set_current_simps)
        have "v_loop K s it = (v_advance K s ?it, True)"
          using greater False Cons by (simp add: step Let_def less_not_sym)
        moreover have "v_rest K rest it = (?k, ?v) # merge ((k, w) # zip ks vs) (rest (vi_it it))"
          using greater p by (simp add: v_rest_def zips less_not_sym)
        ultimately show ?thesis
          using adv [OF ok'] pend [OF ok' init'] init zips by (simp add: delivers_def v_rest_def)
      next
        case equal
        let ?it1 = "v_advance K s (v_popMem it)"
        have "v_pending K rest ?it1 = rest (vi_it it)"
          using pend [OF popped(4,3)] by (simp add: popMem_simps)
        then have "v_rest K rest it = emit k w @ v_rest K rest ?it1"
          using equal p adv [OF popped(4)] by (simp add: v_rest_def zips popped)
        then have "delivers K rest it_ok it
            (if \<not> vd_delete w then (?it1\<lparr>vi_key := k, vi_value := vd_value w\<rparr>, True) else v_loop K s ?it1)"
          using adv [OF popped(4)] popped by (intro take_mem) simp_all
        moreover have "v_loop K s it =
            (if \<not> vd_delete w then (?it1\<lparr>vi_key := k, vi_value := vd_value w\<rparr>, True) else v_loop K s ?it1)"
          using equal False Cons vals by (subst step) (simp add: Let_def)
        ultimately show ?thesis
          by (simp only:)
      qed
    qed
  qed
qed

lemma Next_delivers:
  assumes "ok s" "view s = Some m" "v_mem d = Some mem" "v_db d = s" "v_it_ok K it_ok it"
  shows "delivers K rest it_ok it (v_Next K d it)"
proof (cases "vi_initialized it")
  case True
  then show ?thesis
    using loop_delivers [OF assms(1,2,5)] assms(3,4) by (simp add: v_Next_def v_isClosed_def)
next
  case False
  let ?it = "(v_advance K s it)\<lparr>vi_initialized := True\<rparr>"
  note adv = advance_spec [OF assms(1,2,5)]
  have "v_it_ok K it_ok ?it"
    using adv(1) by (simp add: v_it_ok_def)
  then have "delivers K rest it_ok ?it (v_loop K s ?it)"
    by (intro loop_delivers [OF assms(1,2)]) simp_all
  moreover have "v_pending K rest it = rest (vi_it it)"
    using False by (simp add: v_pending_def)
  then have same: "v_rest K rest it = v_rest K rest ?it"
    using adv by (simp add: v_rest_def)
  ultimately show ?thesis
    unfolding delivers_cong [OF same] using False assms(3,4) by (simp add: v_Next_def v_isClosed_def Let_def)
qed

lemma NewIterator_entries:
  assumes "ok s" "view s = Some m" "wf_map mem"
    "d = \<lparr>v_mem = Some mem, v_db = s, v_batch = b\<rparr>"
  shows "v_it_ok K it_ok (v_NewIterator K start prefix d) \<and>
    v_Error K (v_NewIterator K start prefix d) = None \<and>
    entries_from (overlay mem m) start prefix (v_rest K rest (v_NewIterator K start prefix d))"
proof -
  let ?it = "v_NewIterator K start prefix d" and ?z = "\<lparr>vd_value = [], vd_delete = False\<rparr>"
  define keys where "keys = sort (filter (\<lambda>key. hasPrefix key prefix \<and> start \<le> key) (mkeys mem))"
  define i where "i = kv_NewIteratorWithStartAndPrefix K start prefix s"
  define xs where "xs = map (\<lambda>k. (k, mget_or ?z mem k)) keys"
  have keys: "sorted_wrt (<) keys" "set keys = {k. mget mem k \<noteq> None \<and> hasPrefix k prefix \<and> start \<le> k}"
    using sorted_keys_from [OF assms(3) keys_def] by auto
  have it: "vi_it ?it = i" "vi_keys ?it = keys" "vi_values ?it = map (mget_or ?z mem) keys" "vi_err ?it = None" "\<not> vi_initialized ?it"
    by (simp_all add: v_NewIterator_def assms(4) keys_def i_def Let_def)
  have law: "it_ok i" "it_Error K i = None" "entries_from m start prefix (rest i)"
    using Iterator_law [OF assms(1,2) i_def] by auto
  have "v_rest K rest ?it = merge xs (rest i)"
    by (simp add: v_rest_def v_pending_def it xs_def zip_map2 zip_same_conv_map o_def)
  moreover have xs: "sorted_wrt (<) (map fst xs)" "fst ` set xs = set keys"
    using keys by (simp_all add: xs_def o_def image_image)
  moreover have "set (merge xs (rest i)) = {(k, v). overlay mem m k = Some v \<and> hasPrefix k prefix \<and> start \<le> k}"
  proof -
    have "(k, v) \<in> kept xs \<longleftrightarrow> (\<exists>val. mget mem k = Some val \<and> \<not> vd_delete val \<and> v = vd_value val) \<and> hasPrefix k prefix \<and> start \<le> k" for k v
      using keys(2) by (auto simp: kept_def xs_def emit_def mget_or_def split: if_splits option.splits)
    moreover have "(k, v) \<in> unhidden xs (rest i) \<longleftrightarrow> m k = Some v \<and> mget mem k = None \<and> hasPrefix k prefix \<and> start \<le> k" for k v
      using law(3) by (auto simp: unhidden_def entries_from_def xs(2) keys(2))
    moreover have "set (merge xs (rest i)) = kept xs \<union> unhidden xs (rest i)"
      using xs(1) law(3) by (intro merge_set) (simp_all add: entries_from_def)
    moreover have "overlay mem m k = Some v \<longleftrightarrow> (\<exists>val. mget mem k = Some val \<and> \<not> vd_delete val \<and> v = vd_value val) \<or>
        m k = Some v \<and> mget mem k = None" for k v
      by (auto simp: overlay_def split: option.splits if_splits)
    ultimately show ?thesis
      by auto
  qed
  ultimately show ?thesis
    using law merge_sorted [OF xs(1), of "rest i"] by (simp add: entries_from_def v_it_ok_def v_Error_def it)
qed

lemma Commit_spec:
  assumes "v_ok view ok d" "v_mem d = Some mem" "view (v_db d) = Some m" "v_Commit K d = (d', e)"
  shows "e = None \<and> v_ok view ok d' \<and> v_mem d' = Some [] \<and> view (v_db d') = Some (overlay mem m)"
proof -
  let ?ops = "Ops (fillBatch mem (batch_Reset (v_batch d)))"
  obtain db er where w: "kv_Write K ?ops (v_db d) = (db, er)"
    by (rule prod.exhaust)
  have ok: "ok (v_db d)" "wf_map mem"
    using assms(1,2) by (simp_all add: v_ok_def)
  have "apply_ops ?ops m = overlay mem m"
    using fillBatch_apply [OF ok(2), of "batch_Reset (v_batch d)" ?ops] by (simp add: batch_Reset_def)
  then have "ok db" "view db = Some (overlay mem m)" "er = None"
    using Write_law [OF ok(1) w] assms(3) by (simp_all add: written_def)
  then show ?thesis
    using assms(2,4) w by (auto simp: v_Commit_def v_commitBatch_def v_abort_def v_ok_def)
qed

lemma v_okD:
  assumes "v_ok view ok d" "v_view view d = Some m'"
  obtains mem m where "v_mem d = Some mem" "wf_map mem" "ok (v_db d)" "view (v_db d) = Some m" "m' = overlay mem m"
  using assms that by (auto simp: v_ok_def v_view_def split: option.splits)

lemma versiondb: "kv_database (v_ops K) (v_view view) (v_ok view ok) (v_rest K rest) (v_it_ok K it_ok)"
proof unfold_locales
  fix d m'
  assume "v_ok view ok d" "v_view view d = Some m'"
  then obtain mem m where "ok (v_db d)" "view (v_db d) = Some m" "m' = overlay mem m"
    by (rule v_okD)
  then show "finite (dom m')"
    using finite_overlay finite_view by simp
next
  fix d k
  assume "v_ok view ok d"
  then show "kv_Has (v_ops K) k d = (case v_view view d of None \<Rightarrow> Inl ErrClosed | Some m \<Rightarrow> Inr (m k \<noteq> None))"
    by (auto simp: v_ops_def v_Has_def v_view_def v_ok_def overlay_def Has_law split: option.split)
next
  fix d k
  assume "v_ok view ok d"
  then show "kv_Get (v_ops K) k d =
      (case v_view view d of None \<Rightarrow> Inl ErrClosed | Some m \<Rightarrow> (case m k of None \<Rightarrow> Inl ErrNotFound | Some v \<Rightarrow> Inr v))"
    by (auto simp: v_ops_def v_Get_def v_view_def v_ok_def overlay_def Get_law split: option.split)
next
  fix d k v d' e
  assume "v_ok view ok d" "kv_Put (v_ops K) k v d = (d', e)"
  then show "v_ok view ok d' \<and> written (v_view view d) (\<lambda>m. m(k \<mapsto> v)) (v_view view d', e)"
    by (auto simp: v_ops_def v_Put_def v_view_def v_ok_def written_def split: option.splits)
next
  fix d k d' e
  assume "v_ok view ok d" "kv_Delete (v_ops K) k d = (d', e)"
  then show "v_ok view ok d' \<and> written (v_view view d) (\<lambda>m. m(k := None)) (v_view view d', e)"
    by (auto simp: v_ops_def v_Delete_def v_view_def v_ok_def written_def split: option.splits)
next
  fix d ops d' e
  assume "v_ok view ok d" "kv_Write (v_ops K) ops d = (d', e)"
  then show "v_ok view ok d' \<and> written (v_view view d) (apply_ops ops) (v_view view d', e)"
    by (auto simp: v_ops_def v_Write_def v_view_def v_ok_def written_def v_applyOps_overlay split: option.splits)
next
  fix d d' e
  assume "v_ok view ok d" "kv_Close (v_ops K) d = (d', e)"
  then show "v_ok view ok d' \<and> v_view view d' = None \<and> (e = None \<longleftrightarrow> v_view view d \<noteq> None)"
    by (auto simp: v_ops_def v_Close_def v_view_def v_ok_def split: option.splits)
next
  fix d m' it start prefix
  assume d: "v_ok view ok d" "v_view view d = Some m'" and it: "it = kv_NewIteratorWithStartAndPrefix (v_ops K) start prefix d"
  obtain mem m where m: "v_mem d = Some mem" "wf_map mem" "ok (v_db d)" "view (v_db d) = Some m" "m' = overlay mem m"
    using d by (rule v_okD)
  have "d = \<lparr>v_mem = Some mem, v_db = v_db d, v_batch = v_batch d\<rparr>"
    using m(1) by simp
  from NewIterator_entries [OF m(3,4,2) this, of start prefix]
  show "v_it_ok K it_ok it \<and> it_Error (v_ops K) it = None \<and> entries_from m' start prefix (v_rest K rest it)"
    using m(5) it by (simp add: v_ops_def)
next
  fix d m' it it' again
  assume d: "v_ok view ok d" "v_view view d = Some m'" and it: "v_it_ok K it_ok it" "it_Next (v_ops K) d it = (it', again)"
  obtain mem m where m: "v_mem d = Some mem" "ok (v_db d)" "view (v_db d) = Some m"
    using d by (rule v_okD)
  have "delivers K rest it_ok it (it', again)"
    using Next_delivers [OF m(2,3,1) refl it(1)] it(2) by (simp add: v_ops_def)
  then show "v_it_ok K it_ok it' \<and> it_Error (v_ops K) it' = None \<and>
      (case v_rest K rest it of [] \<Rightarrow> \<not> again \<and> v_rest K rest it' = []
       | (k, v) # r \<Rightarrow> again \<and> v_rest K rest it' = r \<and> it_Key (v_ops K) it' = k \<and> it_Value (v_ops K) it' = v)"
    unfolding delivers_def v_ops_def kv_ops.select_convs fst_conv snd_conv by (simp add: v_Error_def v_it_ok_def)
next
  fix d it it' again
  assume "v_ok view ok d" "v_view view d = None" "v_it_ok K it_ok it" "it_Next (v_ops K) d it = (it', again)"
  then show "\<not> again \<and> it_Error (v_ops K) it' = Some ErrClosed"
    by (auto simp: v_ops_def v_Next_def v_isClosed_def v_view_def v_ok_def v_Error_def split: option.splits)
qed

end

interpretation vmem: kv_database "v_ops mem_ops" "v_view mem_view" "v_ok mem_view mem_ok"
  "v_rest mem_ops mem_rest" "v_it_ok mem_ops mem_it_ok"
  by (rule memdb.versiondb)

subsection \<open>Properties\<close>

text \<open>
  C8.  A versioned database over any database that meets the interface contract meets it too: it
  behaves as one map, its iterators deliver the merged entries in increasing order of keys, each once, and every
  call on a closed one fails with \<open>ErrClosed\<close>.  So versioned databases can be stacked.\<close>

theorem versiondb_implements_database:
  assumes "kv_database K view ok rest it_ok"
  shows "kv_database (v_ops K) (v_view view) (v_ok view ok) (v_rest K rest) (v_it_ok K it_ok)"
  using assms by (rule kv_database.versiondb)

theorem versiondb_implements_database_witness:
  "kv_database (v_ops (v_ops mem_ops)) (v_view (v_view mem_view)) (v_ok (v_view mem_view) (v_ok mem_view mem_ok))
     (v_rest (v_ops mem_ops) (v_rest mem_ops mem_rest)) (v_it_ok (v_ops mem_ops) (v_it_ok mem_ops mem_it_ok))"
  by (rule versiondb_implements_database [OF vmem.kv_database_axioms])

text \<open>
  C9.  Until \<open>Commit\<close> the underlying database is untouched by \<open>Put\<close>, \<open>Delete\<close> and batches.  \<open>Commit\<close> succeeds, writes
  exactly the contents of the versioned database to the underlying one and does not change what the
  versioned database shows; \<open>Abort\<close> shows the underlying contents again.\<close>

theorem versiondb_commit_abort:
  assumes "kv_database K view ok rest it_ok" "v_ok view ok d" "v_view view d = Some m"
  shows "v_db (fst (v_Put k v d)) = v_db d \<and> v_db (fst (v_Delete k d)) = v_db d \<and> v_db (fst (v_Write ops d)) = v_db d \<and>
    (case v_Commit K d of (d', e) \<Rightarrow> e = None \<and> v_ok view ok d' \<and> view (v_db d') = Some m \<and> v_view view d' = Some m) \<and>
    v_view view (v_abort d) = view (v_db d)"
proof -
  obtain mem u where u: "v_mem d = Some mem" "view (v_db d) = Some u" "m = overlay mem u"
    using kv_database.v_okD [OF assms] by metis
  obtain d' e where c: "v_Commit K d = (d', e)"
    by (rule prod.exhaust)
  have "e = None \<and> v_ok view ok d' \<and> v_mem d' = Some [] \<and> view (v_db d') = Some m"
    using kv_database.Commit_spec [OF assms(1,2) u(1,2) c] u(3) by simp
  then show ?thesis
    using c u(1,2)
    by (simp add: v_Put_def v_Delete_def v_Write_def v_abort_def v_view_def option.map_ident)
qed

definition vdb_example :: "memdb versiondb" where
  "vdb_example = fst (v_Delete [1] (fst (v_Put [2] [9] (v_New (Some [([1], [7])])))))"

theorem versiondb_commit_abort_witness:
  "v_view mem_view vdb_example = Some [[2] \<mapsto> [9]] \<and>
   mem_view (v_db (fst (v_Commit mem_ops vdb_example))) = Some [[2] \<mapsto> [9]]"
proof -
  have ok: "v_ok mem_view mem_ok vdb_example" and view: "v_view mem_view vdb_example = Some [[2] \<mapsto> [9]]"
    by (auto simp: vdb_example_def v_New_def v_Put_def v_Delete_def v_ok_def mem_ok_def mem_view_def v_view_def overlay_def fun_eq_iff)
  show ?thesis
    using versiondb_commit_abort [OF memdb.kv_database_axioms ok view, of "[]" "[]" "[]"] view
    by (cases "v_Commit mem_ops vdb_example") simp
qed

end
