(* ===== verification/IntervalTree.thy ===== *)
theory IntervalTree
  imports SafeMath Database
begin

text \<open>
  The set of fetched heights kept by bootstrapping (\<open>src/snow/engine/snowman/bootstrap/interval\<close>): maximal
  intervals in a B-tree, written through to a database.  The B-tree is the package \<open>google/btree\<close>, a
  parameter \<open>B\<close>; it stores pointers, compared by the upper bounds they have at the time of the call, and the code changes
  intervals in place.  Pointers are positions in the list \<open>ivs\<close>.  The database is any method table \<open>K\<close>.
\<close>

record Interval =
  LowerBound :: "64 word"
  UpperBound :: "64 word"

definition iv_Contains :: "Interval option \<Rightarrow> 64 word \<Rightarrow> bool" where
  "iv_Contains i height \<longleftrightarrow> (case i of None \<Rightarrow> False | Some i \<Rightarrow> LowerBound i \<le> height \<and> height \<le> UpperBound i)"

definition AdjacentToLowerBound :: "Interval option \<Rightarrow> 64 word \<Rightarrow> bool" where
  "AdjacentToLowerBound i height \<longleftrightarrow>
     (case i of None \<Rightarrow> False | Some i \<Rightarrow> height < MaxUint \<and> height + 1 = LowerBound i)"

definition AdjacentToUpperBound :: "Interval option \<Rightarrow> 64 word \<Rightarrow> bool" where
  "AdjacentToUpperBound i height \<longleftrightarrow>
     (case i of None \<Rightarrow> False | Some i \<Rightarrow> UpperBound i < MaxUint \<and> UpperBound i + 1 = height)"

subsection \<open>The B-tree parameter\<close>

record 'b btree =
  bt_NewG :: 'b
  bt_ReplaceOrInsert :: "(nat \<Rightarrow> 64 word) \<Rightarrow> nat \<Rightarrow> 'b \<Rightarrow> 'b"
  bt_Delete :: "(nat \<Rightarrow> 64 word) \<Rightarrow> nat \<Rightarrow> 'b \<Rightarrow> 'b"
  bt_AscendGreaterOrEqual :: "(nat \<Rightarrow> 64 word) \<Rightarrow> nat \<Rightarrow> 'b \<Rightarrow> nat option"
  bt_DescendLessOrEqual :: "(nat \<Rightarrow> 64 word) \<Rightarrow> nat \<Rightarrow> 'b \<Rightarrow> nat option"
  bt_Ascend :: "'b \<Rightarrow> nat list"

text \<open>The documented behaviour of the package, for a tree whose items are in order.  The comparison is by a
  key; the two searches give the first item they visit, since the callbacks stop there.\<close>

definition btree_ok :: "'b btree \<Rightarrow> bool" where
  "btree_ok B \<longleftrightarrow> bt_Ascend B (bt_NewG B) = [] \<and>
     (\<forall>key b x. sorted_wrt (\<lambda>y z. key y < key z) (bt_Ascend B b) \<longrightarrow>
        bt_AscendGreaterOrEqual B key x b = List.find (\<lambda>y. key x \<le> key y) (bt_Ascend B b) \<and>
        bt_DescendLessOrEqual B key x b = List.find (\<lambda>y. key y \<le> key x) (rev (bt_Ascend B b)) \<and>
        bt_Ascend B (bt_ReplaceOrInsert B key x b) =
          filter (\<lambda>y. key y < key x) (bt_Ascend B b) @ x # filter (\<lambda>y. key x < key y) (bt_Ascend B b) \<and>
        bt_Ascend B (bt_Delete B key x b) = filter (\<lambda>y. key y \<noteq> key x) (bt_Ascend B b))"

subsection \<open>Persistence\<close>

definition makeIntervalKey :: "64 word \<Rightarrow> bytes" where
  "makeIntervalKey upperBound = [0] @ PackUInt64 upperBound"

definition makeBlockKey :: "64 word \<Rightarrow> bytes" where
  "makeBlockKey height = [1] @ PackUInt64 height"

definition PutInterval :: "('s, 'i) kv_ops \<Rightarrow> 64 word \<Rightarrow> 64 word \<Rightarrow> 's \<Rightarrow> 's \<times> db_error option" where
  "PutInterval K upperBound lowerBound db = PutUInt64 K (makeIntervalKey upperBound) lowerBound db"

definition DeleteInterval :: "('s, 'i) kv_ops \<Rightarrow> 64 word \<Rightarrow> 's \<Rightarrow> 's \<times> db_error option" where
  "DeleteInterval K upperBound db = kv_Delete K (makeIntervalKey upperBound) db"

definition GetBlock :: "('s, 'i) kv_ops \<Rightarrow> 64 word \<Rightarrow> 's \<Rightarrow> db_error + bytes" where
  "GetBlock K height db = kv_Get K (makeBlockKey height) db"

definition PutBlock :: "('s, 'i) kv_ops \<Rightarrow> 64 word \<Rightarrow> bytes \<Rightarrow> 's \<Rightarrow> 's \<times> db_error option" where
  "PutBlock K height blkBytes db = kv_Put K (makeBlockKey height) blkBytes db"

definition DeleteBlock :: "('s, 'i) kv_ops \<Rightarrow> 64 word \<Rightarrow> 's \<Rightarrow> 's \<times> db_error option" where
  "DeleteBlock K height db = kv_Delete K (makeBlockKey height) db"

definition GetBlockIterator :: "('s, 'i) kv_ops \<Rightarrow> 's \<Rightarrow> 'i" where
  "GetBlockIterator K db = kv_NewIteratorWithStartAndPrefix K [] [1] db"

definition GetBlockIteratorWithStart :: "('s, 'i) kv_ops \<Rightarrow> 64 word \<Rightarrow> 's \<Rightarrow> 'i" where
  "GetBlockIteratorWithStart K height db = kv_NewIteratorWithStartAndPrefix K (makeBlockKey height) [1] db"

text \<open>The loop of \<open>GetIntervals\<close>; \<open>None\<close> stands for a loop that does not end.\<close>

partial_function (option) intervals_loop ::
    "('s, 'i) kv_ops \<Rightarrow> 's \<Rightarrow> 'i \<Rightarrow> Interval list \<Rightarrow> (db_error + Interval list) option" where
  [code]: "intervals_loop K db it intervals =
     (case it_Next K db it of (it, again) \<Rightarrow>
        if \<not> again then
          Some (case it_Error K it of Some err \<Rightarrow> Inl err | None \<Rightarrow> Inr intervals)
        else
          let dbKey = it_Key K it in
          if length dbKey < 1 then Some (Inl errInvalidKeyLength)
          else case ParseUInt64 (drop 1 dbKey) of
                 Inl err \<Rightarrow> Some (Inl err)
               | Inr upperBound \<Rightarrow>
                   (case ParseUInt64 (it_Value K it) of
                      Inl err \<Rightarrow> Some (Inl err)
                    | Inr lowerBound \<Rightarrow>
                        intervals_loop K db it (intervals @ [\<lparr>LowerBound = lowerBound, UpperBound = upperBound\<rparr>])))"

definition GetIntervals :: "('s, 'i) kv_ops \<Rightarrow> 's \<Rightarrow> (db_error + Interval list) option" where
  "GetIntervals K db = intervals_loop K db (kv_NewIteratorWithStartAndPrefix K [] [0] db) []"

subsection \<open>The tree\<close>

record 'b iv_tree =
  knownHeights :: 'b
  numKnownHeights :: "64 word"
  ivs :: "Interval list"

abbreviation upper_key :: "Interval list \<Rightarrow> nat \<Rightarrow> 64 word" where
  "upper_key store p \<equiv> UpperBound (store ! p)"

definition alloc :: "Interval \<Rightarrow> ('b, 'z) iv_tree_scheme \<Rightarrow> nat \<times> ('b, 'z) iv_tree_scheme" where
  "alloc i t = (length (ivs t), t\<lparr>ivs := ivs t @ [i]\<rparr>)"

definition deref :: "('b, 'z) iv_tree_scheme \<Rightarrow> nat option \<Rightarrow> Interval option" where
  "deref t p = map_option (\<lambda>a. ivs t ! a) p"

definition setBounds :: "nat \<Rightarrow> 64 word \<Rightarrow> 64 word \<Rightarrow> ('b, 'z) iv_tree_scheme \<Rightarrow> ('b, 'z) iv_tree_scheme" where
  "setBounds p lower upper t = t\<lparr>ivs := (ivs t)[p := \<lparr>LowerBound = lower, UpperBound = upper\<rparr>]\<rparr>"

definition ascendGE :: "'b btree \<Rightarrow> nat \<Rightarrow> 'b iv_tree \<Rightarrow> nat option" where
  "ascendGE B p t = bt_AscendGreaterOrEqual B (upper_key (ivs t)) p (knownHeights t)"

definition descendLE :: "'b btree \<Rightarrow> nat \<Rightarrow> 'b iv_tree \<Rightarrow> nat option" where
  "descendLE B p t = bt_DescendLessOrEqual B (upper_key (ivs t)) p (knownHeights t)"

definition insertItem :: "'b btree \<Rightarrow> nat \<Rightarrow> 'b iv_tree \<Rightarrow> 'b iv_tree" where
  "insertItem B p t = t\<lparr>knownHeights := bt_ReplaceOrInsert B (upper_key (ivs t)) p (knownHeights t)\<rparr>"

definition deleteItem :: "'b btree \<Rightarrow> nat \<Rightarrow> 'b iv_tree \<Rightarrow> 'b iv_tree" where
  "deleteItem B p t = t\<lparr>knownHeights := bt_Delete B (upper_key (ivs t)) p (knownHeights t)\<rparr>"

fun addIntervals :: "'b btree \<Rightarrow> Interval list \<Rightarrow> 'b iv_tree \<Rightarrow> 'b iv_tree" where
  "addIntervals B [] t = t"
| "addIntervals B (i # is) t =
     (case alloc i t of (p, t) \<Rightarrow>
        let t = insertItem B p t
        in addIntervals B is (t\<lparr>numKnownHeights := numKnownHeights t + (UpperBound i - LowerBound i + 1)\<rparr>))"

definition iv_NewTree :: "'b btree \<Rightarrow> ('s, 'i) kv_ops \<Rightarrow> 's \<Rightarrow> (db_error + 'b iv_tree) option" where
  "iv_NewTree B K db =
     map_option (\<lambda>r. case r of
        Inl err \<Rightarrow> Inl err
      | Inr intervals \<Rightarrow>
          Inr (addIntervals B intervals \<lparr>knownHeights = bt_NewG B, numKnownHeights = 0, ivs = []\<rparr>)) (GetIntervals K db)"

definition iv_Add :: "'b btree \<Rightarrow> ('s, 'i) kv_ops \<Rightarrow> 64 word \<Rightarrow> 'b iv_tree \<times> 's \<Rightarrow> ('b iv_tree \<times> 's) \<times> db_error option" where
  "iv_Add B K height = (\<lambda>(t, db).
     case alloc \<lparr>LowerBound = height, UpperBound = height\<rparr> t of (newInterval, t) \<Rightarrow>
       let upper = ascendGE B newInterval t in
       if iv_Contains (deref t upper) height then ((t, db), None)
       else
         let lower = descendLE B newInterval t;
             t = t\<lparr>numKnownHeights := numKnownHeights t + 1\<rparr>;
             adjacentToLowerBound = AdjacentToLowerBound (deref t upper) height;
             adjacentToUpperBound = AdjacentToUpperBound (deref t lower) height;
             u = the upper; l = the lower;
             U = UpperBound (ivs t ! u); L = LowerBound (ivs t ! l)
         in if adjacentToLowerBound \<and> adjacentToUpperBound then
              (case DeleteInterval K (UpperBound (ivs t ! l)) db of
                 (db, Some err) \<Rightarrow> ((t, db), Some err)
               | (db, None) \<Rightarrow>
                   let t = deleteItem B l (setBounds u L U t)
                   in case PutInterval K U L db of (db, err) \<Rightarrow> ((t, db), err))
            else if adjacentToLowerBound then
              (let t = setBounds u height U t
               in case PutInterval K U height db of (db, err) \<Rightarrow> ((t, db), err))
            else if adjacentToUpperBound then
              (case DeleteInterval K (UpperBound (ivs t ! l)) db of
                 (db, Some err) \<Rightarrow> ((t, db), Some err)
               | (db, None) \<Rightarrow>
                   let t = setBounds l L height t
                   in case PutInterval K height L db of (db, err) \<Rightarrow> ((t, db), err))
            else
              (let t = insertItem B newInterval t
               in case PutInterval K height height db of (db, err) \<Rightarrow> ((t, db), err)))"

definition iv_Remove :: "'b btree \<Rightarrow> ('s, 'i) kv_ops \<Rightarrow> 64 word \<Rightarrow> 'b iv_tree \<times> 's \<Rightarrow> ('b iv_tree \<times> 's) \<times> db_error option" where
  "iv_Remove B K height = (\<lambda>(t, db).
     case alloc \<lparr>LowerBound = height, UpperBound = height\<rparr> t of (newInterval, t) \<Rightarrow>
       let higher = ascendGE B newInterval t in
       if \<not> iv_Contains (deref t higher) height then ((t, db), None)
       else
         let t = t\<lparr>numKnownHeights := numKnownHeights t - 1\<rparr>;
             h = the higher;
             L = LowerBound (ivs t ! h); U = UpperBound (ivs t ! h)
         in if L = U then
              (let t = deleteItem B h t
               in case DeleteInterval K U db of (db, err) \<Rightarrow> ((t, db), err))
            else if L = height then
              (let t = setBounds h (L + 1) U t
               in case PutInterval K U (L + 1) db of (db, err) \<Rightarrow> ((t, db), err))
            else if U = height then
              (case DeleteInterval K U db of
                 (db, Some err) \<Rightarrow> ((t, db), Some err)
               | (db, None) \<Rightarrow>
                   let t = setBounds h L (U - 1) t
                   in case PutInterval K (U - 1) L db of (db, err) \<Rightarrow> ((t, db), err))
            else
              (let t = insertItem B newInterval (setBounds newInterval L (height - 1) t)
               in case PutInterval K (height - 1) L db of
                    (db, Some err) \<Rightarrow> ((t, db), Some err)
                  | (db, None) \<Rightarrow>
                      let t = setBounds h (height + 1) U t
                      in case PutInterval K U (height + 1) db of (db, err) \<Rightarrow> ((t, db), err)))"

definition tree_Contains :: "'b btree \<Rightarrow> 64 word \<Rightarrow> 'b iv_tree \<Rightarrow> bool" where
  "tree_Contains B height t =
     (case alloc \<lparr>LowerBound = height, UpperBound = height\<rparr> t of (i, t) \<Rightarrow>
        iv_Contains (deref t (ascendGE B i t)) height)"

definition Flatten :: "'b btree \<Rightarrow> 'b iv_tree \<Rightarrow> Interval list" where
  "Flatten B t = map (\<lambda>p. ivs t ! p) (bt_Ascend B (knownHeights t))"

definition iv_Len :: "'b iv_tree \<Rightarrow> 64 word" where
  "iv_Len t = numKnownHeights t"

subsection \<open>Blocks\<close>

definition blocks_Add :: "'b btree \<Rightarrow> ('s, 'i) kv_ops \<Rightarrow> 64 word \<Rightarrow> 64 word \<Rightarrow> bytes \<Rightarrow> 'b iv_tree \<times> 's \<Rightarrow>
    ('b iv_tree \<times> 's) \<times> (db_error + bool)" where
  "blocks_Add B K lastAcceptedHeight height blkBytes = (\<lambda>(t, db).
     if height \<le> lastAcceptedHeight \<or> tree_Contains B height t then ((t, db), Inr False)
     else case PutBlock K height blkBytes db of
            (db, Some err) \<Rightarrow> ((t, db), Inl err)
          | (db, None) \<Rightarrow>
              (case iv_Add B K height (t, db) of
                 (tdb, Some err) \<Rightarrow> (tdb, Inl err)
               | (tdb, None) \<Rightarrow>
                   let nextHeight = height - 1
                   in (tdb, Inr (nextHeight \<noteq> lastAcceptedHeight \<and> \<not> tree_Contains B nextHeight (fst tdb)))))"

definition blocks_Remove :: "'b btree \<Rightarrow> ('s, 'i) kv_ops \<Rightarrow> 64 word \<Rightarrow> 'b iv_tree \<times> 's \<Rightarrow> ('b iv_tree \<times> 's) \<times> db_error option" where
  "blocks_Remove B K height = (\<lambda>(t, db).
     case DeleteBlock K height db of
       (db, Some err) \<Rightarrow> ((t, db), Some err)
     | (db, None) \<Rightarrow> iv_Remove B K height (t, db))"

subsection \<open>Maximal intervals\<close>

text \<open>The contents of a tree as a list of pairs of bounds: nonempty intervals in order, with a gap between
  any two.\<close>

definition iv_wf :: "(nat \<times> nat) list \<Rightarrow> bool" where
  "iv_wf L \<longleftrightarrow> (\<forall>i\<in>set L. fst i \<le> snd i) \<and> sorted_wrt (\<lambda>i j. snd i + 1 < fst j) L"

definition hts :: "(nat \<times> nat) list \<Rightarrow> nat set" where
  "hts L = (\<Union>i\<in>set L. {fst i..snd i})"

lemma iv_wf_append:
  "iv_wf (A @ C) \<longleftrightarrow> iv_wf A \<and> iv_wf C \<and> (\<forall>a\<in>set A. \<forall>c\<in>set C. snd a + 1 < fst c)"
  by (auto simp: iv_wf_def sorted_wrt_append)

lemma iv_wf_Cons:
  "iv_wf ((l, h) # C) \<longleftrightarrow> l \<le> h \<and> iv_wf C \<and> (\<forall>c\<in>set C. h + 1 < fst c)"
  by (auto simp: iv_wf_def)

lemma iv_wf_Nil [simp]: "iv_wf []"
  by (simp add: iv_wf_def)

lemma hts_simps [simp]:
  "hts [] = {}" "hts ((l, h) # C) = {l..h} \<union> hts C" "hts (A @ C) = hts A \<union> hts C"
  by (auto simp: hts_def)

lemma finite_hts [simp]: "finite (hts L)"
  by (simp add: hts_def)

lemma iv_wf_upper:
  assumes "iv_wf L"
  shows "sorted_wrt (\<lambda>i j. snd i < snd j) L"
proof -
  have "sorted_wrt (\<lambda>i j. snd i + 1 < fst j) L" "\<forall>i\<in>set L. fst i \<le> snd i"
    using assms by (simp_all add: iv_wf_def)
  then show ?thesis
    by (auto elim!: sorted_wrt_mono_rel [rotated])
qed

text \<open>The intervals below a height and the rest.\<close>

lemma iv_split:
  assumes "iv_wf L"
  shows "L = filter (\<lambda>i. snd i < x) L @ filter (\<lambda>i. x \<le> snd i) L"
  using iv_wf_upper [OF assms]
proof (induction L)
  case (Cons i L)
  show ?case
  proof (cases "snd i < x")
    case True
    then show ?thesis
      using Cons by simp
  next
    case False
    then have "filter (\<lambda>i. snd i < x) L = []" "filter (\<lambda>i. x \<le> snd i) L = L"
      using Cons.prems by (auto simp: filter_empty_conv filter_id_conv)
    then show ?thesis
      using False by simp
  qed
qed simp

lemma hts_member:
  assumes "iv_wf (A @ C)" "\<forall>i\<in>set A. snd i < x" "\<forall>i\<in>set C. x \<le> snd i"
  shows "x \<in> hts (A @ C) \<longleftrightarrow> (case C of [] \<Rightarrow> False | i # _ \<Rightarrow> fst i \<le> x)"
proof -
  have A: "x \<notin> hts A"
    using assms(2) by (auto simp: hts_def)
  show ?thesis
  proof (cases C)
    case (Cons i C')
    have "x \<notin> hts C'"
      using assms(1,3) Cons by (cases i) (fastforce simp: iv_wf_append iv_wf_Cons hts_def)
    then show ?thesis
      using A Cons assms(3) by (cases i) auto
  qed (simp add: A)
qed

lemma below_gap:
  assumes "iv_wf A" "\<forall>i\<in>set A. snd i < x" "A = [] \<or> snd (last A) + 1 \<noteq> x"
  shows "\<forall>i\<in>set A. snd i + 1 < x"
proof (cases A rule: rev_cases)
  case (snoc A' i)
  then have "snd i + 1 < x" "\<forall>a\<in>set A'. snd a + 1 < fst i" "fst i \<le> snd i"
    using assms by (auto simp: iv_wf_def sorted_wrt_append)
  then show ?thesis
    using snoc by fastforce
qed simp

lemma above_gap:
  assumes "iv_wf C" "\<forall>i\<in>set C. x < fst i" "C = [] \<or> fst (hd C) \<noteq> x + 1"
  shows "\<forall>i\<in>set C. x + 1 < fst i"
proof (cases C)
  case (Cons i C')
  then have "x + 1 < fst i" "\<forall>c\<in>set C'. snd i + 1 < fst c" "fst i \<le> snd i"
    using assms by (cases i; auto simp: iv_wf_Cons)+
  then show ?thesis
    using Cons by fastforce
qed simp

definition add_iv :: "nat \<Rightarrow> (nat \<times> nat) list \<Rightarrow> (nat \<times> nat) list \<Rightarrow> (nat \<times> nat) list" where
  "add_iv x A C =
     (let joinsBelow = A \<noteq> [] \<and> snd (last A) + 1 = x; joinsAbove = C \<noteq> [] \<and> fst (hd C) = x + 1 in
      if joinsAbove \<and> joinsBelow then butlast A @ (fst (last A), snd (hd C)) # tl C
      else if joinsAbove then A @ (x, snd (hd C)) # tl C
      else if joinsBelow then butlast A @ (fst (last A), x) # C
      else A @ (x, x) # C)"

fun remove_iv :: "nat \<Rightarrow> (nat \<times> nat) list \<Rightarrow> (nat \<times> nat) list \<Rightarrow> (nat \<times> nat) list" where
  "remove_iv x A ((l, h) # C) =
     (if l = h then A @ C
      else if l = x then A @ (l + 1, h) # C
      else if h = x then A @ (l, h - 1) # C
      else A @ (l, x - 1) # (x + 1, h) # C)"
| "remove_iv x A [] = A"

lemma add_iv_ok:
  assumes wf: "iv_wf (A @ C)" and A: "\<forall>i\<in>set A. snd i < x" and C: "\<forall>i\<in>set C. x < fst i"
  shows "iv_wf (add_iv x A C) \<and> hts (add_iv x A C) = insert x (hts (A @ C))"
proof -
  have wfA: "iv_wf A" and wfC: "iv_wf C"
    using wf by (simp_all add: iv_wf_append)
  consider (both) A' l C' h where "A = A' @ [(l, x - 1)]" "0 < x" "C = (x + 1, h) # C'"
    | (above) C' h where "A = [] \<or> snd (last A) + 1 \<noteq> x" "C = (x + 1, h) # C'"
    | (below) A' l where "A = A' @ [(l, x - 1)]" "0 < x" "C = [] \<or> fst (hd C) \<noteq> x + 1"
    | (alone) "A = [] \<or> snd (last A) + 1 \<noteq> x" "C = [] \<or> fst (hd C) \<noteq> x + 1"
    by (cases A rule: rev_cases; cases C) force+
  then show ?thesis
  proof cases
    case both
    then show ?thesis
      using wf by (auto simp: add_iv_def iv_wf_append iv_wf_Cons)
  next
    case above
    have "\<forall>i\<in>set A. snd i + 1 < x"
      using below_gap [OF wfA A above(1)] .
    moreover have "add_iv x A C = A @ (x, h) # C'"
      using above by (auto simp: add_iv_def)
    ultimately show ?thesis
      using wf above(2) by (auto simp: iv_wf_append iv_wf_Cons)
  next
    case below
    have "\<forall>i\<in>set C. x + 1 < fst i"
      using above_gap [OF wfC C below(3)] .
    moreover have "add_iv x A C = A' @ (l, x) # C"
      using below by (auto simp: add_iv_def)
    ultimately show ?thesis
      using wf below(1,2) by (auto simp: iv_wf_append iv_wf_Cons)
  next
    case alone
    have "\<forall>i\<in>set A. snd i + 1 < x" "\<forall>i\<in>set C. x + 1 < fst i"
      using below_gap [OF wfA A alone(1)] above_gap [OF wfC C alone(2)] by auto
    moreover have "add_iv x A C = A @ (x, x) # C"
      using alone by (auto simp: add_iv_def)
    ultimately show ?thesis
      using wf by (auto simp: iv_wf_append iv_wf_Cons)
  qed
qed

lemma remove_iv_ok:
  assumes wf: "iv_wf (A @ (l, h) # C)" and x: "l \<le> x" "x \<le> h"
  shows "iv_wf (remove_iv x A ((l, h) # C)) \<and> hts (remove_iv x A ((l, h) # C)) = hts (A @ (l, h) # C) - {x}"
proof -
  have out: "x \<notin> hts A" "x \<notin> hts C"
    using wf x by (fastforce simp: iv_wf_append iv_wf_Cons hts_def)+
  have "iv_wf (remove_iv x A ((l, h) # C))"
    using wf x by (fastforce simp: iv_wf_append iv_wf_Cons)
  moreover have "hts (remove_iv x A ((l, h) # C)) = hts A \<union> ({l..h} - {x}) \<union> hts C"
    using x by auto
  ultimately show ?thesis
    using out by auto
qed

subsection \<open>The tree represents a list of intervals\<close>

definition bounds :: "Interval \<Rightarrow> nat \<times> nat" where
  "bounds i = (unat (LowerBound i), unat (UpperBound i))"

definition iv_rep :: "'b btree \<Rightarrow> 'b iv_tree \<Rightarrow> (nat \<times> nat) list \<Rightarrow> bool" where
  "iv_rep B t L \<longleftrightarrow> iv_wf L \<and> map (\<lambda>p. bounds (ivs t ! p)) (bt_Ascend B (knownHeights t)) = L \<and>
     (\<forall>p\<in>set (bt_Ascend B (knownHeights t)). p < length (ivs t)) \<and> distinct (bt_Ascend B (knownHeights t))"

lemma snd_bounds [simp]: "snd (bounds i) = unat (UpperBound i)" and fst_bounds [simp]: "fst (bounds i) = unat (LowerBound i)"
  by (simp_all add: bounds_def)

lemma upper_sorted:
  assumes "iv_wf (map (\<lambda>p. bounds (store ! p)) ps)"
  shows "sorted_wrt (\<lambda>y z. upper_key store y < upper_key store z) ps"
  using iv_wf_upper [OF assms] by (simp add: sorted_wrt_map word_less_nat_alt)

text \<open>The items below a height, those from the height on, and their bounds.\<close>

lemma rep_split:
  assumes "iv_rep B t L"
  obtains pa pc where "bt_Ascend B (knownHeights t) = pa @ pc" "L = map (\<lambda>p. bounds (ivs t ! p)) (pa @ pc)"
    "\<forall>p\<in>set pa. unat (upper_key (ivs t) p) < x" "\<forall>p\<in>set pc. x \<le> unat (upper_key (ivs t) p)"
    "\<forall>p\<in>set (pa @ pc). p < length (ivs t)" "distinct (pa @ pc)"
proof -
  let ?ps = "bt_Ascend B (knownHeights t)" and ?f = "\<lambda>p. bounds (ivs t ! p)"
  have L: "L = map ?f ?ps" "iv_wf L"
    using assms by (simp_all add: iv_rep_def)
  then have "map ?f ?ps = filter (\<lambda>i. snd i < x) L @ filter (\<lambda>i. x \<le> snd i) L"
    using iv_split by simp
  then obtain pa pc where p: "?ps = pa @ pc" "filter (\<lambda>i. snd i < x) L = map ?f pa" "filter (\<lambda>i. x \<le> snd i) L = map ?f pc"
    by (auto simp: map_eq_append_conv)
  show thesis
  proof (rule that [of pa pc])
    show "\<forall>p\<in>set pa. unat (upper_key (ivs t) p) < x" "\<forall>p\<in>set pc. x \<le> unat (upper_key (ivs t) p)"
      using arg_cong [OF p(2), of set] arg_cong [OF p(3), of set] by force+
  qed (use assms p(1) L(1) in \<open>auto simp: iv_rep_def\<close>)
qed

lemma find_append: "List.find P (xs @ ys) = (case List.find P xs of Some x \<Rightarrow> Some x | None \<Rightarrow> List.find P ys)"
  by (induction xs) auto

lemma find_None: "\<forall>x\<in>set xs. \<not> P x \<Longrightarrow> List.find P xs = None"
  by (simp add: find_None_iff)

lemma search_spec:
  assumes "btree_ok B" "iv_wf (map (\<lambda>p. bounds (ivs t ! p)) (pa @ pc))" "bt_Ascend B (knownHeights t) = pa @ pc"
    "\<forall>p\<in>set pa. upper_key (ivs t) p < upper_key (ivs t) n" "\<forall>p\<in>set pc. upper_key (ivs t) n \<le> upper_key (ivs t) p"
  shows "ascendGE B n t = (case pc of [] \<Rightarrow> None | p # _ \<Rightarrow> Some p)"
    "\<forall>p\<in>set pc. upper_key (ivs t) p \<noteq> upper_key (ivs t) n \<Longrightarrow> descendLE B n t = (if pa = [] then None else Some (last pa))"
proof -
  let ?key = "upper_key (ivs t)"
  have s: "sorted_wrt (\<lambda>y z. ?key y < ?key z) (pa @ pc)"
    using upper_sorted [OF assms(2)] .
  have "ascendGE B n t = List.find (\<lambda>y. ?key n \<le> ?key y) (pa @ pc)"
    using assms(1,3) s by (simp add: btree_ok_def ascendGE_def)
  also have "\<dots> = List.find (\<lambda>y. ?key n \<le> ?key y) pc"
    using assms(4) find_None [of pa "\<lambda>y. ?key n \<le> ?key y"] by (simp add: find_append not_le)
  finally show "ascendGE B n t = (case pc of [] \<Rightarrow> None | p # _ \<Rightarrow> Some p)"
    using assms(5) by (cases pc) simp_all
  show "descendLE B n t = (if pa = [] then None else Some (last pa))" if "\<forall>p\<in>set pc. ?key p \<noteq> ?key n"
  proof -
    have "descendLE B n t = List.find (\<lambda>y. ?key y \<le> ?key n) (rev pc @ rev pa)"
      using assms(1,3) s by (simp add: btree_ok_def descendLE_def)
    also have "\<dots> = List.find (\<lambda>y. ?key y \<le> ?key n) (rev pa)"
      using assms(5) that find_None [of "rev pc" "\<lambda>y. ?key y \<le> ?key n"] by (fastforce simp: find_append)
    also have "\<dots> = (if pa = [] then None else Some (last pa))"
      using assms(4) by (cases pa rule: rev_cases) (auto simp: order_less_imp_le)
    finally show ?thesis .
  qed
qed

lemma insert_spec:
  assumes "btree_ok B" "iv_wf (map (\<lambda>p. bounds (ivs t ! p)) (pa @ pc))" "bt_Ascend B (knownHeights t) = pa @ pc"
    "\<forall>p\<in>set pa. upper_key (ivs t) p < upper_key (ivs t) n" "\<forall>p\<in>set pc. upper_key (ivs t) n < upper_key (ivs t) p"
  shows "bt_Ascend B (knownHeights (insertItem B n t)) = pa @ n # pc" "ivs (insertItem B n t) = ivs t"
proof -
  have "filter (\<lambda>y. upper_key (ivs t) y < upper_key (ivs t) n) (pa @ pc) = pa"
    "filter (\<lambda>y. upper_key (ivs t) n < upper_key (ivs t) y) (pa @ pc) = pc"
    using assms(4,5) by (auto simp: filter_empty_conv filter_id_conv dest: less_not_sym)
  then show "bt_Ascend B (knownHeights (insertItem B n t)) = pa @ n # pc"
    using assms(1,3) upper_sorted [OF assms(2)] by (simp add: btree_ok_def insertItem_def)
qed (simp add: insertItem_def)

lemma delete_spec:
  assumes "btree_ok B" "bt_Ascend B (knownHeights t) = pa @ p # pc"
    "sorted_wrt (\<lambda>y z. upper_key (ivs t) y < upper_key (ivs t) z) (pa @ p # pc)"
  shows "bt_Ascend B (knownHeights (deleteItem B p t)) = pa @ pc" "ivs (deleteItem B p t) = ivs t"
proof -
  have "filter (\<lambda>y. upper_key (ivs t) y \<noteq> upper_key (ivs t) p) (pa @ p # pc) = pa @ pc"
  proof -
    have "\<forall>y\<in>set pa. upper_key (ivs t) y \<noteq> upper_key (ivs t) p" "\<forall>y\<in>set pc. upper_key (ivs t) y \<noteq> upper_key (ivs t) p"
      using assms(3) by (auto simp: sorted_wrt_append)
    then show ?thesis
      by (simp add: filter_id_conv)
  qed
  then show "bt_Ascend B (knownHeights (deleteItem B p t)) = pa @ pc"
    using assms by (simp add: btree_ok_def deleteItem_def)
qed (simp add: deleteItem_def)

lemma setBounds_map:
  assumes "distinct (pa @ p # pc)" "p < length (ivs t)"
  shows "map (\<lambda>q. bounds (ivs (setBounds p l u t) ! q)) (pa @ p # pc) =
    map (\<lambda>q. bounds (ivs t ! q)) pa @ (unat l, unat u) # map (\<lambda>q. bounds (ivs t ! q)) pc"
proof -
  have "q \<in> set pa \<union> set pc \<Longrightarrow> ivs (setBounds p l u t) ! q = ivs t ! q" for q
    using assms(1) by (cases "q = p") (auto simp: setBounds_def)
  moreover have "bounds (ivs (setBounds p l u t) ! p) = (unat l, unat u)"
    using assms(2) by (simp add: setBounds_def bounds_def)
  ultimately show ?thesis
    by simp
qed

lemma setBounds_simps [simp]:
  "knownHeights (setBounds p l u t) = knownHeights t" "length (ivs (setBounds p l u t)) = length (ivs t)"
  "numKnownHeights (setBounds p l u t) = numKnownHeights t"
  by (simp_all add: setBounds_def)

lemma item_simps [simp]:
  "numKnownHeights (insertItem B p t) = numKnownHeights t" "numKnownHeights (deleteItem B p t) = numKnownHeights t"
  by (simp_all add: insertItem_def deleteItem_def)

lemma iv_repI:
  assumes "bt_Ascend B (knownHeights t) = ps" "map (\<lambda>p. bounds (ivs t ! p)) ps = L" "iv_wf L"
    "\<forall>p\<in>set ps. p < length (ivs t)" "distinct ps"
  shows "iv_rep B t L"
  using assms by (simp add: iv_rep_def)

lemma unat_Suc: "unat (h :: 64 word) + 1 < 2 ^ 64 \<Longrightarrow> unat (h + 1) = unat h + 1"
  using unat_add_lem [of h 1] by simp

lemma unat_pred: "0 < unat (h :: 64 word) \<Longrightarrow> unat (h - 1) = unat h - 1"
  by (subst unat_sub) (auto simp: word_le_nat_alt)

lemma adjacent_lower: "AdjacentToLowerBound (Some i) h \<longleftrightarrow> unat (LowerBound i) = unat h + 1"
proof (cases "h < MaxUint")
  case True
  then have "unat h + 1 < 2 ^ 64"
    using unat_MaxUint [where 'a = 64] by (simp add: word_less_nat_alt)
  from unat_Suc [OF this] show ?thesis
    using True by (auto simp: AdjacentToLowerBound_def word_unat_eq_iff)
next
  case False
  then have "unat h = 2 ^ 64 - 1"
    using unat_MaxUint [where 'a = 64] unat_lt_pow [of h] by (simp add: word_less_nat_alt)
  then show ?thesis
    using False unat_lt_pow [of "LowerBound i"] by (simp add: AdjacentToLowerBound_def)
qed

lemma adjacent_upper: "AdjacentToUpperBound (Some i) h \<longleftrightarrow> unat (UpperBound i) + 1 = unat h"
proof (cases "UpperBound i < MaxUint")
  case True
  then have "unat (UpperBound i) + 1 < 2 ^ 64"
    using unat_MaxUint [where 'a = 64] by (simp add: word_less_nat_alt)
  from unat_Suc [OF this] show ?thesis
    using True by (auto simp: AdjacentToUpperBound_def word_unat_eq_iff)
next
  case False
  then have "unat (UpperBound i) = 2 ^ 64 - 1"
    using unat_MaxUint [where 'a = 64] unat_lt_pow [of "UpperBound i"] by (simp add: word_less_nat_alt)
  then show ?thesis
    using False unat_lt_pow [of h] by (simp add: AdjacentToUpperBound_def)
qed

subsection \<open>The database represents the same intervals\<close>

definition ikey :: "nat \<Rightarrow> bytes" where
  "ikey h = makeIntervalKey (of_nat h)"

definition db_rep :: "(bytes \<rightharpoonup> bytes) \<Rightarrow> (nat \<times> nat) set \<Rightarrow> bool" where
  "db_rep m S \<longleftrightarrow> (\<forall>i\<in>S. snd i < 2 ^ 64) \<and>
     (\<forall>k v. hasPrefix k [0] \<longrightarrow> (m k = Some v \<longleftrightarrow> (\<exists>i\<in>S. k = ikey (snd i) \<and> v = PackUInt64 (of_nat (fst i)))))"

lemma ikey_inj: "h < 2 ^ 64 \<Longrightarrow> h' < 2 ^ 64 \<Longrightarrow> ikey h = ikey h' \<longleftrightarrow> h = h'"
  by (auto simp: ikey_def makeIntervalKey_def word_unat_eq_iff unsigned_of_nat take_bit_nat_eq_self)

lemma prefix_ikey [simp]: "hasPrefix (ikey h) [0]" "hasPrefix (makeIntervalKey w) [0]" "\<not> hasPrefix (makeBlockKey w) [0]"
  by (simp_all add: hasPrefix_def ikey_def makeIntervalKey_def makeBlockKey_def)

lemma ikey_unat: "makeIntervalKey w = ikey (unat w)"
  by (simp add: ikey_def)

lemma db_rep_key:
  assumes "db_rep m S" "i \<in> S"
  shows "ikey (snd i) = makeIntervalKey u \<longleftrightarrow> snd i = unat u"
  using assms ikey_inj [of "snd i" "unat u"] unat_lt_pow [of u] by (simp add: ikey_unat db_rep_def)

lemma db_rep_get:
  "db_rep m S \<Longrightarrow> hasPrefix k [0] \<Longrightarrow> m k = Some v \<longleftrightarrow> (\<exists>i\<in>S. k = ikey (snd i) \<and> v = PackUInt64 (of_nat (fst i)))"
  by (simp add: db_rep_def)

lemma ex_other_key:
  assumes "\<And>i. i \<in> S \<Longrightarrow> f i = u \<longleftrightarrow> g i = w"
  shows "(\<exists>i\<in>{i \<in> S. g i \<noteq> w}. k = f i \<and> Q i) \<longleftrightarrow> k \<noteq> u \<and> (\<exists>i\<in>S. k = f i \<and> Q i)"
  using assms by auto

lemma db_rep_delete:
  assumes "db_rep m S"
  shows "db_rep (m(makeIntervalKey u := None)) {i \<in> S. snd i \<noteq> unat u}"
  unfolding db_rep_def
proof (intro conjI allI impI)
  show "\<forall>i\<in>{i \<in> S. snd i \<noteq> unat u}. snd i < 2 ^ 64"
    using assms by (simp add: db_rep_def)
next
  fix k v
  assume "hasPrefix k [0]"
  note get = db_rep_get [OF assms this, of v]
  have "(\<exists>i\<in>{i \<in> S. snd i \<noteq> unat u}. k = ikey (snd i) \<and> v = PackUInt64 (of_nat (fst i))) \<longleftrightarrow>
      k \<noteq> makeIntervalKey u \<and> (\<exists>i\<in>S. k = ikey (snd i) \<and> v = PackUInt64 (of_nat (fst i)))"
    by (rule ex_other_key) (rule db_rep_key [OF assms])
  with get show "(m(makeIntervalKey u := None)) k = Some v \<longleftrightarrow>
      (\<exists>i\<in>{i \<in> S. snd i \<noteq> unat u}. k = ikey (snd i) \<and> v = PackUInt64 (of_nat (fst i)))"
    by (cases "k = makeIntervalKey u") (simp_all only: fun_upd_same fun_upd_other, simp_all)
qed

lemma db_rep_put:
  assumes "db_rep m S"
  shows "db_rep (m(makeIntervalKey u \<mapsto> PackUInt64 l)) (insert (unat l, unat u) {i \<in> S. snd i \<noteq> unat u})"
  unfolding db_rep_def
proof (intro conjI allI impI)
  show "\<forall>i\<in>insert (unat l, unat u) {i \<in> S. snd i \<noteq> unat u}. snd i < 2 ^ 64"
    using assms unat_lt_pow [of u] by (simp add: db_rep_def)
next
  fix k v
  assume "hasPrefix k [0]"
  note get = db_rep_get [OF assms this, of v]
  have "(\<exists>i\<in>insert (unat l, unat u) {i \<in> S. snd i \<noteq> unat u}. k = ikey (snd i) \<and> v = PackUInt64 (of_nat (fst i))) \<longleftrightarrow>
      k = makeIntervalKey u \<and> v = PackUInt64 l \<or>
      (\<exists>i\<in>{i \<in> S. snd i \<noteq> unat u}. k = ikey (snd i) \<and> v = PackUInt64 (of_nat (fst i)))"
    by (simp add: ikey_unat [symmetric])
  moreover have "(\<exists>i\<in>{i \<in> S. snd i \<noteq> unat u}. k = ikey (snd i) \<and> v = PackUInt64 (of_nat (fst i))) \<longleftrightarrow>
      k \<noteq> makeIntervalKey u \<and> (\<exists>i\<in>S. k = ikey (snd i) \<and> v = PackUInt64 (of_nat (fst i)))"
    by (rule ex_other_key) (rule db_rep_key [OF assms])
  ultimately show "(m(makeIntervalKey u \<mapsto> PackUInt64 l)) k = Some v \<longleftrightarrow>
      (\<exists>i\<in>insert (unat l, unat u) {i \<in> S. snd i \<noteq> unat u}. k = ikey (snd i) \<and> v = PackUInt64 (of_nat (fst i)))"
    using get by (cases "k = makeIntervalKey u") (simp_all only: fun_upd_same fun_upd_other, auto)
qed

lemma without_upper:
  assumes "iv_wf (A @ (l, h) # C)"
  shows "{i \<in> set (A @ (l, h) # C). snd i \<noteq> h} = set (A @ C)" "iv_wf (A @ C)"
proof -
  have "\<forall>i\<in>set A. snd i \<noteq> h" "\<forall>i\<in>set C. snd i \<noteq> h"
    using iv_wf_upper [OF assms] by (auto simp: sorted_wrt_append)
  then show "{i \<in> set (A @ (l, h) # C). snd i \<noteq> h} = set (A @ C)"
    by auto
  show "iv_wf (A @ C)"
    using assms by (fastforce simp: iv_wf_append iv_wf_Cons)
qed

context kv_database
begin

lemma PutInterval_law:
  assumes "ok db" "view db = Some m"
  obtains db' where "PutInterval K u l db = (db', None)" "ok db'" "view db' = Some (m(makeIntervalKey u \<mapsto> PackUInt64 l))"
proof -
  obtain db' e where "kv_Put K (makeIntervalKey u) (PackUInt64 l) db = (db', e)"
    by (rule prod.exhaust)
  then show thesis
    using Put_law [OF assms(1)] assms(2) that by (auto simp: PutInterval_def PutUInt64_def written_def)
qed

lemma DeleteInterval_law:
  assumes "ok db" "view db = Some m"
  obtains db' where "DeleteInterval K u db = (db', None)" "ok db'" "view db' = Some (m(makeIntervalKey u := None))"
proof -
  obtain db' e where "kv_Delete K (makeIntervalKey u) db = (db', e)"
    by (rule prod.exhaust)
  then show thesis
    using Delete_law [OF assms(1)] assms(2) that by (auto simp: DeleteInterval_def written_def)
qed

end

text \<open>The outcome of an operation: what it returns and what tree and database hold after it.\<close>

definition iv_outcome :: "'b btree \<Rightarrow> ('s \<Rightarrow> (bytes \<rightharpoonup> bytes) option) \<Rightarrow> ('s \<Rightarrow> bool) \<Rightarrow> (bytes \<rightharpoonup> bytes) \<Rightarrow> (nat \<times> nat) list \<Rightarrow>
    64 word \<Rightarrow> ('b iv_tree \<times> 's) \<times> db_error option \<Rightarrow> bool" where
  "iv_outcome B view ok m L' num r \<longleftrightarrow> (\<exists>t' db' m'. r = ((t', db'), None) \<and> iv_rep B t' L' \<and> numKnownHeights t' = num \<and>
     ok db' \<and> view db' = Some m' \<and> db_rep m' (set L') \<and> (\<forall>k. \<not> hasPrefix k [0] \<longrightarrow> m' k = m k))"

lemma iv_outcomeI:
  assumes "iv_rep B t' L'" "numKnownHeights t' = num" "ok db'" "view db' = Some m'" "db_rep m' (set L')"
    "\<And>k. \<not> hasPrefix k [0] \<Longrightarrow> m' k = m k"
  shows "iv_outcome B view ok m L' num ((t', db'), None)"
  using assms by (auto simp: iv_outcome_def)

text \<open>The tree right after the new interval is allocated, split at its height.\<close>

definition at_height :: "'b btree \<Rightarrow> 'b iv_tree \<Rightarrow> (nat \<times> nat) list \<Rightarrow> 64 word \<Rightarrow> nat list \<Rightarrow> nat list \<Rightarrow> 'b iv_tree \<Rightarrow> nat \<Rightarrow> bool" where
  "at_height B t L height pa pc t1 n \<longleftrightarrow> btree_ok B \<and> iv_wf L \<and> L = map (\<lambda>p. bounds (ivs t1 ! p)) (pa @ pc) \<and>
     bt_Ascend B (knownHeights t1) = pa @ pc \<and> distinct (pa @ n # pc) \<and> (\<forall>p\<in>set (pa @ n # pc). p < length (ivs t1)) \<and>
     ivs t1 ! n = \<lparr>LowerBound = height, UpperBound = height\<rparr> \<and> numKnownHeights t1 = numKnownHeights t \<and>
     (\<forall>p\<in>set pa. upper_key (ivs t1) p < height) \<and> (\<forall>p\<in>set pc. height \<le> upper_key (ivs t1) p)"

lemma at_height_exists:
  assumes "btree_ok B" "iv_rep B t L" "alloc \<lparr>LowerBound = height, UpperBound = height\<rparr> t = (n, t1)"
  obtains pa pc where "at_height B t L height pa pc t1 n"
proof -
  obtain pa pc where items: "bt_Ascend B (knownHeights t) = pa @ pc" and L: "L = map (\<lambda>p. bounds (ivs t ! p)) (pa @ pc)"
    and pa: "\<forall>p\<in>set pa. unat (upper_key (ivs t) p) < unat height"
    and pc: "\<forall>p\<in>set pc. unat height \<le> unat (upper_key (ivs t) p)"
    and len: "\<forall>p\<in>set (pa @ pc). p < length (ivs t)" and dist: "distinct (pa @ pc)"
    by (rule rep_split [OF assms(2), of "unat height"])
  have new: "n = length (ivs t)" "ivs t1 = ivs t @ [\<lparr>LowerBound = height, UpperBound = height\<rparr>]"
    "knownHeights t1 = knownHeights t" "numKnownHeights t1 = numKnownHeights t"
    using assms(3) by (auto simp: alloc_def)
  have same: "\<forall>p\<in>set (pa @ pc). ivs t1 ! p = ivs t ! p"
    using len by (simp add: new nth_append)
  have "n \<notin> set (pa @ pc)"
    using len new(1) by auto
  moreover have "\<forall>p\<in>set (pa @ pc). p < length (ivs t1)"
    using len by (auto simp: new(2) less_Suc_eq)
  moreover have "L = map (\<lambda>p. bounds (ivs t1 ! p)) (pa @ pc)"
    unfolding L using same by simp
  moreover have "iv_wf L"
    using assms(2) by (simp add: iv_rep_def)
  ultimately have "at_height B t L height pa pc t1 n"
    unfolding at_height_def using assms(1) items new dist pa pc same by (simp add: word_less_nat_alt word_le_nat_alt)
  then show thesis
    by (rule that)
qed

lemma at_height_rep: "at_height B t L height pa pc t1 n \<Longrightarrow> iv_rep B t1 L"
  by (auto simp: at_height_def iv_rep_def)

lemma at_height_search:
  assumes "at_height B t L height pa pc t1 n"
  shows "ascendGE B n t1 = (case pc of [] \<Rightarrow> None | p # _ \<Rightarrow> Some p)"
    "iv_Contains (deref t1 (ascendGE B n t1)) height \<longleftrightarrow> unat height \<in> hts L"
proof -
  let ?f = "\<lambda>p. bounds (ivs t1 ! p)"
  have L: "L = map ?f pa @ map ?f pc" "iv_wf (map ?f pa @ map ?f pc)"
    and keys: "\<forall>p\<in>set pa. upper_key (ivs t1) p < upper_key (ivs t1) n" "\<forall>p\<in>set pc. upper_key (ivs t1) n \<le> upper_key (ivs t1) p"
    and new: "ivs t1 ! n = \<lparr>LowerBound = height, UpperBound = height\<rparr>"
    using assms by (auto simp: at_height_def)
  show asc: "ascendGE B n t1 = (case pc of [] \<Rightarrow> None | p # _ \<Rightarrow> Some p)"
    using search_spec(1) [OF _ _ _ keys] L assms by (simp add: at_height_def)
  have "unat height \<in> hts L \<longleftrightarrow> (case map ?f pc of [] \<Rightarrow> False | i # _ \<Rightarrow> fst i \<le> unat height)"
    unfolding L(1) using keys by (intro hts_member [OF L(2)]) (simp_all add: new word_less_nat_alt word_le_nat_alt)
  then show "iv_Contains (deref t1 (ascendGE B n t1)) height \<longleftrightarrow> unat height \<in> hts L"
    using keys(2) asc by (cases pc) (auto simp: iv_Contains_def deref_def new word_le_nat_alt)
qed

lemma at_height_missing:
  assumes "at_height B t L height pa pc t1 n" "unat height \<notin> hts L"
  shows "\<forall>p\<in>set pc. height < LowerBound (ivs t1 ! p)" "\<forall>p\<in>set pc. height < upper_key (ivs t1) p"
    "descendLE B n t1 = (if pa = [] then None else Some (last pa))"
proof -
  let ?f = "\<lambda>p. bounds (ivs t1 ! p)"
  have L: "L = map ?f pa @ map ?f pc" "iv_wf L"
    and keys: "\<forall>p\<in>set pa. upper_key (ivs t1) p < upper_key (ivs t1) n" "\<forall>p\<in>set pc. upper_key (ivs t1) n \<le> upper_key (ivs t1) p"
    and new: "ivs t1 ! n = \<lparr>LowerBound = height, UpperBound = height\<rparr>"
    using assms(1) by (auto simp: at_height_def)
  have ge: "\<forall>p\<in>set pc. height \<le> upper_key (ivs t1) p"
    using keys(2) new by simp
  show lower: "\<forall>p\<in>set pc. height < LowerBound (ivs t1 ! p)"
  proof (rule ballI, rule ccontr)
    fix p
    assume "p \<in> set pc" "\<not> height < LowerBound (ivs t1 ! p)"
    then have "unat height \<in> {fst (?f p)..snd (?f p)}" "?f p \<in> set L"
      using ge by (auto simp: L(1) word_less_nat_alt word_le_nat_alt)
    then show False
      using assms(2) by (auto simp: hts_def)
  qed
  moreover have "LowerBound (ivs t1 ! p) \<le> upper_key (ivs t1) p" if "p \<in> set pc" for p
  proof -
    have "?f p \<in> set L"
      using that by (simp add: L(1))
    then show ?thesis
      using L(2) by (auto simp: iv_wf_def word_le_nat_alt)
  qed
  ultimately show upper: "\<forall>p\<in>set pc. height < upper_key (ivs t1) p"
    by (meson order_less_le_trans)
  have "\<forall>p\<in>set pc. upper_key (ivs t1) p \<noteq> upper_key (ivs t1) n"
    using upper by (auto simp: new)
  then show "descendLE B n t1 = (if pa = [] then None else Some (last pa))"
    using search_spec(2) [OF _ _ _ keys] L assms(1) by (simp add: at_height_def)
qed

text \<open>The tree after an interval is changed in place, joined with its neighbour, or added.\<close>

lemma change_rep:
  assumes "bt_Ascend B (knownHeights t) = pa @ p # pc" "distinct (pa @ p # pc)" "\<forall>q\<in>set (pa @ p # pc). q < length (ivs t)"
    "iv_wf (map (\<lambda>q. bounds (ivs t ! q)) pa @ (unat l, unat u) # map (\<lambda>q. bounds (ivs t ! q)) pc)"
  shows "iv_rep B (setBounds p l u t) (map (\<lambda>q. bounds (ivs t ! q)) pa @ (unat l, unat u) # map (\<lambda>q. bounds (ivs t ! q)) pc)"
proof (rule iv_repI [OF _ setBounds_map [OF assms(2)] assms(4)])
  show "bt_Ascend B (knownHeights (setBounds p l u t)) = pa @ p # pc"
    using assms(1) by simp
qed (use assms in auto)

lemma insert_rep:
  assumes "btree_ok B" "bt_Ascend B (knownHeights t) = pa @ pc" "distinct (pa @ n # pc)" "\<forall>q\<in>set (pa @ n # pc). q < length (ivs t)"
    "iv_wf (map (\<lambda>q. bounds (ivs t ! q)) (pa @ pc))"
    "iv_wf (map (\<lambda>q. bounds (ivs t ! q)) (pa @ n # pc))"
  shows "iv_rep B (insertItem B n t) (map (\<lambda>q. bounds (ivs t ! q)) (pa @ n # pc))"
proof -
  have "\<forall>p\<in>set pa. upper_key (ivs t) p < upper_key (ivs t) n" "\<forall>p\<in>set pc. upper_key (ivs t) n < upper_key (ivs t) p"
    using upper_sorted [OF assms(6)] by (auto simp: sorted_wrt_append)
  from insert_spec [OF assms(1,5,2) this] show ?thesis
    using assms(3,4,6) by (simp add: iv_rep_def)
qed

lemma delete_rep:
  assumes "btree_ok B" "bt_Ascend B (knownHeights t) = pa @ p # pc" "distinct (pa @ p # pc)" "\<forall>q\<in>set (pa @ p # pc). q < length (ivs t)"
    "sorted_wrt (\<lambda>y z. upper_key (ivs t) y < upper_key (ivs t) z) (pa @ p # pc)"
    "iv_wf (map (\<lambda>q. bounds (ivs t ! q)) (pa @ pc))"
  shows "iv_rep B (deleteItem B p t) (map (\<lambda>q. bounds (ivs t ! q)) (pa @ pc))"
  using delete_spec [OF assms(1,2,5)] assms(3,4,6) by (simp add: iv_rep_def)

lemma join_rep:
  assumes "btree_ok B" "bt_Ascend B (knownHeights t) = pa @ l # u # pc" "distinct (pa @ l # u # pc)"
    "\<forall>q\<in>set (pa @ l # u # pc). q < length (ivs t)" "iv_wf (map (\<lambda>q. bounds (ivs t ! q)) (pa @ l # u # pc))"
    and L: "L = LowerBound (ivs t ! l)" and U: "U = upper_key (ivs t) u"
    and wf: "iv_wf (map (\<lambda>q. bounds (ivs t ! q)) pa @ (unat L, unat U) # map (\<lambda>q. bounds (ivs t ! q)) pc)"
  shows "iv_rep B (deleteItem B l (setBounds u L U t)) (map (\<lambda>q. bounds (ivs t ! q)) pa @ (unat L, unat U) # map (\<lambda>q. bounds (ivs t ! q)) pc)"
proof -
  let ?t = "setBounds u L U t"
  have key: "upper_key (ivs ?t) q = upper_key (ivs t) q" if "q \<in> set (pa @ l # u # pc)" for q
    using bspec [OF assms(4) that] by (cases "q = u") (simp_all add: setBounds_def U)
  have sorted: "sorted_wrt (\<lambda>y z. upper_key (ivs ?t) y < upper_key (ivs ?t) z) (pa @ l # u # pc)"
    using upper_sorted [OF assms(5)] by (rule sorted_wrt_mono_rel [rotated]) (simp only: key)
  have map: "map (\<lambda>q. bounds (ivs ?t ! q)) (pa @ u # pc) = map (\<lambda>q. bounds (ivs t ! q)) pa @ (unat L, unat U) # map (\<lambda>q. bounds (ivs t ! q)) pc"
    using assms(3,4) by (intro setBounds_map) auto
  have "iv_rep B (deleteItem B l ?t) (map (\<lambda>q. bounds (ivs ?t ! q)) (pa @ u # pc))"
  proof (rule delete_rep [OF assms(1) _ assms(3) _ sorted])
    show "iv_wf (map (\<lambda>q. bounds (ivs ?t ! q)) (pa @ u # pc))"
      unfolding map by (rule wf)
  qed (use assms(2,4) in simp_all)
  then show ?thesis
    unfolding map .
qed

text \<open>The intervals stored after a write.\<close>

lemma replace_upper:
  assumes "iv_wf (A @ (l, h) # C)"
  shows "insert (l', h) {i \<in> set (A @ (l, h) # C). snd i \<noteq> h} = set (A @ (l', h) # C)"
  unfolding without_upper(1) [OF assms] by auto

lemma fresh_upper:
  assumes "iv_wf (A @ (l, h) # C)"
  shows "insert (l, h) {i \<in> set (A @ C). snd i \<noteq> h} = set (A @ (l, h) # C)"
proof -
  have "\<forall>i\<in>set (A @ C). snd i \<noteq> h"
    using iv_wf_upper [OF assms] by (auto simp: sorted_wrt_append)
  then show ?thesis
    by auto
qed

text \<open>The four sequences of writes.\<close>

context kv_database
begin

lemma put_outcome:
  assumes db: "ok db" "view db = Some m" "db_rep m S" and rep: "iv_rep B t L'"
    and S: "insert (unat l, unat u) {i \<in> S. snd i \<noteq> unat u} = set L'"
  shows "iv_outcome B view ok m L' (numKnownHeights t) (case PutInterval K u l db of (db, err) \<Rightarrow> ((t, db), err))"
proof -
  obtain db' where put: "PutInterval K u l db = (db', None)" "ok db'" "view db' = Some (m(makeIntervalKey u \<mapsto> PackUInt64 l))"
    by (rule PutInterval_law [OF db(1,2)])
  have "iv_outcome B view ok m L' (numKnownHeights t) ((t, db'), None)"
    using db_rep_put [OF db(3), of u l] by (intro iv_outcomeI [where ok = ok and view = view, OF rep refl put(2,3)]) (auto simp: S)
  then show ?thesis
    by (simp add: put(1))
qed

lemma delete_outcome:
  assumes db: "ok db" "view db = Some m" "db_rep m S" and rep: "iv_rep B t L'"
    and S: "{i \<in> S. snd i \<noteq> unat u} = set L'"
  shows "iv_outcome B view ok m L' (numKnownHeights t) (case DeleteInterval K u db of (db, err) \<Rightarrow> ((t, db), err))"
proof -
  obtain db' where del: "DeleteInterval K u db = (db', None)" "ok db'" "view db' = Some (m(makeIntervalKey u := None))"
    by (rule DeleteInterval_law [OF db(1,2)])
  have "iv_outcome B view ok m L' (numKnownHeights t) ((t, db'), None)"
    using db_rep_delete [OF db(3), of u] by (intro iv_outcomeI [where ok = ok and view = view, OF rep refl del(2,3)]) (auto simp: S)
  then show ?thesis
    by (simp add: del(1))
qed

lemma iv_outcome_cong:
  assumes "iv_outcome B view ok m' L' num r" "\<And>k. \<not> hasPrefix k [0] \<Longrightarrow> m' k = m k"
  shows "iv_outcome B view ok m L' num r"
  using assms by (auto simp: iv_outcome_def)

lemma delete_put_outcome:
  assumes db: "ok db" "view db = Some m" "db_rep m S" and rep: "iv_rep B t L'"
    and S: "insert (unat l, unat u') {i \<in> {i \<in> S. snd i \<noteq> unat u}. snd i \<noteq> unat u'} = set L'"
  shows "iv_outcome B view ok m L' (numKnownHeights t)
     (case DeleteInterval K u db of (db, Some err) \<Rightarrow> ((t0, db), Some err)
      | (db, None) \<Rightarrow> (case PutInterval K u' l db of (db, err) \<Rightarrow> ((t, db), err)))"
proof -
  obtain db' where del: "DeleteInterval K u db = (db', None)" "ok db'" "view db' = Some (m(makeIntervalKey u := None))"
    by (rule DeleteInterval_law [OF db(1,2)])
  show ?thesis
    using put_outcome [OF del(2,3) db_rep_delete [OF db(3)] rep S]
    unfolding del(1) prod.case option.case by (rule iv_outcome_cong) auto
qed

lemma put_put_outcome:
  assumes db: "ok db" "view db = Some m" "db_rep m S" and rep: "iv_rep B t L'"
    and S: "insert (unat l', unat u') {i \<in> insert (unat l, unat u) {i \<in> S. snd i \<noteq> unat u}. snd i \<noteq> unat u'} = set L'"
  shows "iv_outcome B view ok m L' (numKnownHeights t)
     (case PutInterval K u l db of (db, Some err) \<Rightarrow> ((t0, db), Some err)
      | (db, None) \<Rightarrow> (case PutInterval K u' l' db of (db, err) \<Rightarrow> ((t, db), err)))"
proof -
  obtain db' where put: "PutInterval K u l db = (db', None)" "ok db'" "view db' = Some (m(makeIntervalKey u \<mapsto> PackUInt64 l))"
    by (rule PutInterval_law [OF db(1,2)])
  show ?thesis
    using put_outcome [OF put(2,3) db_rep_put [OF db(3)] rep S]
    unfolding put(1) prod.case option.case by (rule iv_outcome_cong) auto
qed

end

lemma adjacent_None [simp]: "\<not> AdjacentToLowerBound None h" "\<not> AdjacentToUpperBound None h"
  by (simp_all add: AdjacentToLowerBound_def AdjacentToUpperBound_def)

lemma deref_num [simp]: "deref (t\<lparr>numKnownHeights := k\<rparr>) p = deref t p"
  by (simp add: deref_def)

lemma at_height_parts:
  assumes "at_height B t L height pa pc t1 n"
  shows "btree_ok B" "iv_wf (map (\<lambda>p. bounds (ivs t1 ! p)) pa @ map (\<lambda>p. bounds (ivs t1 ! p)) pc)"
    "L = map (\<lambda>p. bounds (ivs t1 ! p)) pa @ map (\<lambda>p. bounds (ivs t1 ! p)) pc" "bt_Ascend B (knownHeights t1) = pa @ pc"
    "distinct (pa @ n # pc)" "\<forall>p\<in>set (pa @ n # pc). p < length (ivs t1)"
    "bounds (ivs t1 ! n) = (unat height, unat height)" "numKnownHeights t1 = numKnownHeights t"
  using assms by (auto simp: at_height_def bounds_def)

lemma at_height_add:
  assumes "at_height B t L height pa pc t1 n" "unat height \<notin> hts L"
  defines "A \<equiv> map (\<lambda>p. bounds (ivs t1 ! p)) pa" and "C \<equiv> map (\<lambda>p. bounds (ivs t1 ! p)) pc"
  shows "iv_wf (add_iv (unat height) A C)" "hts (add_iv (unat height) A C) = insert (unat height) (hts L)"
proof -
  note p = at_height_parts [OF assms(1)]
  have "\<forall>i\<in>set A. snd i < unat height" "\<forall>i\<in>set C. unat height < fst i"
    using assms(1) at_height_missing(1) [OF assms(1,2)]
    by (simp_all add: A_def C_def at_height_def word_less_nat_alt)
  from add_iv_ok [OF _ this] show "iv_wf (add_iv (unat height) A C)" "hts (add_iv (unat height) A C) = insert (unat height) (hts L)"
    using p(2) unfolding p(3) A_def C_def by simp_all
qed

context kv_database
begin

lemma Add_missing:
  assumes at: "at_height B t L height pa pc t1 n" "unat height \<notin> hts L" and db: "ok db" "view db = Some m" "db_rep m (set L)"
    and al: "alloc \<lparr>LowerBound = height, UpperBound = height\<rparr> t = (n, t1)"
  shows "iv_outcome B view ok m (add_iv (unat height) (map (\<lambda>p. bounds (ivs t1 ! p)) pa) (map (\<lambda>p. bounds (ivs t1 ! p)) pc))
    (numKnownHeights t + 1) (iv_Add B K height (t, db))"
proof -
  define t2 where "t2 = t1\<lparr>numKnownHeights := numKnownHeights t1 + 1\<rparr>"
  let ?f = "\<lambda>p. bounds (ivs t2 ! p)"
  let ?add = "add_iv (unat height) (map ?f pa) (map ?f pc)"
  note search = at_height_search [OF at(1)] and missing = at_height_missing [OF at]
  have t2: "ivs t2 = ivs t1" "numKnownHeights t2 = numKnownHeights t + 1" "knownHeights t2 = knownHeights t1"
    using at_height_parts(8) [OF at(1)] by (simp_all add: t2_def)
  note p = at_height_parts [OF at(1), folded t2]
  note wf = at_height_add(1) [OF at, folded t2(1)]
  note eval = iv_Add_def al search(1) missing(3) t2_def Let_def deref_def adjacent_lower adjacent_upper
  have nc: "\<not> iv_Contains (map_option ((!) (ivs t1)) (case pc of [] \<Rightarrow> None | p # _ \<Rightarrow> Some p)) height"
    using at(2) search by (simp add: deref_def)
  consider (both) pa' l u pc' where "pa = pa' @ [l]" "pc = u # pc'" "unat (LowerBound (ivs t1 ! u)) = unat height + 1"
      "unat (upper_key (ivs t1) l) + 1 = unat height"
    | (above) u pc' where "pc = u # pc'" "unat (LowerBound (ivs t1 ! u)) = unat height + 1"
      "\<not> (pa \<noteq> [] \<and> unat (upper_key (ivs t1) (last pa)) + 1 = unat height)"
    | (below) pa' l where "pa = pa' @ [l]" "unat (upper_key (ivs t1) l) + 1 = unat height"
      "\<not> (pc \<noteq> [] \<and> unat (LowerBound (ivs t1 ! hd pc)) = unat height + 1)"
    | (alone) "\<not> (pa \<noteq> [] \<and> unat (upper_key (ivs t1) (last pa)) + 1 = unat height)"
      "\<not> (pc \<noteq> [] \<and> unat (LowerBound (ivs t1 ! hd pc)) = unat height + 1)"
    by (cases pa rule: rev_cases; cases pc) force+
  then have "iv_outcome B view ok m ?add (numKnownHeights t + 1) (iv_Add B K height (t, db))"
  proof cases
    case both
    have run: "iv_Add B K height (t, db) =
        (case DeleteInterval K (UpperBound (ivs t2 ! l)) db of (db, Some err) \<Rightarrow> ((t2, db), Some err)
         | (db, None) \<Rightarrow> (case PutInterval K (UpperBound (ivs t2 ! u)) (LowerBound (ivs t2 ! l)) db of (db, err) \<Rightarrow>
             ((deleteItem B l (setBounds u (LowerBound (ivs t2 ! l)) (UpperBound (ivs t2 ! u)) t2), db), err)))"
      using nc both by (simp add: eval split: prod.split option.split)
    let ?L = "LowerBound (ivs t2 ! l)" and ?U = "UpperBound (ivs t2 ! u)"
    have add: "?add = map ?f pa' @ (unat ?L, unat ?U) # map ?f pc'"
      using both by (simp add: add_iv_def t2(1))
    have L: "L = map ?f pa' @ (unat ?L, unat (upper_key (ivs t2) l)) # map ?f (u # pc')" "iv_wf L"
      "L = map ?f (pa' @ l # u # pc')"
      using p(2,3) both by (simp_all add: bounds_def)
    have rep: "iv_rep B (deleteItem B l (setBounds u ?L ?U t2)) ?add"
      unfolding add using p both L(2) wf [unfolded add] by (intro join_rep) (simp_all add: L(3))
    have S: "insert (unat ?L, unat ?U) {i \<in> {i \<in> set L. snd i \<noteq> unat (upper_key (ivs t2) l)}. snd i \<noteq> unat ?U} = set ?add"
    proof -
      have "{i \<in> set L. snd i \<noteq> unat (upper_key (ivs t2) l)} = set (map ?f pa' @ map ?f (u # pc'))"
        using without_upper(1) L(1,2) by blast
      moreover have "iv_wf (map ?f pa' @ (unat (LowerBound (ivs t2 ! u)), unat ?U) # map ?f pc')"
        using without_upper(2) [of "map ?f pa'"] L(1,2) by (simp add: bounds_def)
      note replace_upper [OF this, of "unat ?L"]
      ultimately show ?thesis
        unfolding add by (simp add: bounds_def)
    qed
    show ?thesis
      unfolding run using delete_put_outcome [OF db rep S] t2(2) by simp
  next
    case above
    have run: "iv_Add B K height (t, db) = (case PutInterval K (UpperBound (ivs t2 ! u)) height db of (db, err) \<Rightarrow>
        ((setBounds u height (UpperBound (ivs t2 ! u)) t2, db), err))"
      using nc above by (cases "pa = []") (simp_all add: eval split: prod.split option.split)
    let ?U = "UpperBound (ivs t2 ! u)"
    have add: "?add = map ?f pa @ (unat height, unat ?U) # map ?f pc'"
      using above by (auto simp: add_iv_def Let_def t2(1) last_map)
    have L: "L = map ?f pa @ (unat (LowerBound (ivs t2 ! u)), unat ?U) # map ?f pc'" "iv_wf L"
      using p(2,3) above by (simp_all add: bounds_def)
    have rep: "iv_rep B (setBounds u height ?U t2) ?add"
      unfolding add using p above wf [unfolded add] by (intro change_rep) simp_all
    have S: "insert (unat height, unat ?U) {i \<in> set L. snd i \<noteq> unat ?U} = set ?add"
      unfolding add L(1) by (rule replace_upper [OF L(2) [unfolded L(1)]])
    show ?thesis
      unfolding run using put_outcome [OF db rep S] t2(2) by simp
  next
    case below
    have run: "iv_Add B K height (t, db) =
        (case DeleteInterval K (UpperBound (ivs t2 ! l)) db of (db, Some err) \<Rightarrow> ((t2, db), Some err)
         | (db, None) \<Rightarrow> (case PutInterval K height (LowerBound (ivs t2 ! l)) db of (db, err) \<Rightarrow>
             ((setBounds l (LowerBound (ivs t2 ! l)) height t2, db), err)))"
      using nc below by (cases pc) (simp_all add: eval split: prod.split option.split)
    let ?L = "LowerBound (ivs t2 ! l)"
    have add: "?add = map ?f pa' @ (unat ?L, unat height) # map ?f pc"
      using below by (auto simp: add_iv_def Let_def t2(1) hd_map)
    have L: "L = map ?f pa' @ (unat ?L, unat (upper_key (ivs t2) l)) # map ?f pc" "iv_wf L"
      using p(2,3) below by (simp_all add: bounds_def)
    have rep: "iv_rep B (setBounds l ?L height t2) ?add"
      unfolding add using p below wf [unfolded add] by (intro change_rep) simp_all
    have S: "insert (unat ?L, unat height) {i \<in> {i \<in> set L. snd i \<noteq> unat (upper_key (ivs t2) l)}. snd i \<noteq> unat height} = set ?add"
      unfolding add L(1) without_upper(1) [OF L(2) [unfolded L(1)]] by (rule fresh_upper [OF wf [unfolded add]])
    show ?thesis
      unfolding run using delete_put_outcome [OF db rep S] t2(2) by simp
  next
    case alone
    have run: "iv_Add B K height (t, db) = (case PutInterval K height height db of (db, err) \<Rightarrow> ((insertItem B n t2, db), err))"
      using nc alone by (cases "pa = []"; cases pc) (simp_all add: eval split: prod.split option.split)
    have add: "?add = map ?f (pa @ n # pc)"
      using alone p(7) by (auto simp: add_iv_def Let_def t2(1) hd_map last_map)
    have rep: "iv_rep B (insertItem B n t2) ?add"
      unfolding add using p wf [unfolded add] by (intro insert_rep) simp_all
    have S: "insert (unat height, unat height) {i \<in> set L. snd i \<noteq> unat height} = set ?add"
    proof -
      have add': "?add = map ?f pa @ (unat height, unat height) # map ?f pc"
        using add p(7) by simp
      show ?thesis
        unfolding add' p(3) by (rule fresh_upper [OF wf [unfolded add']])
    qed
    show ?thesis
      unfolding run using put_outcome [OF db rep S] t2(2) by simp
  qed
  then show ?thesis
    unfolding t2(1) .
qed

end

lemma split_upper:
  assumes "iv_wf (A @ (l, k) # (l', u) # C)"
  shows "insert (l', u) {i \<in> insert (l, k) {i \<in> set (A @ (l, u) # C). snd i \<noteq> k}. snd i \<noteq> u} = set (A @ (l, k) # (l', u) # C)"
proof -
  have "\<forall>i\<in>set (A @ C). snd i \<noteq> k \<and> snd i \<noteq> u" "k \<noteq> u"
    using iv_wf_upper [OF assms] by (auto simp: sorted_wrt_append)
  then show ?thesis
    by auto
qed

text \<open>The tree after an interval is split in two.\<close>

lemma split_rep:
  assumes B: "btree_ok B" and items: "bt_Ascend B (knownHeights t) = pa @ h # pc" and dist: "distinct (pa @ n # h # pc)"
    and len: "\<forall>q\<in>set (pa @ n # h # pc). q < length (ivs t)" and old: "iv_wf (map (\<lambda>q. bounds (ivs t ! q)) (pa @ h # pc))"
    and new: "iv_wf (map (\<lambda>q. bounds (ivs t ! q)) pa @ (unat l1, unat u1) # (unat l2, unat U) # map (\<lambda>q. bounds (ivs t ! q)) pc)"
    and U: "U = upper_key (ivs t) h"
  shows "iv_rep B (setBounds h l2 U (insertItem B n (setBounds n l1 u1 t)))
     (map (\<lambda>q. bounds (ivs t ! q)) pa @ (unat l1, unat u1) # (unat l2, unat U) # map (\<lambda>q. bounds (ivs t ! q)) pc)"
proof -
  define t3 where "t3 = setBounds n l1 u1 t"
  have other: "ivs t3 ! q = ivs t ! q" if "q \<in> set (pa @ h # pc)" for q
    using dist that by (cases "q = n") (auto simp: t3_def setBounds_def)
  have n: "ivs t3 ! n = \<lparr>LowerBound = l1, UpperBound = u1\<rparr>"
    using len by (simp add: t3_def setBounds_def)
  have maps: "map (\<lambda>q. bounds (ivs t3 ! q)) pa = map (\<lambda>q. bounds (ivs t ! q)) pa" "map (\<lambda>q. bounds (ivs t3 ! q)) pc = map (\<lambda>q. bounds (ivs t ! q)) pc"
    by (rule map_cong; simp add: other)+
  have wf: "iv_wf (map (\<lambda>q. bounds (ivs t3 ! q)) (pa @ h # pc))"
    using old by (simp only: map_append list.map maps other [of h, simplified])
  have s: "sorted_wrt (\<lambda>i j. snd i < snd j) (map (\<lambda>q. bounds (ivs t ! q)) pa @ (unat l1, unat u1) # (unat l2, unat U) # map (\<lambda>q. bounds (ivs t ! q)) pc)"
    by (rule iv_wf_upper [OF new])
  then have keys: "\<forall>p\<in>set pa. upper_key (ivs t3) p < upper_key (ivs t3) n" "\<forall>p\<in>set (h # pc). upper_key (ivs t3) n < upper_key (ivs t3) p"
    by (auto simp: n other sorted_wrt_append word_less_nat_alt U)
  have ins: "bt_Ascend B (knownHeights (insertItem B n t3)) = pa @ n # h # pc" "ivs (insertItem B n t3) = ivs t3"
    using insert_spec [OF B wf _ keys] items by (simp_all add: t3_def)
  have maps': "map (\<lambda>q. bounds (ivs t3 ! q)) (pa @ [n]) @ (unat l2, unat U) # map (\<lambda>q. bounds (ivs t3 ! q)) pc =
      map (\<lambda>q. bounds (ivs t ! q)) pa @ (unat l1, unat u1) # (unat l2, unat U) # map (\<lambda>q. bounds (ivs t ! q)) pc"
    unfolding map_append maps by (simp add: n bounds_def)
  have "iv_rep B (setBounds h l2 U (insertItem B n t3))
      (map (\<lambda>q. bounds (ivs (insertItem B n t3) ! q)) (pa @ [n]) @ (unat l2, unat U) # map (\<lambda>q. bounds (ivs (insertItem B n t3) ! q)) pc)"
  proof (rule change_rep)
    show "bt_Ascend B (knownHeights (insertItem B n t3)) = (pa @ [n]) @ h # pc"
      by (simp add: ins(1))
    show "\<forall>q\<in>set ((pa @ [n]) @ h # pc). q < length (ivs (insertItem B n t3))"
      using len by (simp add: ins(2)) (simp add: t3_def)
  qed (use dist new in \<open>simp_all only: ins(2) maps'\<close>, simp)
  then show ?thesis
    unfolding ins(2) maps' unfolding t3_def .
qed

context kv_database
begin

lemma Remove_found:
  assumes at: "at_height B t L height pa (h # pc) t1 n" and al: "alloc \<lparr>LowerBound = height, UpperBound = height\<rparr> t = (n, t1)"
    and le: "LowerBound (ivs t1 ! h) \<le> height" "height \<le> upper_key (ivs t1) h" and db: "ok db" "view db = Some m" "db_rep m (set L)"
  shows "iv_outcome B view ok m (remove_iv (unat height) (map (\<lambda>p. bounds (ivs t1 ! p)) pa) (map (\<lambda>p. bounds (ivs t1 ! p)) (h # pc)))
    (numKnownHeights t - 1) (iv_Remove B K height (t, db))"
proof -
  define t2 where "t2 = t1\<lparr>numKnownHeights := numKnownHeights t1 - 1\<rparr>"
  let ?f = "\<lambda>p. bounds (ivs t2 ! p)" and ?L = "LowerBound (ivs t2 ! h)" and ?U = "UpperBound (ivs t2 ! h)"
  let ?rm = "remove_iv (unat height) (map ?f pa) (map ?f (h # pc))"
  have t2: "ivs t2 = ivs t1" "numKnownHeights t2 = numKnownHeights t - 1" "knownHeights t2 = knownHeights t1"
    using at_height_parts(8) [OF at] by (simp_all add: t2_def)
  note p = at_height_parts [OF at, folded t2]
  have bl: "unat ?L \<le> unat height" "unat height \<le> unat ?U"
    using le by (simp_all add: t2 word_le_nat_alt)
  have L: "L = map ?f pa @ (unat ?L, unat ?U) # map ?f pc" "iv_wf (map ?f pa @ (unat ?L, unat ?U) # map ?f pc)"
    using p(2,3) by (simp_all add: bounds_def)
  have wf: "iv_wf (remove_iv (unat height) (map ?f pa) ((unat ?L, unat ?U) # map ?f pc))"
    using remove_iv_ok [OF L(2) bl] by simp
  have wf': "iv_wf ?rm"
    using wf by (simp add: bounds_def)
  have found: "iv_Contains (Some (ivs t1 ! h)) height"
    using le by (simp add: iv_Contains_def)
  note eval = iv_Remove_def al at_height_search(1) [OF at] t2_def Let_def deref_def found
  have "iv_outcome B view ok m ?rm (numKnownHeights t - 1) (iv_Remove B K height (t, db))"
  proof (cases "?L = ?U")
    case True
    have run: "iv_Remove B K height (t, db) = (case DeleteInterval K ?U db of (db, err) \<Rightarrow> ((deleteItem B h t2, db), err))"
      using True by (simp add: eval split: prod.split option.split)
    have rm: "?rm = map ?f (pa @ pc)"
      using True by (simp add: bounds_def)
    have rep: "iv_rep B (deleteItem B h t2) ?rm"
      unfolding rm using p upper_sorted [of "ivs t2" "pa @ h # pc"] without_upper(2) [OF L(2)]
      by (intro delete_rep) simp_all
    have S: "{i \<in> set L. snd i \<noteq> unat ?U} = set ?rm"
      unfolding rm L(1) without_upper(1) [OF L(2)] by simp
    show ?thesis
      unfolding run using delete_outcome [OF db rep S] t2(2) by simp
  next
    case False
    then have lt: "unat ?L < unat ?U"
      using bl by (auto simp: word_unat_eq_iff)
    consider (first) "?L = height" | (last) "?L \<noteq> height" "?U = height" | (inner) "?L \<noteq> height" "?U \<noteq> height"
      by blast
    then show ?thesis
    proof cases
      case first
      have run: "iv_Remove B K height (t, db) = (case PutInterval K ?U (?L + 1) db of (db, err) \<Rightarrow> ((setBounds h (?L + 1) ?U t2, db), err))"
        using False first by (simp add: eval split: prod.split option.split)
      have "unat (?L + 1) = unat ?L + 1"
        using lt unat_lt_pow [of ?U] by (intro unat_Suc) simp
      then have rm: "?rm = map ?f pa @ (unat (?L + 1), unat ?U) # map ?f pc"
        using lt first by (simp add: bounds_def)
      have rep: "iv_rep B (setBounds h (?L + 1) ?U t2) ?rm"
        unfolding rm using p wf' [unfolded rm] by (intro change_rep) simp_all
      have S: "insert (unat (?L + 1), unat ?U) {i \<in> set L. snd i \<noteq> unat ?U} = set ?rm"
        unfolding rm L(1) by (rule replace_upper [OF L(2)])
      show ?thesis
        unfolding run using put_outcome [OF db rep S] t2(2) by simp
    next
      case last
      have run: "iv_Remove B K height (t, db) = (case DeleteInterval K ?U db of (db, Some err) \<Rightarrow> ((t2, db), Some err)
         | (db, None) \<Rightarrow> (case PutInterval K (?U - 1) ?L db of (db, err) \<Rightarrow> ((setBounds h ?L (?U - 1) t2, db), err)))"
        using False last by (simp add: eval split: prod.split option.split)
      have "unat (?U - 1) = unat ?U - 1"
        using lt by (intro unat_pred) simp
      then have rm: "?rm = map ?f pa @ (unat ?L, unat (?U - 1)) # map ?f pc"
        using lt last by (simp add: bounds_def)
      have rep: "iv_rep B (setBounds h ?L (?U - 1) t2) ?rm"
        unfolding rm using p wf' [unfolded rm] by (intro change_rep) simp_all
      have S: "insert (unat ?L, unat (?U - 1)) {i \<in> {i \<in> set L. snd i \<noteq> unat ?U}. snd i \<noteq> unat (?U - 1)} = set ?rm"
        unfolding rm L(1) without_upper(1) [OF L(2)] by (rule fresh_upper [OF wf' [unfolded rm]])
      show ?thesis
        unfolding run using delete_put_outcome [OF db rep S] t2(2) by simp
    next
      case inner
      let ?t = "insertItem B n (setBounds n ?L (height - 1) t2)"
      have run: "iv_Remove B K height (t, db) = (case PutInterval K (height - 1) ?L db of (db, Some err) \<Rightarrow> ((?t, db), Some err)
         | (db, None) \<Rightarrow> (case PutInterval K ?U (height + 1) db of (db, err) \<Rightarrow> ((setBounds h (height + 1) ?U ?t, db), err)))"
        using False inner by (simp add: eval split: prod.split option.split)
      have lt': "unat ?L < unat height" "unat height < unat ?U"
        using inner bl by (auto simp: word_unat_eq_iff)
      have "unat (height - 1) = unat height - 1" "unat (height + 1) = unat height + 1"
        using lt' unat_lt_pow [of ?U] unat_pred [of height] unat_Suc [of height] by auto
      then have rm: "?rm = map ?f pa @ (unat ?L, unat (height - 1)) # (unat (height + 1), unat ?U) # map ?f pc"
        using lt lt' by (simp add: bounds_def)
      have rep: "iv_rep B (setBounds h (height + 1) ?U ?t) ?rm"
        unfolding rm using p wf' [unfolded rm] by (intro split_rep) simp_all
      have S: "insert (unat (height + 1), unat ?U)
          {i \<in> insert (unat ?L, unat (height - 1)) {i \<in> set L. snd i \<noteq> unat (height - 1)}. snd i \<noteq> unat ?U} = set ?rm"
        unfolding rm L(1) by (rule split_upper [OF wf' [unfolded rm]])
      show ?thesis
        unfolding run using put_put_outcome [OF db rep S] t2(2) by simp
    qed
  qed
  then show ?thesis
    unfolding t2(1) .
qed

end

subsection \<open>The set of heights\<close>

text \<open>Tree and database hold the set \<open>S\<close> of heights; \<open>F\<close> is the rest of the database.\<close>

definition holds_heights :: "'b btree \<Rightarrow> ('s \<Rightarrow> (bytes \<rightharpoonup> bytes) option) \<Rightarrow> ('s \<Rightarrow> bool) \<Rightarrow> (bytes \<rightharpoonup> bytes) \<Rightarrow> nat set \<Rightarrow> 'b iv_tree \<times> 's \<Rightarrow> bool" where
  "holds_heights B view ok F S = (\<lambda>(t, db). \<exists>L m. iv_rep B t L \<and> hts L = S \<and> numKnownHeights t = of_nat (card S) \<and>
     ok db \<and> view db = Some m \<and> db_rep m (set L) \<and> (\<forall>k. \<not> hasPrefix k [0] \<longrightarrow> m k = F k))"

lemma outcome_holds:
  assumes "iv_outcome B view ok m L' num r" "hts L' = S" "num = of_nat (card S)" "\<forall>k. \<not> hasPrefix k [0] \<longrightarrow> m k = F k"
  shows "\<exists>td. r = (td, None) \<and> holds_heights B view ok F S td"
  using assms by (auto simp: iv_outcome_def holds_heights_def)

lemma tree_Contains_iff:
  assumes "btree_ok B" "iv_rep B t L"
  shows "tree_Contains B height t \<longleftrightarrow> unat height \<in> hts L"
proof -
  obtain n t1 where al: "alloc \<lparr>LowerBound = height, UpperBound = height\<rparr> t = (n, t1)"
    by (rule prod.exhaust)
  obtain pa pc where "at_height B t L height pa pc t1 n"
    using at_height_exists [OF assms al] by blast
  from at_height_search(2) [OF this] show ?thesis
    by (simp add: tree_Contains_def al)
qed

lemma holds_Contains:
  "btree_ok B \<Longrightarrow> holds_heights B view ok F S (t, db) \<Longrightarrow> tree_Contains B height t \<longleftrightarrow> unat height \<in> S"
  using tree_Contains_iff by (auto simp: holds_heights_def)

lemma allocated_holds:
  assumes "at_height B t L height pa pc t1 n" "holds_heights B view ok F S (t, db)"
    "iv_rep B t L"
  shows "holds_heights B view ok F S (t1, db)"
proof -
  have "iv_rep B t L' \<Longrightarrow> L' = L" for L'
    using assms(3) by (simp add: iv_rep_def)
  then show ?thesis
    using assms(2) at_height_rep [OF assms(1)] at_height_parts(8) [OF assms(1)] by (auto simp: holds_heights_def)
qed

context kv_database
begin

lemma Add_law:
  assumes B: "btree_ok B" and st: "holds_heights B view ok F S (t, db)"
  shows "\<exists>td. iv_Add B K height (t, db) = (td, None) \<and> holds_heights B view ok F (insert (unat height) S) td"
proof -
  obtain L m where L: "iv_rep B t L" "hts L = S" "numKnownHeights t = of_nat (card S)"
    and db: "ok db" "view db = Some m" "db_rep m (set L)" and F: "\<forall>k. \<not> hasPrefix k [0] \<longrightarrow> m k = F k"
    using st by (auto simp: holds_heights_def)
  obtain n t1 where al: "alloc \<lparr>LowerBound = height, UpperBound = height\<rparr> t = (n, t1)"
    by (rule prod.exhaust)
  obtain pa pc where at: "at_height B t L height pa pc t1 n"
    using at_height_exists [OF B L(1) al] by blast
  show ?thesis
  proof (cases "unat height \<in> S")
    case True
    then have "iv_Add B K height (t, db) = ((t1, db), None)"
      using at_height_search(2) [OF at] L(2) by (simp add: iv_Add_def al)
    then show ?thesis
      using allocated_holds [OF at st L(1)] True by (simp add: insert_absorb)
  next
    case False
    then have "numKnownHeights t + 1 = of_nat (card (insert (unat height) S))"
      using L(2,3) finite_hts [of L] by simp
    then show ?thesis
      using outcome_holds [OF Add_missing [OF at _ db al] at_height_add(2) [OF at]] False L(2) F by simp
  qed
qed

lemma Remove_law:
  assumes B: "btree_ok B" and st: "holds_heights B view ok F S (t, db)"
  shows "\<exists>td. iv_Remove B K height (t, db) = (td, None) \<and> holds_heights B view ok F (S - {unat height}) td"
proof -
  obtain L m where L: "iv_rep B t L" "hts L = S" "numKnownHeights t = of_nat (card S)"
    and db: "ok db" "view db = Some m" "db_rep m (set L)" and F: "\<forall>k. \<not> hasPrefix k [0] \<longrightarrow> m k = F k"
    using st by (auto simp: holds_heights_def)
  obtain n t1 where al: "alloc \<lparr>LowerBound = height, UpperBound = height\<rparr> t = (n, t1)"
    by (rule prod.exhaust)
  obtain pa pc where at: "at_height B t L height pa pc t1 n"
    using at_height_exists [OF B L(1) al] by blast
  show ?thesis
  proof (cases "unat height \<in> S")
    case False
    then have "iv_Remove B K height (t, db) = ((t1, db), None)"
      using at_height_search(2) [OF at] L(2) by (simp add: iv_Remove_def al)
    then show ?thesis
      using allocated_holds [OF at st L(1)] False by simp
  next
    case True
    then have c: "iv_Contains (deref t1 (ascendGE B n t1)) height"
      using at_height_search(2) [OF at] L(2) by simp
    then obtain h pc' where pc: "pc = h # pc'"
      unfolding at_height_search(1) [OF at] by (cases pc) (simp_all add: deref_def iv_Contains_def)
    have le: "LowerBound (ivs t1 ! h) \<le> height" "height \<le> upper_key (ivs t1) h"
      using c unfolding at_height_search(1) [OF at] pc by (simp_all add: deref_def iv_Contains_def)
    let ?f = "\<lambda>p. bounds (ivs t1 ! p)"
    have "hts (remove_iv (unat height) (map ?f pa) (map ?f (h # pc'))) = S - {unat height}"
      using remove_iv_ok [of "map ?f pa" "unat (LowerBound (ivs t1 ! h))" "unat (upper_key (ivs t1) h)" "map ?f pc'" "unat height"]
        at_height_parts(2,3) [OF at] le L(2) by (simp add: pc bounds_def word_le_nat_alt)
    moreover have "numKnownHeights t - 1 = of_nat (card (S - {unat height}))"
      using L(2,3) card_Suc_Diff1 [OF _ True, symmetric] finite_hts [of L] by simp
    ultimately show ?thesis
      using outcome_holds [OF Remove_found [OF at [unfolded pc] al le db]] F by simp
  qed
qed

end

text \<open>The tree read back from the database.\<close>

lemma insert_last:
  assumes "btree_ok B" "iv_rep B t L" "iv_wf (L @ [bounds i])" "alloc i t = (p, t1)"
  shows "iv_rep B (insertItem B p t1) (L @ [bounds i])"
proof -
  let ?ps = "bt_Ascend B (knownHeights t)"
  have t1: "p = length (ivs t)" "knownHeights t1 = knownHeights t" "ivs t1 = ivs t @ [i]"
    using assms(4) by (auto simp: alloc_def)
  have len: "\<forall>q\<in>set ?ps. q < length (ivs t)" and dist: "distinct ?ps" and L: "map (\<lambda>q. bounds (ivs t ! q)) ?ps = L"
    using assms(2) by (simp_all add: iv_rep_def)
  have map: "map (\<lambda>q. bounds (ivs t1 ! q)) ?ps = L"
    unfolding L [symmetric] by (rule map_cong) (use len in \<open>simp_all add: t1 nth_append\<close>)
  have "iv_rep B (insertItem B p t1) (map (\<lambda>q. bounds (ivs t1 ! q)) (?ps @ p # []))"
  proof (rule insert_rep [OF assms(1)])
    show "iv_wf (map (\<lambda>q. bounds (ivs t1 ! q)) (?ps @ []))" "iv_wf (map (\<lambda>q. bounds (ivs t1 ! q)) (?ps @ p # []))"
      using assms(2,3) map by (simp_all add: iv_rep_def) (simp add: t1)
    show "distinct (?ps @ p # [])" "\<forall>q\<in>set (?ps @ p # []). q < length (ivs t1)" "bt_Ascend B (knownHeights t1) = ?ps @ []"
      using len dist by (auto simp: t1 less_Suc_eq)
  qed
  then show ?thesis
    unfolding map_append map by (simp add: t1)
qed

lemma of_nat_width:
  assumes "l \<le> (u :: 64 word)"
  shows "of_nat (unat u - unat l + 1) = u - l + 1"
  using assms by (simp add: word_le_nat_alt of_nat_diff add.commute)

lemma card_hts_snoc:
  assumes "iv_wf (L @ [(l, h)])"
  shows "card (hts (L @ [(l, h)])) = card (hts L) + (h - l + 1)"
proof -
  have "hts L \<inter> {l..h} = {}" "l \<le> h"
    using assms by (auto simp: iv_wf_append iv_wf_Cons hts_def)
  then show ?thesis
    by (simp add: card_Un_disjoint)
qed

lemma addIntervals_rep:
  assumes "btree_ok B" "iv_rep B t L" "iv_wf (L @ map bounds is)" "numKnownHeights t = of_nat (card (hts L))"
  shows "iv_rep B (addIntervals B is t) (L @ map bounds is) \<and>
    numKnownHeights (addIntervals B is t) = of_nat (card (hts (L @ map bounds is)))"
  using assms(2-)
proof (induction "is" arbitrary: t L)
  case (Cons i "is")
  obtain p t1 where al: "alloc i t = (p, t1)"
    by (rule prod.exhaust)
  let ?t = "insertItem B p t1\<lparr>numKnownHeights := numKnownHeights (insertItem B p t1) + (UpperBound i - LowerBound i + 1)\<rparr>"
  have wf: "iv_wf (L @ [bounds i])" "iv_wf ((L @ [bounds i]) @ map bounds is)"
    using Cons.prems(2) iv_wf_append [of "L @ [bounds i]" "map bounds is"] by simp_all
  have "iv_rep B ?t (L @ [bounds i])"
    using insert_last [OF assms(1) Cons.prems(1) wf(1) al] by (simp add: iv_rep_def)
  moreover have "numKnownHeights ?t = of_nat (card (hts (L @ [bounds i])))"
  proof -
    have "LowerBound i \<le> UpperBound i"
      using wf(1) by (simp add: bounds_def iv_wf_append iv_wf_Cons word_le_nat_alt)
    moreover have "numKnownHeights t1 = numKnownHeights t"
      using al by (auto simp: alloc_def)
    ultimately show ?thesis
      using card_hts_snoc [OF wf(1) [unfolded bounds_def]] Cons.prems(3) of_nat_width [of "LowerBound i" "UpperBound i"]
      by (simp add: bounds_def)
  qed
  ultimately show ?case
    using Cons.IH [OF _ wf(2)] by (simp add: al Let_def)
qed simp

lemma entries_unique:
  assumes "entries_from m start prefix xs" "entries_from m start prefix ys"
  shows "xs = ys"
proof -
  have "map fst xs = map fst ys"
    using assms by (intro strict_sorted_equal) (auto simp: entries_from_def)
  moreover have "inj_on fst (set xs \<union> set ys)"
    using assms by (auto simp: entries_from_def inj_on_def)
  ultimately show ?thesis
    by (rule map_inj_on)
qed

abbreviation iv_entry :: "nat \<times> nat \<Rightarrow> bytes \<times> bytes" where
  "iv_entry i \<equiv> (ikey (snd i), PackUInt64 (of_nat (fst i)))"

lemma db_entries:
  assumes "db_rep m (set L)" "iv_wf L"
  shows "entries_from m [] [0] (map iv_entry L)"
proof -
  have less: "ikey (snd i) < ikey (snd j)" if "i \<in> set L" "j \<in> set L" "snd i < snd j" for i j
  proof -
    have "snd j < 2 ^ 64"
      using assms(1) that(2) by (simp add: db_rep_def)
    then show ?thesis
      using that(3) by (simp add: ikey_def makeIntervalKey_def word_less_nat_alt unsigned_of_nat take_bit_nat_eq_self)
  qed
  have "sorted_wrt (<) (map fst (map iv_entry L))"
    unfolding sorted_wrt_map using iv_wf_upper [OF assms(2)] by (rule sorted_wrt_mono_rel [rotated]) (simp add: less)
  moreover have "set (map iv_entry L) = {(k, v). hasPrefix k [0] \<and> m k = Some v}"
    using db_rep_get [OF assms(1)] by (auto simp: image_iff) force
  ultimately show ?thesis
    by (auto simp: entries_from_def)
qed

context kv_database
begin

lemma intervals_loop_reads:
  assumes db: "ok db" "view db = Some m"
  shows "it_ok it \<Longrightarrow> rest it = map iv_entry (map bounds is) \<Longrightarrow> intervals_loop K db it acc = Some (Inr (acc @ is))"
proof (induction "is" arbitrary: it acc)
  case Nil
  obtain it1 again where nx: "it_Next K db it = (it1, again)"
    by (rule prod.exhaust)
  show ?case
    using Next_law [OF db Nil.prems(1) nx] Nil.prems(2) nx by (subst intervals_loop.simps) simp
next
  case (Cons i "is")
  obtain it1 again where nx: "it_Next K db it = (it1, again)"
    by (rule prod.exhaust)
  have law: "again" "it_ok it1" "rest it1 = map iv_entry (map bounds is)" "it_Key K it1 = ikey (unat (UpperBound i))"
    "it_Value K it1 = PackUInt64 (LowerBound i)"
    using Next_law [OF db Cons.prems(1) nx] Cons.prems(2) by simp_all
  have "ParseUInt64 (drop 1 (it_Key K it1)) = Inr (UpperBound i)" "length (it_Key K it1) \<noteq> 0"
    by (simp_all add: law(4) ikey_def makeIntervalKey_def)
  then show ?case
    using Cons.IH [OF law(2,3)] nx law(1,5) by (subst intervals_loop.simps) (simp add: Let_def)
qed

lemma NewTree_law:
  assumes B: "btree_ok B" and st: "holds_heights B view ok F S (t, db)"
  shows "\<exists>t'. iv_NewTree B K db = Some (Inr t') \<and> holds_heights B view ok F S (t', db) \<and> Flatten B t' = Flatten B t"
proof -
  obtain L m where L: "iv_rep B t L" "hts L = S"
    and db: "ok db" "view db = Some m" "db_rep m (set L)" and F: "\<forall>k. \<not> hasPrefix k [0] \<longrightarrow> m k = F k"
    using st by (auto simp: holds_heights_def)
  have wf: "iv_wf L" and fl: "map bounds (Flatten B t) = L"
    using L(1) by (simp_all add: iv_rep_def Flatten_def o_def)
  let ?it = "kv_NewIteratorWithStartAndPrefix K [] [0] db"
  let ?e = "\<lparr>knownHeights = bt_NewG B, numKnownHeights = 0, ivs = []\<rparr>"
  have "rest ?it = map iv_entry (map bounds (Flatten B t))"
    unfolding fl using entries_unique db_entries [OF db(3) wf] Iterator_law [OF db(1,2) refl] by blast
  then have read: "GetIntervals K db = Some (Inr (Flatten B t))"
    using intervals_loop_reads [OF db(1,2)] Iterator_law [OF db(1,2) refl] by (simp add: GetIntervals_def)
  have "iv_rep B ?e []"
    using B by (simp add: iv_rep_def btree_ok_def)
  from addIntervals_rep [OF B this, of "Flatten B t"]
  have add: "iv_rep B (addIntervals B (Flatten B t) ?e) L" "numKnownHeights (addIntervals B (Flatten B t) ?e) = of_nat (card (hts L))"
    using wf by (simp_all add: fl)
  have "inj bounds"
    by (auto simp: inj_def bounds_def word_unat_eq_iff)
  moreover have "map bounds (Flatten B (addIntervals B (Flatten B t) ?e)) = map bounds (Flatten B t)"
    using add(1) fl by (simp add: iv_rep_def Flatten_def o_def)
  ultimately have "Flatten B (addIntervals B (Flatten B t) ?e) = Flatten B t"
    by (simp add: inj_map_eq_map)
  then show ?thesis
    using add db F L(2) by (auto simp: iv_NewTree_def read holds_heights_def)
qed

end

subsection \<open>Blocks by height\<close>

text \<open>What the two operations promise: a map from heights to blocks.\<close>

datatype blk_op = BAdd "64 word" bytes | BRemove "64 word"

fun blk_spec :: "64 word \<Rightarrow> blk_op \<Rightarrow> (64 word \<rightharpoonup> bytes) \<Rightarrow> (64 word \<rightharpoonup> bytes) \<times> bool" where
  "blk_spec la (BAdd height blk) M =
     (if height \<le> la \<or> M height \<noteq> None then (M, False) else (M(height \<mapsto> blk), height - 1 \<noteq> la \<and> M (height - 1) = None))"
| "blk_spec la (BRemove height) M = (M(height := None), False)"

fun blk_run :: "'b btree \<Rightarrow> ('s, 'i) kv_ops \<Rightarrow> 64 word \<Rightarrow> blk_op \<Rightarrow> 'b iv_tree \<times> 's \<Rightarrow> ('b iv_tree \<times> 's) \<times> (db_error + bool)" where
  "blk_run B K la (BAdd height blk) td = blocks_Add B K la height blk td"
| "blk_run B K la (BRemove height) td = (case blocks_Remove B K height td of (td, Some e) \<Rightarrow> (td, Inl e) | (td, None) \<Rightarrow> (td, Inr False))"

definition holds_blocks :: "'b btree \<Rightarrow> ('s \<Rightarrow> (bytes \<rightharpoonup> bytes) option) \<Rightarrow> ('s \<Rightarrow> bool) \<Rightarrow> (64 word \<rightharpoonup> bytes) \<Rightarrow> 'b iv_tree \<times> 's \<Rightarrow> bool" where
  "holds_blocks B view ok M td \<longleftrightarrow> (\<exists>F. holds_heights B view ok F (unat ` dom M) td \<and> (\<forall>h. F (makeBlockKey h) = M h))"

lemma makeBlockKey_eq [simp]: "makeBlockKey h = makeBlockKey h' \<longleftrightarrow> h = h'"
  by (simp add: makeBlockKey_def)

lemma inj_unat: "inj (unat :: 64 word \<Rightarrow> nat)"
  by (auto simp: inj_def word_unat_eq_iff)

lemma unat_image [simp]: "unat (h :: 64 word) \<in> unat ` D \<longleftrightarrow> h \<in> D"
  by (rule inj_image_mem_iff [OF inj_unat])

lemma unat_diff: "unat ` D - {unat (h :: 64 word)} = unat ` (D - {h})"
  by (simp add: image_set_diff [OF inj_unat])

lemma holds_heights_write:
  assumes "holds_heights B view ok F S (t, db)" "ok db'" "\<not> hasPrefix k [0]"
    "\<And>m. view db = Some m \<Longrightarrow> view db' = Some (m(k := x))"
  shows "holds_heights B view ok (F(k := x)) S (t, db')"
proof -
  obtain L m where L: "iv_rep B t L" "hts L = S" "numKnownHeights t = of_nat (card S)"
    and db: "view db = Some m" "db_rep m (set L)" and F: "\<forall>k. \<not> hasPrefix k [0] \<longrightarrow> m k = F k"
    using assms(1) by (auto simp: holds_heights_def)
  have "db_rep (m(k := x)) (set L)"
    using db(2) assms(3) by (auto simp: db_rep_def)
  then show ?thesis
    unfolding holds_heights_def using L F assms(2) assms(4) [OF db(1)] by auto
qed

context kv_database
begin

lemma holds_view: "holds_heights B view ok F S (t, db) \<Longrightarrow> ok db \<and> (\<exists>m. view db = Some m \<and> (\<forall>k. \<not> hasPrefix k [0] \<longrightarrow> m k = F k))"
  by (auto simp: holds_heights_def)

lemma missing_added:
  assumes B: "btree_ok B" and st: "holds_heights B view ok F S (t, db)"
  shows "\<exists>db1 t2 db2. kv_Put K (makeBlockKey height) blk db = (db1, None) \<and> iv_Add B K height (t, db1) = ((t2, db2), None) \<and>
    holds_heights B view ok (F(makeBlockKey height \<mapsto> blk)) (insert (unat height) S) (t2, db2)"
proof -
  obtain m where m: "ok db" "view db = Some m"
    using holds_view [OF st] by auto
  obtain db1 e where put: "kv_Put K (makeBlockKey height) blk db = (db1, e)"
    by (rule prod.exhaust)
  have law: "ok db1" "view db1 = Some (m(makeBlockKey height \<mapsto> blk))" "e = None"
    using Put_law [OF m(1) put] m(2) by (auto simp: written_def)
  have "holds_heights B view ok (F(makeBlockKey height \<mapsto> blk)) S (t, db1)"
    using law m by (intro holds_heights_write [OF st]) auto
  from Add_law [OF B this] show ?thesis
    using put law(3) by auto
qed

lemma blocks_Add_law:
  assumes B: "btree_ok B" and st: "holds_blocks B view ok M (t, db)"
  shows "\<exists>td. blocks_Add B K la height blk (t, db) = (td, Inr (snd (blk_spec la (BAdd height blk) M))) \<and>
    holds_blocks B view ok (fst (blk_spec la (BAdd height blk) M)) td"
proof -
  obtain F where F: "holds_heights B view ok F (unat ` dom M) (t, db)" "\<forall>h. F (makeBlockKey h) = M h"
    using st by (auto simp: holds_blocks_def)
  have c: "tree_Contains B height t \<longleftrightarrow> M height \<noteq> None"
    using holds_Contains [OF B F(1)] by (simp add: domIff)
  show ?thesis
  proof (cases "height \<le> la \<or> M height \<noteq> None")
    case True
    then show ?thesis
      using st c by (auto simp: blocks_Add_def)
  next
    case False
    from missing_added [OF B F(1)] obtain db1 t2 db2 where
      put: "kv_Put K (makeBlockKey height) blk db = (db1, None)" and add: "iv_Add B K height (t, db1) = ((t2, db2), None)"
      and st2: "holds_heights B view ok (F(makeBlockKey height \<mapsto> blk)) (insert (unat height) (unat ` dom M)) (t2, db2)"
      by blast
    have "0 < unat height"
      using False by (auto simp: word_le_nat_alt not_le)
    then have "height - 1 \<noteq> height"
      by (auto dest: arg_cong [where f = unat] simp: unat_pred)
    then have "tree_Contains B (height - 1) t2 \<longleftrightarrow> M (height - 1) \<noteq> None"
      using holds_Contains [OF B st2] by (simp add: word_unat_eq_iff [symmetric] domIff)
    moreover have "holds_blocks B view ok (M(height \<mapsto> blk)) (t2, db2)"
      unfolding holds_blocks_def using st2 F(2) by (intro exI [of _ "F(makeBlockKey height \<mapsto> blk)"]) simp
    ultimately show ?thesis
      using False c by (simp add: blocks_Add_def PutBlock_def put add Let_def)
  qed
qed

lemma blocks_Remove_law:
  assumes B: "btree_ok B" and st: "holds_blocks B view ok M (t, db)"
  shows "\<exists>td. blocks_Remove B K height (t, db) = (td, None) \<and> holds_blocks B view ok (M(height := None)) td"
proof -
  obtain F where F: "holds_heights B view ok F (unat ` dom M) (t, db)" "\<forall>h. F (makeBlockKey h) = M h"
    using st by (auto simp: holds_blocks_def)
  obtain m where m: "ok db" "view db = Some m"
    using holds_view [OF F(1)] by auto
  obtain db1 e where del: "kv_Delete K (makeBlockKey height) db = (db1, e)"
    by (rule prod.exhaust)
  have law: "ok db1" "view db1 = Some (m(makeBlockKey height := None))" "e = None"
    using Delete_law [OF m(1) del] m(2) by (auto simp: written_def)
  have "holds_heights B view ok (F(makeBlockKey height := None)) (unat ` dom M) (t, db1)"
    using law m by (intro holds_heights_write [OF F(1)]) auto
  from Remove_law [OF B this, of height] obtain td where rm: "iv_Remove B K height (t, db1) = (td, None)"
    "holds_heights B view ok (F(makeBlockKey height := None)) (unat ` dom M - {unat height}) td"
    by blast
  then have "holds_blocks B view ok (M(height := None)) td"
    unfolding holds_blocks_def using F(2) by (intro exI [of _ "F(makeBlockKey height := None)"]) (simp add: unat_diff)
  then show ?thesis
    using rm(1) by (simp add: blocks_Remove_def DeleteBlock_def del law(3))
qed

end

fun blk_runs :: "'b btree \<Rightarrow> ('s, 'i) kv_ops \<Rightarrow> 64 word \<Rightarrow> blk_op list \<Rightarrow> 'b iv_tree \<times> 's \<Rightarrow> ('b iv_tree \<times> 's) \<times> (db_error + bool) list" where
  "blk_runs B K la [] td = (td, [])"
| "blk_runs B K la (op # ops) td =
     (case blk_run B K la op td of (td, r) \<Rightarrow> (case blk_runs B K la ops td of (td, rs) \<Rightarrow> (td, r # rs)))"

fun blk_specs :: "64 word \<Rightarrow> blk_op list \<Rightarrow> (64 word \<rightharpoonup> bytes) \<Rightarrow> (64 word \<rightharpoonup> bytes) \<times> bool list" where
  "blk_specs la [] M = (M, [])"
| "blk_specs la (op # ops) M = (case blk_spec la op M of (M, b) \<Rightarrow> (case blk_specs la ops M of (M, bs) \<Rightarrow> (M, b # bs)))"

context kv_database
begin

lemma blk_runs_law:
  assumes "btree_ok B" "holds_blocks B view ok M td"
  shows "\<exists>td'. blk_runs B K la ops td = (td', map Inr (snd (blk_specs la ops M))) \<and> holds_blocks B view ok (fst (blk_specs la ops M)) td'"
  using assms(2)
proof (induction ops arbitrary: M td)
  case (Cons op ops)
  obtain t db where td: "td = (t, db)"
    by (rule prod.exhaust)
  have "\<exists>td1. blk_run B K la op td = (td1, Inr (snd (blk_spec la op M))) \<and> holds_blocks B view ok (fst (blk_spec la op M)) td1"
  proof (cases op)
    case (BAdd height blk)
    show ?thesis
      using blocks_Add_law [OF assms(1) Cons.prems [unfolded td]] unfolding BAdd td blk_run.simps .
  next
    case (BRemove height)
    then show ?thesis
      using blocks_Remove_law [OF assms(1) Cons.prems [unfolded td], of height] td by auto
  qed
  then obtain td1 where td1: "blk_run B K la op td = (td1, Inr (snd (blk_spec la op M)))" "holds_blocks B view ok (fst (blk_spec la op M)) td1"
    by blast
  from Cons.IH [OF td1(2)] show ?case
    by (auto simp: td1(1) split: prod.split)
qed simp

lemma NewTree_fresh:
  assumes "btree_ok B" "ok db" "view db = Some Map.empty"
  shows "\<exists>t0. iv_NewTree B K db = Some (Inr t0) \<and> holds_blocks B view ok Map.empty (t0, db)"
proof -
  have "holds_heights B view ok Map.empty {} (\<lparr>knownHeights = bt_NewG B, numKnownHeights = 0, ivs = []\<rparr>, db)"
    using assms by (auto simp: holds_heights_def iv_rep_def btree_ok_def db_rep_def intro!: exI [of _ "[]"])
  from NewTree_law [OF assms(1) this] show ?thesis
    by (auto simp: holds_blocks_def intro!: exI [of _ Map.empty])
qed

lemma holds_blocks_reads:
  assumes "btree_ok B" "holds_blocks B view ok M (t, db)"
  shows "tree_Contains B h t \<longleftrightarrow> M h \<noteq> None" "GetBlock K h db = (case M h of None \<Rightarrow> Inl ErrNotFound | Some blk \<Rightarrow> Inr blk)"
    "iv_Len t = of_nat (card (dom M))"
proof -
  obtain F where F: "holds_heights B view ok F (unat ` dom M) (t, db)" "\<forall>h. F (makeBlockKey h) = M h"
    using assms(2) by (auto simp: holds_blocks_def)
  show "tree_Contains B h t \<longleftrightarrow> M h \<noteq> None"
    using holds_Contains [OF assms(1) F(1)] by (simp add: domIff)
  show "GetBlock K h db = (case M h of None \<Rightarrow> Inl ErrNotFound | Some blk \<Rightarrow> Inr blk)"
    using holds_view [OF F(1)] F(2) Get_law [of db] by (auto simp: GetBlock_def split: option.splits)
  have "card (unat ` dom M) = card (dom M)"
    by (rule card_image) (rule inj_on_subset [OF inj_unat], simp)
  then show "iv_Len t = of_nat (card (dom M))"
    using F(1) by (auto simp: holds_heights_def iv_Len_def)
qed

end

text \<open>A B-tree in the sense of \<open>btree_ok\<close>: the list of its items.\<close>

definition list_btree :: "nat list btree" where
  "list_btree = \<lparr>bt_NewG = [],
     bt_ReplaceOrInsert = \<lambda>key x b. filter (\<lambda>y. key y < key x) b @ x # filter (\<lambda>y. key x < key y) b,
     bt_Delete = \<lambda>key x b. filter (\<lambda>y. key y \<noteq> key x) b,
     bt_AscendGreaterOrEqual = \<lambda>key x b. List.find (\<lambda>y. key x \<le> key y) b,
     bt_DescendLessOrEqual = \<lambda>key x b. List.find (\<lambda>y. key y \<le> key x) (rev b),
     bt_Ascend = \<lambda>b. b\<rparr>"

lemma list_btree_ok: "btree_ok list_btree"
  by (simp add: btree_ok_def list_btree_def)

subsection \<open>Properties\<close>

text \<open>
  C6.  Over any database that meets the contract and any B-tree that behaves as documented, the interval tree opened
  on an empty database and any sequence of \<open>Add\<close> and \<open>Remove\<close> calls implement a map from heights to blocks: no call
  fails, \<open>Add\<close> says that the parent is to be fetched exactly when the block is new and its parent is neither accepted
  nor stored, \<open>Contains\<close> and \<open>GetBlock\<close> give the map, and \<open>Len\<close> counts its heights.\<close>

theorem interval_blocks_refine_map:
  assumes "kv_database K view ok rest it_ok" "btree_ok B" "ok db" "view db = Some Map.empty"
  shows "\<exists>t0 t db'. iv_NewTree B K db = Some (Inr t0) \<and>
    blk_runs B K la ops (t0, db) = ((t, db'), map Inr (snd (blk_specs la ops Map.empty))) \<and>
    (\<forall>h. (tree_Contains B h t = (fst (blk_specs la ops Map.empty) h \<noteq> None)) \<and>
       GetBlock K h db' = (case fst (blk_specs la ops Map.empty) h of None \<Rightarrow> Inl ErrNotFound | Some blk \<Rightarrow> Inr blk)) \<and>
    iv_Len t = of_nat (card (dom (fst (blk_specs la ops Map.empty))))"
proof -
  obtain t0 where t0: "iv_NewTree B K db = Some (Inr t0)" "holds_blocks B view ok Map.empty (t0, db)"
    using kv_database.NewTree_fresh [OF assms] by blast
  obtain t db' where run: "blk_runs B K la ops (t0, db) = ((t, db'), map Inr (snd (blk_specs la ops Map.empty)))"
    "holds_blocks B view ok (fst (blk_specs la ops Map.empty)) (t, db')"
    using kv_database.blk_runs_law [OF assms(1,2) t0(2)] by fast
  note reads = kv_database.holds_blocks_reads [OF assms(1,2) run(2)]
  show ?thesis
    using t0(1) run(1) reads by blast
qed

theorem interval_blocks_refine_map_witness:
  "\<exists>t0 t db'. iv_NewTree list_btree mem_ops (Some []) = Some (Inr t0) \<and>
    blk_runs list_btree mem_ops 2 [BAdd 7 [7], BAdd 5 [5], BAdd 6 [6], BRemove 5] (t0, Some []) =
      ((t, db'), [Inr True, Inr True, Inr False, Inr False]) \<and>
    tree_Contains list_btree 6 t \<and> \<not> tree_Contains list_btree 5 t \<and> GetBlock mem_ops 7 db' = Inr [7]"
proof -
  have s: "mem_ok (Some [])" "mem_view (Some []) = Some Map.empty"
    by (simp_all add: mem_ok_def mem_view_def)
  show ?thesis
    using interval_blocks_refine_map [OF memdb.kv_database_axioms list_btree_ok s, of 2 "[BAdd 7 [7], BAdd 5 [5], BAdd 6 [6], BRemove 5]"]
    by auto
qed

text \<open>
  C7.  Opening the tree again on the database that any sequence of calls has left, gives back the same intervals and the
  same count; and these intervals are nonempty, in increasing order and maximal: there is a gap between any two.\<close>

theorem interval_tree_reload:
  assumes "kv_database K view ok rest it_ok" "btree_ok B" "ok db" "view db = Some Map.empty"
    "iv_NewTree B K db = Some (Inr t0)" "fst (blk_runs B K la ops (t0, db)) = (t, db')"
  shows "\<exists>t'. iv_NewTree B K db' = Some (Inr t') \<and> Flatten B t' = Flatten B t \<and> iv_Len t' = iv_Len t \<and>
    (\<forall>i\<in>set (Flatten B t). LowerBound i \<le> UpperBound i) \<and>
    sorted_wrt (\<lambda>i j. unat (UpperBound i) + 1 < unat (LowerBound j)) (Flatten B t)"
proof -
  have "holds_blocks B view ok Map.empty (t0, db)"
    using kv_database.NewTree_fresh [OF assms(1-4)] assms(5) by auto
  from kv_database.blk_runs_law [OF assms(1,2) this, of la ops]
  obtain F S where st: "holds_heights B view ok F S (t, db')"
    using assms(6) by (auto simp: holds_blocks_def)
  obtain t' where t': "iv_NewTree B K db' = Some (Inr t')" "holds_heights B view ok F S (t', db')" "Flatten B t' = Flatten B t"
    using kv_database.NewTree_law [OF assms(1,2) st] by blast
  have "iv_wf (map bounds (Flatten B t))"
    using st by (auto simp: holds_heights_def iv_rep_def Flatten_def o_def)
  then have "\<forall>i\<in>set (Flatten B t). LowerBound i \<le> UpperBound i"
    "sorted_wrt (\<lambda>i j. unat (UpperBound i) + 1 < unat (LowerBound j)) (Flatten B t)"
    by (simp_all add: iv_wf_def sorted_wrt_map word_le_nat_alt)
  moreover have "iv_Len t' = iv_Len t"
    using st t'(2) by (auto simp: holds_heights_def iv_Len_def)
  ultimately show ?thesis
    using t'(1,3) by blast
qed

theorem interval_tree_reload_witness:
  "\<exists>t0 t db' t'. iv_NewTree list_btree mem_ops (Some []) = Some (Inr t0) \<and>
    fst (blk_runs list_btree mem_ops 2 [BAdd 7 [7], BAdd 5 [5], BAdd 6 [6], BRemove 5] (t0, Some [])) = (t, db') \<and>
    iv_NewTree list_btree mem_ops db' = Some (Inr t') \<and> Flatten list_btree t' = Flatten list_btree t \<and> iv_Len t' = iv_Len t"
proof -
  have s: "mem_ok (Some [])" "mem_view (Some []) = Some Map.empty"
    by (simp_all add: mem_ok_def mem_view_def)
  obtain t0 where t0: "iv_NewTree list_btree mem_ops (Some []) = Some (Inr t0)"
    using memdb.NewTree_fresh [OF list_btree_ok s] by blast
  obtain t db' where r: "fst (blk_runs list_btree mem_ops 2 [BAdd 7 [7], BAdd 5 [5], BAdd 6 [6], BRemove 5] (t0, Some [])) = (t, db')"
    by (rule prod.exhaust)
  show ?thesis
    using interval_tree_reload [OF memdb.kv_database_axioms list_btree_ok s t0 r] t0 r by blast
qed

end
