(* ===== verification/Gas.thy ===== *)
theory Gas
  imports SafeMath
begin

text \<open>
  Gas accounting and pricing (\<open>src/vms/components/gas\<close>): fee dimensions, saturating gas arithmetic, the
  gas state of a chain and the price as the EIP-4844 fake exponential of the excess.  \<open>CalculatePrice\<close> computes
  in 256-bit integers of the package \<open>holiman/uint256\<close>, which is a parameter; \<open>uint256_ok\<close> is what
  its documentation says: operations wrap modulo \<open>2\<^sup>2\<^sup>5\<^sup>6\<close>, a quotient by zero is zero.
\<close>

type_synonym Gas = "64 word"
type_synonym Price = "64 word"

definition maxUint64 :: "64 word" where
  "maxUint64 = MaxUint"

subsection \<open>Dimensions\<close>

datatype Dimension = Bandwidth | DBRead | DBWrite | Compute

text \<open>The array \<open>[NumDimensions]uint64\<close> as a list of length \<open>NumDimensions\<close>.\<close>

type_synonym Dimensions = "64 word list"

definition NumDimensions :: nat where
  "NumDimensions = 4"

text \<open>Go's \<open>d[i], err = f(d[i], o[i])\<close> stores the zero value when \<open>f\<close> fails; \<open>Add\<close> and \<open>Sub\<close> return the
  partly updated array with the error.\<close>

fun updateAll :: "(64 word \<Rightarrow> 64 word \<Rightarrow> math_error + 64 word) \<Rightarrow> Dimensions \<Rightarrow> Dimensions \<Rightarrow> Dimensions \<times> math_error option" where
  "updateAll f (x # xs) (y # ys) =
     (case f x y of Inl e \<Rightarrow> (0 # xs, Some e)
      | Inr z \<Rightarrow> (case updateAll f xs ys of (zs, err) \<Rightarrow> (z # zs, err)))"
| "updateAll f xs ys = (xs, None)"

fun dims_Add :: "Dimensions \<Rightarrow> Dimensions list \<Rightarrow> Dimensions \<times> math_error option" where
  "dims_Add d [] = (d, None)"
| "dims_Add d (q # os) =
     (case updateAll SafeMath.Add d q of (d, Some err) \<Rightarrow> (d, Some err) | (d, None) \<Rightarrow> dims_Add d os)"

fun dims_Sub :: "Dimensions \<Rightarrow> Dimensions list \<Rightarrow> Dimensions \<times> math_error option" where
  "dims_Sub d [] = (d, None)"
| "dims_Sub d (q # os) =
     (case updateAll SafeMath.Sub d q of (d, Some err) \<Rightarrow> (d, Some err) | (d, None) \<Rightarrow> dims_Sub d os)"

fun toGas_loop :: "64 word \<Rightarrow> Dimensions \<Rightarrow> Dimensions \<Rightarrow> math_error + Gas" where
  "toGas_loop res (x # xs) (w # ws) =
     (case SafeMath.Mul x w of Inl e \<Rightarrow> Inl e
      | Inr v \<Rightarrow> (case SafeMath.Add res v of Inl e \<Rightarrow> Inl e | Inr res' \<Rightarrow> toGas_loop res' xs ws))"
| "toGas_loop res xs ws = Inr res"

definition ToGas :: "Dimensions \<Rightarrow> Dimensions \<Rightarrow> math_error + Gas" where
  "ToGas d weights = toGas_loop 0 d weights"

subsection \<open>Gas\<close>

record gas_Config =
  Weights :: Dimensions
  MaxCapacity :: Gas
  MaxPerSecond :: Gas
  TargetPerSecond :: Gas
  MinPrice :: Price
  ExcessConversionConstant :: Gas

definition Cost :: "Gas \<Rightarrow> Price \<Rightarrow> math_error + 64 word" where
  "Cost g price = SafeMath.Mul g price"

definition AddPerSecond :: "Gas \<Rightarrow> Gas \<Rightarrow> 64 word \<Rightarrow> Gas" where
  "AddPerSecond g gasPerSecond seconds =
     (case SafeMath.Mul gasPerSecond seconds of Inl e \<Rightarrow> maxUint64
      | Inr newGas \<Rightarrow> (case SafeMath.Add g newGas of Inl e \<Rightarrow> maxUint64 | Inr totalGas \<Rightarrow> totalGas))"

definition SubPerSecond :: "Gas \<Rightarrow> Gas \<Rightarrow> 64 word \<Rightarrow> Gas" where
  "SubPerSecond g gasPerSecond seconds =
     (case SafeMath.Mul gasPerSecond seconds of Inl e \<Rightarrow> 0
      | Inr gasToRemove \<Rightarrow> (case SafeMath.Sub g gasToRemove of Inl e \<Rightarrow> 0 | Inr totalGas \<Rightarrow> totalGas))"

subsection \<open>The price\<close>

record uint256 =
  U_Add :: "256 word \<Rightarrow> 256 word \<Rightarrow> 256 word"
  U_Mul :: "256 word \<Rightarrow> 256 word \<Rightarrow> 256 word"
  U_Div :: "256 word \<Rightarrow> 256 word \<Rightarrow> 256 word"

definition uint256_ok :: "uint256 \<Rightarrow> bool" where
  "uint256_ok U \<longleftrightarrow> (\<forall>x y. U_Add U x y = x + y) \<and> (\<forall>x y. U_Mul U x y = x * y) \<and>
     (\<forall>x y. U_Div U x y = (if y = 0 then 0 else x div y))"

partial_function (option) price_loop ::
    "uint256 \<Rightarrow> 256 word \<Rightarrow> 256 word \<Rightarrow> 256 word \<Rightarrow> 256 word \<Rightarrow> 256 word \<Rightarrow> 256 word \<Rightarrow> Price option" where
  [code]: "price_loop U numerator denominator maxOutput i output numeratorAccum =
     (if numeratorAccum > 0 then
        let output = U_Add U output numeratorAccum in
        if output \<ge> maxOutput then Some maxUint64
        else let numeratorAccum = U_Mul U numeratorAccum numerator;
                 numeratorAccum = U_Div U numeratorAccum denominator;
                 numeratorAccum = U_Div U numeratorAccum i
             in price_loop U numerator denominator maxOutput (U_Add U i 1) output numeratorAccum
      else Some (ucast (U_Div U output denominator)))"

definition CalculatePrice :: "uint256 \<Rightarrow> Price \<Rightarrow> Gas \<Rightarrow> Gas \<Rightarrow> Price option" where
  "CalculatePrice U minPrice excess excessConversionConstant =
     (let numerator = ucast excess;
          denominator = ucast excessConversionConstant;
          numeratorAccum = U_Mul U (ucast minPrice) denominator;
          maxOutput = U_Mul U denominator (ucast maxUint64)
      in price_loop U numerator denominator maxOutput 1 0 numeratorAccum)"

subsection \<open>The gas state\<close>

record gas_State =
  Capacity :: Gas
  Excess :: Gas

datatype gas_error = ErrInsufficientCapacity

definition AdvanceTime :: "Gas \<Rightarrow> Gas \<Rightarrow> Gas \<Rightarrow> 64 word \<Rightarrow> gas_State \<Rightarrow> gas_State" where
  "AdvanceTime maxCapacity maxPerSecond targetPerSecond duration s =
     \<lparr>Capacity = min (AddPerSecond (Capacity s) maxPerSecond duration) maxCapacity,
      Excess = SubPerSecond (Excess s) targetPerSecond duration\<rparr>"

definition ConsumeGas :: "Gas \<Rightarrow> gas_State \<Rightarrow> gas_error + gas_State" where
  "ConsumeGas gas s =
     (case SafeMath.Sub (Capacity s) gas of
        Inl e \<Rightarrow> Inl ErrInsufficientCapacity
      | Inr newCapacity \<Rightarrow>
          (case SafeMath.Add (Excess s) gas of
             Inl e \<Rightarrow> Inr \<lparr>Capacity = newCapacity, Excess = maxUint64\<rparr>
           | Inr newExcess \<Rightarrow> Inr \<lparr>Capacity = newCapacity, Excess = newExcess\<rparr>))"

subsection \<open>Saturating arithmetic\<close>

definition sat64 :: "nat \<Rightarrow> nat" where
  "sat64 n = min n (2 ^ 64 - 1)"

lemma unat_maxUint64: "unat maxUint64 = 2 ^ 64 - 1"
  by (simp add: maxUint64_def unat_MaxUint)

lemma unat64_le: "unat (x :: 64 word) \<le> 2 ^ 64 - 1"
  using unat_lt_pow [of x] by simp

lemma AddPerSecond_sat: "unat (AddPerSecond g r s) = sat64 (unat g + unat r * unat s)"
proof (cases "SafeMath.Mul r s")
  case (Inl e)
  then show ?thesis
    using Mul_InlD [OF Inl] unat_maxUint64 by (simp add: AddPerSecond_def sat64_def)
next
  case (Inr n)
  note n = Mul_InrD [OF Inr]
  show ?thesis
  proof (cases "SafeMath.Add g n")
    case (Inl e)
    then show ?thesis
      using Add_InlD [OF Inl] unat_maxUint64 n Inr by (simp add: AddPerSecond_def sat64_def)
  next
    case (Inr t)
    then show ?thesis
      using Add_InrD [OF Inr] n \<open>SafeMath.Mul r s = Inr n\<close> unat64_le [of t] by (simp add: AddPerSecond_def sat64_def)
  qed
qed

lemma SubPerSecond_sat: "unat (SubPerSecond g r s) = unat g - unat r * unat s"
proof (cases "SafeMath.Mul r s")
  case (Inl e)
  then show ?thesis
    using Mul_InlD [OF Inl] unat64_le [of g] by (simp add: SubPerSecond_def)
next
  case (Inr n)
  note n = Mul_InrD [OF Inr]
  show ?thesis
  proof (cases "SafeMath.Sub g n")
    case (Inl e)
    then show ?thesis
      using Sub_InlD [OF Inl] n Inr by (simp add: SubPerSecond_def)
  next
    case (Inr t)
    then show ?thesis
      using Sub_InrD [OF Inr] n \<open>SafeMath.Mul r s = Inr n\<close> by (simp add: SubPerSecond_def)
  qed
qed

subsection \<open>The fake exponential\<close>

text \<open>The Python program in the comment of \<open>CalculatePrice\<close>, on unbounded integers.\<close>

function fake_loop :: "nat \<Rightarrow> nat \<Rightarrow> nat \<Rightarrow> nat \<Rightarrow> nat \<Rightarrow> nat" where
  "fake_loop numerator denominator i output numerator_accum =
     (if numerator_accum > 0
      then fake_loop numerator denominator (i + 1) (output + numerator_accum)
             ((numerator_accum * numerator) div (denominator * i))
      else output div denominator)"
  by pat_completeness auto
termination
proof (relation "measures [\<lambda>(n, d, i, out, acc). n + 1 - i, \<lambda>(n, d, i, out, acc). acc]", goal_cases)
  case (2 n d i out acc)
  show ?case
  proof (cases "i \<le> n")
    case False
    have "acc * n div (d * i) < acc"
    proof (cases "d * i = 0")
      case False
      then have "i \<le> d * i"
        by simp
      then have "n < d * i"
        using \<open>\<not> i \<le> n\<close> by linarith
      then show ?thesis
        using 2 by (intro less_mult_imp_div_less) simp
    qed (use 2 in auto)
    then show ?thesis
      using False by simp
  qed (use 2 in auto)
qed simp

declare fake_loop.simps [simp del]

lemma fake_loop_0 [simp]: "fake_loop n d i out 0 = out div d"
  by (simp add: fake_loop.simps)

lemma fake_loop_pos:
  "0 < acc \<Longrightarrow> fake_loop n d i out acc = fake_loop n d (Suc i) (out + acc) (acc * n div (d * i))"
  by (subst fake_loop.simps) simp

definition fake_exponential :: "nat \<Rightarrow> nat \<Rightarrow> nat \<Rightarrow> nat" where
  "fake_exponential factor numerator denominator = fake_loop numerator denominator 1 0 (factor * denominator)"

lemma fake_loop_ge: "(out + acc) div d \<le> fake_loop n d i out acc"
proof (induction n d i out acc rule: fake_loop.induct)
  case (1 n d i out acc)
  show ?case
  proof (cases "acc > 0")
    case True
    have "(out + acc) div d \<le> (out + acc + acc * n div (d * i)) div d"
      by (rule div_le_mono) simp
    also have "\<dots> \<le> fake_loop n d (i + 1) (out + acc) (acc * n div (d * i))"
      using 1 [OF True] by simp
    finally show ?thesis
      using True by (simp add: fake_loop_pos)
  qed simp
qed

lemma fake_loop_mono:
  assumes "n \<le> n'" "out \<le> out'" "acc \<le> acc'"
  shows "fake_loop n d i out acc \<le> fake_loop n' d i out' acc'"
  using assms
proof (induction n d i out acc arbitrary: out' acc' rule: fake_loop.induct)
  case (1 n d i out acc)
  show ?case
  proof (cases "acc > 0")
    case True
    have "acc * n div (d * i) \<le> acc' * n' div (d * i)"
      using 1(2,4) by (intro div_le_mono mult_le_mono)
    then have "fake_loop n d (i + 1) (out + acc) (acc * n div (d * i)) \<le>
        fake_loop n' d (i + 1) (out' + acc') (acc' * n' div (d * i))"
      using 1 True by simp
    then show ?thesis
      using True 1(4) by (simp add: fake_loop_pos)
  next
    case False
    have "out div d \<le> (out' + acc') div d"
      using 1(3) by (intro div_le_mono) simp
    then show ?thesis
      using False fake_loop_ge [of out' acc' d n' i] by simp
  qed
qed

lemma fake_exponential_ge: "denominator > 0 \<Longrightarrow> factor \<le> fake_exponential factor numerator denominator"
  using fake_loop_ge [of 0 "factor * denominator" denominator numerator 1] by (simp add: fake_exponential_def)

lemma fake_exponential_0: "denominator > 0 \<Longrightarrow> fake_exponential factor 0 denominator = factor"
  by (cases "factor = 0") (simp_all add: fake_exponential_def fake_loop_pos)

lemma fake_exponential_mono:
  "numerator \<le> numerator' \<Longrightarrow> fake_exponential factor numerator denominator \<le> fake_exponential factor numerator' denominator"
  by (simp add: fake_exponential_def fake_loop_mono)

lemma uint256_unat:
  assumes "uint256_ok U"
  shows "unat x + unat y < 2 ^ 256 \<Longrightarrow> unat (U_Add U x y) = unat x + unat y"
    "unat x * unat y < 2 ^ 256 \<Longrightarrow> unat (U_Mul U x y) = unat x * unat y"
    "unat (U_Div U x y) = unat x div unat y"
  using assms unat_add_lem [of x y] unat_mult_lem [of x y] by (auto simp: uint256_ok_def unat_div)

lemma sat64_ge: "2 ^ 64 - 1 \<le> n \<Longrightarrow> sat64 n = unat maxUint64"
  by (simp add: sat64_def unat_maxUint64)

lemma price_loop_fake:
  assumes U: "uint256_ok U" and K: "0 < unat K" "unat K < 2 ^ 64" and n: "unat n < 2 ^ 64"
    and M: "unat M = unat K * (2 ^ 64 - 1)" and out: "unat out < unat M"
    and i: "0 < unat i" "unat i \<le> unat out + 1" and acc: "unat acc < 2 ^ 192"
  shows "\<exists>p. price_loop U n K M i out acc = Some p \<and>
    unat p = sat64 (fake_loop (unat n) (unat K) (unat i) (unat out) (unat acc))"
  using out i acc
proof (induction "unat M - unat out" arbitrary: i out acc rule: less_induct)
  case less
  have M128: "unat M < 2 ^ 128"
  proof -
    have "unat K * (2 ^ 64 - 1) < 2 ^ 64 * 2 ^ 64"
      using K by (intro mult_strict_mono) simp_all
    then show ?thesis
      by (simp add: M)
  qed
  show ?case
  proof (cases "acc = 0")
    case True
    have "unat out div unat K < 2 ^ 64 - 1"
      using less.prems(1) K by (simp add: M div_less_iff_less_mult mult.commute)
    moreover have "unat (U_Div U out K) = unat out div unat K"
      by (rule uint256_unat [OF U])
    ultimately have "unat (ucast (U_Div U out K) :: 64 word) = sat64 (unat out div unat K)"
      by (simp add: sat64_def unsigned_ucast_eq take_bit_nat_eq_self)
    then show ?thesis
      using True by (simp add: price_loop.simps [of U n K M i out])
  next
    case False
    define o' where "o' = U_Add U out acc"
    have pos: "0 < unat acc" "0 < acc"
      using False by (auto simp: unat_gt_0 word_gt_0)
    have o': "unat o' = unat out + unat acc"
      unfolding o'_def using less.prems M128 by (intro uint256_unat [OF U]) simp
    show ?thesis
    proof (cases "M \<le> o'")
      case True
      then have "unat K * (2 ^ 64 - 1) \<le> unat out + unat acc"
        using M o' by (simp add: word_le_nat_alt)
      then have "2 ^ 64 - 1 \<le> (unat out + unat acc) div unat K"
        using K by (simp add: less_eq_div_iff_mult_less_eq mult.commute)
      also have "\<dots> \<le> fake_loop (unat n) (unat K) (unat i) (unat out) (unat acc)"
        by (rule fake_loop_ge)
      finally have "sat64 (fake_loop (unat n) (unat K) (unat i) (unat out) (unat acc)) = unat maxUint64"
        by (rule sat64_ge)
      then show ?thesis
        using True pos by (simp add: price_loop.simps [of U n K M i out] o'_def Let_def)
    next
      case False
      define acc' where "acc' = U_Div U (U_Div U (U_Mul U acc n) K) i"
      define i' where "i' = U_Add U i 1"
      have lt: "unat o' < unat M"
        using False by (simp add: word_less_nat_alt not_le)
      have "unat acc * unat n < 2 ^ 128 * 2 ^ 64"
        using lt M128 o' n by (intro mult_strict_mono) simp_all
      then have m: "unat acc * unat n < 2 ^ 192"
        by simp
      then have "unat (U_Mul U acc n) = unat acc * unat n"
        by (intro uint256_unat [OF U]) simp
      then have acc': "unat acc' = unat acc * unat n div (unat K * unat i)"
        by (simp add: acc'_def uint256_unat(3) [OF U] div_mult2_eq)
      have i': "unat i' = Suc (unat i)"
        unfolding i'_def using uint256_unat(1) [OF U, of i 1] less.prems lt M128 o' by simp
      have "unat acc' < 2 ^ 192"
        using m acc' div_le_dividend [of "unat acc * unat n" "unat K * unat i"] by linarith
      moreover have "unat M - unat o' < unat M - unat out" "unat i' \<le> unat o' + 1" "0 < unat i'"
        using pos o' lt i' less.prems by simp_all
      ultimately obtain p where "price_loop U n K M i' o' acc' = Some p"
        "unat p = sat64 (fake_loop (unat n) (unat K) (unat i') (unat o') (unat acc'))"
        using less.hyps lt by blast
      moreover have "price_loop U n K M i out acc = price_loop U n K M i' o' acc'"
        using False pos by (subst price_loop.simps) (simp add: o'_def acc'_def i'_def Let_def)
      ultimately show ?thesis
        using pos by (simp add: fake_loop_pos o' acc' i')
    qed
  qed
qed

lemma unat_ucast_256 [simp]: "unat (ucast (x :: 64 word) :: 256 word) = unat x"
  using unat64_le [of x] by (simp add: unsigned_ucast_eq take_bit_nat_eq_self)

lemma CalculatePrice_fake:
  assumes U: "uint256_ok U" and K: "K \<noteq> 0"
  shows "\<exists>p. CalculatePrice U minPrice excess K = Some p \<and>
    unat p = sat64 (fake_exponential (unat minPrice) (unat excess) (unat K))"
proof -
  have lt: "unat (x :: 64 word) < 2 ^ 64" for x
    using unsigned_less [of x] by simp
  have K0: "0 < unat K"
    using K by (simp add: unat_gt_0)
  have prod: "unat (x :: 64 word) * unat (y :: 64 word) < 2 ^ 64 * 2 ^ 64" for x y
    using lt by (intro mult_strict_mono) simp_all
  have acc: "unat (U_Mul U (ucast minPrice) (ucast K)) = unat minPrice * unat K"
    using uint256_unat(2) [OF U, of "ucast minPrice" "ucast K"] prod [of minPrice K] by simp
  have M: "unat (U_Mul U (ucast K) (ucast maxUint64)) = unat K * (2 ^ 64 - 1)"
    using uint256_unat(2) [OF U, of "ucast K" "ucast maxUint64"] prod [of K maxUint64]
    by (simp add: unat_maxUint64)
  have "\<exists>p. price_loop U (ucast excess) (ucast K) (U_Mul U (ucast K) (ucast maxUint64)) 1 0
      (U_Mul U (ucast minPrice) (ucast K)) = Some p \<and>
    unat p = sat64 (fake_loop (unat (ucast excess :: 256 word)) (unat (ucast K :: 256 word)) (unat (1 :: 256 word))
       (unat (0 :: 256 word)) (unat (U_Mul U (ucast minPrice) (ucast K))))"
    using K0 lt prod [of minPrice K] by (intro price_loop_fake [OF U]) (simp_all add: M acc)
  then show ?thesis
    by (simp add: CalculatePrice_def fake_exponential_def acc Let_def)
qed

definition price_of :: "Price \<Rightarrow> Gas \<Rightarrow> Gas \<Rightarrow> nat" where
  "price_of minPrice excess K = sat64 (fake_exponential (unat minPrice) (unat excess) (unat K))"

lemma CalculatePrice_Some:
  assumes "uint256_ok U" "K \<noteq> 0"
  shows "CalculatePrice U minPrice excess K = Some (of_nat (price_of minPrice excess K)) \<and>
    unat (of_nat (price_of minPrice excess K) :: 64 word) = price_of minPrice excess K"
proof -
  obtain p where "CalculatePrice U minPrice excess K = Some p" "price_of minPrice excess K = unat p"
    using CalculatePrice_fake [OF assms, of minPrice excess] by (auto simp: price_of_def)
  then show ?thesis
    by simp
qed

lemma price_of_ge:
  assumes "K \<noteq> 0"
  shows "unat minPrice \<le> price_of minPrice excess K"
proof -
  have "unat minPrice \<le> fake_exponential (unat minPrice) (unat excess) (unat K)"
    using assms by (intro fake_exponential_ge) (simp add: unat_gt_0)
  then show ?thesis
    using unat64_le [of minPrice] by (simp add: price_of_def sat64_def)
qed

lemma price_of_0:
  assumes "K \<noteq> 0"
  shows "price_of minPrice 0 K = unat minPrice"
  using assms unat64_le [of minPrice]
  by (simp add: price_of_def fake_exponential_0 unat_gt_0 sat64_def)

lemma price_of_mono: "excess \<le> excess' \<Longrightarrow> price_of minPrice excess K \<le> price_of minPrice excess' K"
  using fake_exponential_mono [of "unat excess" "unat excess'" "unat minPrice" "unat K"]
  by (simp add: price_of_def sat64_def word_le_nat_alt)

subsection \<open>Dimensions\<close>

lemma updateAll_Add:
  assumes "length d = length q"
  shows "case updateAll SafeMath.Add d q of
      (d', None) \<Rightarrow> map unat d' = map2 (\<lambda>x y. unat x + unat y) d q
    | (d', Some e) \<Rightarrow> e = ErrOverflow \<and> (\<exists>i < length d. 2 ^ 64 \<le> unat (d ! i) + unat (q ! i))"
  using assms
proof (induction d q rule: list_induct2)
  case (Cons x xs y ys)
  show ?case
  proof (cases "SafeMath.Add x y")
    case (Inl e)
    then show ?thesis
      using Add_InlD [OF Inl] by auto
  next
    case (Inr z)
    then show ?thesis
      using Add_InrD [OF Inr] Cons by (fastforce split: prod.splits option.splits)
  qed
qed simp

lemma updateAll_Sub:
  assumes "length d = length q"
  shows "case updateAll SafeMath.Sub d q of
      (d', None) \<Rightarrow> map unat d' = map2 (\<lambda>x y. unat x - unat y) d q \<and> list_all2 (\<lambda>x y. y \<le> x) d q
    | (d', Some e) \<Rightarrow> e = ErrUnderflow \<and> (\<exists>i < length d. d ! i < q ! i)"
  using assms
proof (induction d q rule: list_induct2)
  case (Cons x xs y ys)
  show ?case
  proof (cases "SafeMath.Sub x y")
    case (Inl e)
    then show ?thesis
      using Sub_InlD [OF Inl] by (auto simp: word_less_nat_alt)
  next
    case (Inr z)
    then show ?thesis
      using Sub_InrD [OF Inr] Cons by (fastforce simp: word_le_nat_alt split: prod.splits option.splits)
  qed
qed simp

lemma toGas_loop_exact:
  assumes "length d = length w"
  shows "case toGas_loop res d w of
      Inr g \<Rightarrow> unat g = unat res + (\<Sum>(x, y)\<leftarrow>zip d w. unat x * unat y)
    | Inl e \<Rightarrow> e = ErrOverflow \<and> 2 ^ 64 \<le> unat res + (\<Sum>(x, y)\<leftarrow>zip d w. unat x * unat y)"
  using assms
proof (induction d w arbitrary: res rule: list_induct2)
  case (Cons x xs y ys)
  show ?case
  proof (cases "SafeMath.Mul x y")
    case (Inl e)
    then show ?thesis
      using Mul_InlD [OF Inl] by simp
  next
    case v: (Inr v)
    note [simp] = Mul_InrD [OF v]
    show ?thesis
    proof (cases "SafeMath.Add res v")
      case (Inl e)
      then show ?thesis
        using v Add_InlD [OF Inl] by simp
    next
      case (Inr r)
      then show ?thesis
        using v Add_InrD [OF Inr] Cons(2) [of r] by (auto split: sum.splits simp: ac_simps)
    qed
  qed
qed simp

subsection \<open>Properties\<close>

definition word256 :: uint256 where
  "word256 = \<lparr>U_Add = (+), U_Mul = (*), U_Div = (div)\<rparr>"

lemma word256_ok: "uint256_ok word256"
  by (simp add: uint256_ok_def word256_def)

text \<open>
  C29.  For a nonzero conversion constant \<open>CalculatePrice\<close> returns, and its result is the EIP-4844
  fake exponential on unbounded integers, capped at \<open>MaxUint64\<close>: no intermediate 256-bit value wraps.
  The price is never below the minimum price, and it is the minimum price at excess 0.  For the
  constant 0 the result is 0.\<close>

theorem CalculatePrice_is_fake_exponential:
  assumes "uint256_ok U" "K \<noteq> 0"
  shows "(\<exists>p. CalculatePrice U minPrice excess K = Some p \<and>
      unat p = min (fake_exponential (unat minPrice) (unat excess) (unat K)) (2 ^ 64 - 1) \<and> minPrice \<le> p) \<and>
    CalculatePrice U minPrice 0 K = Some minPrice \<and> CalculatePrice U minPrice excess 0 = Some 0"
proof (intro conjI)
  show "\<exists>p. CalculatePrice U minPrice excess K = Some p \<and>
      unat p = min (fake_exponential (unat minPrice) (unat excess) (unat K)) (2 ^ 64 - 1) \<and> minPrice \<le> p"
    using CalculatePrice_fake [OF assms, of minPrice excess] price_of_ge [OF assms(2), of minPrice excess]
    by (auto simp: sat64_def price_of_def word_le_nat_alt)
  show "CalculatePrice U minPrice 0 K = Some minPrice"
    using CalculatePrice_Some [OF assms, of minPrice 0] by (simp add: price_of_0 [OF assms(2)])
  show "CalculatePrice U minPrice excess 0 = Some 0"
    using assms(1) by (simp add: CalculatePrice_def Let_def price_loop.simps uint256_ok_def)
qed

theorem CalculatePrice_is_fake_exponential_witness:
  "uint256_ok word256 \<and> (\<exists>p. CalculatePrice word256 1 50 10 = Some p \<and> unat p = min (fake_exponential 1 50 10) (2 ^ 64 - 1))"
  using CalculatePrice_is_fake_exponential [OF word256_ok, of 10 1 50] word256_ok by auto

text \<open>
  C30.  The gas state is exact.  \<open>AdvanceTime\<close> refills the capacity by rate times duration up to the
  maximum and drains the excess by rate times duration down to 0; \<open>ConsumeGas\<close> fails exactly when the capacity
  is too small and otherwise moves the gas from the capacity to the excess, which saturates at \<open>MaxUint64\<close>.\<close>

theorem gas_state_exact:
  "unat (Capacity (AdvanceTime mc mp tp dur s)) = min (unat (Capacity s) + unat mp * unat dur) (unat mc) \<and>
   unat (Excess (AdvanceTime mc mp tp dur s)) = unat (Excess s) - unat tp * unat dur \<and>
   (case ConsumeGas g s of
      Inl e \<Rightarrow> Capacity s < g
    | Inr s' \<Rightarrow> unat (Capacity s') + unat g = unat (Capacity s) \<and>
        unat (Excess s') = min (unat (Excess s) + unat g) (2 ^ 64 - 1))"
proof (intro conjI)
  have "unat (Capacity (AdvanceTime mc mp tp dur s)) = min (sat64 (unat (Capacity s) + unat mp * unat dur)) (unat mc)"
    by (simp add: AdvanceTime_def min_def word_le_nat_alt AddPerSecond_sat)
  then show "unat (Capacity (AdvanceTime mc mp tp dur s)) = min (unat (Capacity s) + unat mp * unat dur) (unat mc)"
    using unat64_le [of mc] by (simp add: sat64_def)
  show "unat (Excess (AdvanceTime mc mp tp dur s)) = unat (Excess s) - unat tp * unat dur"
    by (simp add: AdvanceTime_def SubPerSecond_sat)
  show "case ConsumeGas g s of
      Inl e \<Rightarrow> Capacity s < g
    | Inr s' \<Rightarrow> unat (Capacity s') + unat g = unat (Capacity s) \<and>
        unat (Excess s') = min (unat (Excess s) + unat g) (2 ^ 64 - 1)"
  proof (cases "SafeMath.Sub (Capacity s) g")
    case (Inl e)
    then show ?thesis
      using Sub_InlD [OF Inl] by (simp add: ConsumeGas_def word_less_nat_alt)
  next
    case c: (Inr c)
    then show ?thesis
    proof (cases "SafeMath.Add (Excess s) g")
      case (Inl e)
      then show ?thesis
        using Add_InlD [OF Inl] Sub_InrD [OF c] by (simp add: ConsumeGas_def c unat_maxUint64)
    next
      case (Inr x)
      then show ?thesis
        using Add_InrD [OF Inr] Sub_InrD [OF c] unat64_le [of x] by (simp add: ConsumeGas_def c)
    qed
  qed
qed

text \<open>
  \<open>ToGas\<close> returns the exact weighted sum of the dimensions or reports an overflow exactly when the
  sum does not fit 64 bits, so the gas of a transaction is never under-counted by wrapping.\<close>

theorem ToGas_exact:
  assumes "length d = NumDimensions" "length w = NumDimensions"
  shows "ToGas d w = (let total = \<Sum>(x, y)\<leftarrow>zip d w. unat x * unat y
      in if total < 2 ^ 64 then Inr (of_nat total) else Inl ErrOverflow)"
proof (cases "ToGas d w")
  case (Inl e)
  then show ?thesis
    using toGas_loop_exact [of d w 0] assms by (simp add: ToGas_def)
next
  case (Inr g)
  then have "unat g = (\<Sum>(x, y)\<leftarrow>zip d w. unat x * unat y)"
    using toGas_loop_exact [of d w 0] assms by (simp add: ToGas_def)
  moreover have "g = of_nat (unat g)"
    by simp
  ultimately show ?thesis
    using Inr unat64_le [of g] by (simp add: Let_def)
qed

theorem ToGas_exact_witness: "ToGas [1, 2, 3, 4] [1, 10, 100, 1000] = Inr 4321"
  using ToGas_exact [of "[1, 2, 3, 4]" "[1, 10, 100, 1000]"] by (simp add: NumDimensions_def)

end
