(* ===== verification/ValidatorFee.thy ===== *)
theory ValidatorFee
  imports Gas
begin

text \<open>
  The continuous fee of L1 validators (\<open>src/vms/platformvm/validators/fee/fee.go\<close>): the excess follows the
  number of active validators, the cost of an interval is the sum of the prices of its seconds, and
  \<open>SecondsRemaining\<close> inverts the cost.  \<open>None\<close> as a result stands for a run-time panic (a division by
  zero) or a price that is never computed; the properties rule both out.
\<close>

record fee_Config =
  fc_Capacity :: Gas
  fc_Target :: Gas
  fc_MinPrice :: Price
  fc_ExcessConversionConstant :: Gas

record fee_State =
  f_Current :: Gas
  f_Excess :: Gas

definition fee_AdvanceTime :: "Gas \<Rightarrow> 64 word \<Rightarrow> fee_State \<Rightarrow> fee_State" where
  "fee_AdvanceTime target seconds s =
     (let excess = f_Excess s;
          excess = (if f_Current s < target then SubPerSecond excess (target - f_Current s) seconds
                    else if f_Current s > target then AddPerSecond excess (f_Current s - target) seconds
                    else excess)
      in \<lparr>f_Current = f_Current s, f_Excess = excess\<rparr>)"

text \<open>The loop of \<open>CostOf\<close>; the first argument after the configuration is \<open>seconds - i\<close>.\<close>

fun cost_loop :: "uint256 \<Rightarrow> fee_Config \<Rightarrow> nat \<Rightarrow> fee_State \<Rightarrow> 64 word \<Rightarrow> 64 word option" where
  "cost_loop U c 0 s cost = Some cost"
| "cost_loop U c (Suc n) s cost =
     (let s = fee_AdvanceTime (fc_Target c) 1 s in
      if f_Excess s = 0 then
        (let secondsWithZeroExcess = of_nat (Suc n) in
         case SafeMath.Mul (fc_MinPrice c) secondsWithZeroExcess of
           Inl e \<Rightarrow> Some maxUint64
         | Inr zeroExcessCost \<Rightarrow>
             (case SafeMath.Add cost zeroExcessCost of Inl e \<Rightarrow> Some maxUint64 | Inr cost \<Rightarrow> Some cost))
      else
        (case CalculatePrice U (fc_MinPrice c) (f_Excess s) (fc_ExcessConversionConstant c) of
           None \<Rightarrow> None
         | Some price \<Rightarrow>
             (case SafeMath.Add cost price of Inl e \<Rightarrow> Some maxUint64 | Inr cost \<Rightarrow> cost_loop U c n s cost)))"

definition CostOf :: "uint256 \<Rightarrow> fee_Config \<Rightarrow> 64 word \<Rightarrow> fee_State \<Rightarrow> 64 word option" where
  "CostOf U c seconds s =
     (if f_Current s = fc_Target c then
        (case CalculatePrice U (fc_MinPrice c) (f_Excess s) (fc_ExcessConversionConstant c) of
           None \<Rightarrow> None
         | Some price \<Rightarrow> (case SafeMath.Mul seconds price of Inl e \<Rightarrow> Some maxUint64 | Inr cost \<Rightarrow> Some cost))
      else cost_loop U c (unat seconds) s 0)"

text \<open>The loop of \<open>SecondsRemaining\<close>; the first argument after the configuration is \<open>maxSeconds - seconds\<close>.\<close>

fun remaining_loop :: "uint256 \<Rightarrow> fee_Config \<Rightarrow> nat \<Rightarrow> 64 word \<Rightarrow> 64 word \<Rightarrow> fee_State \<Rightarrow> 64 word \<Rightarrow> 64 word option" where
  "remaining_loop U c 0 maxSeconds seconds s fundsRemaining = Some maxSeconds"
| "remaining_loop U c (Suc n) maxSeconds seconds s fundsRemaining =
     (let s = fee_AdvanceTime (fc_Target c) 1 s in
      if f_Excess s = 0 then
        (let secondsWithZeroExcess = fundsRemaining div fc_MinPrice c in
         case SafeMath.Add seconds secondsWithZeroExcess of
           Inl e \<Rightarrow> Some maxSeconds
         | Inr totalSeconds \<Rightarrow> Some (min totalSeconds maxSeconds))
      else
        (case CalculatePrice U (fc_MinPrice c) (f_Excess s) (fc_ExcessConversionConstant c) of
           None \<Rightarrow> None
         | Some price \<Rightarrow>
             if price > fundsRemaining then Some seconds
             else remaining_loop U c n maxSeconds (seconds + 1) s (fundsRemaining - price)))"

definition SecondsRemaining :: "uint256 \<Rightarrow> fee_Config \<Rightarrow> 64 word \<Rightarrow> 64 word \<Rightarrow> fee_State \<Rightarrow> 64 word option" where
  "SecondsRemaining U c maxSeconds fundsRemaining s =
     (if fc_MinPrice c = 0 then Some maxSeconds
      else if f_Current s = fc_Target c then
        (case CalculatePrice U (fc_MinPrice c) (f_Excess s) (fc_ExcessConversionConstant c) of
           None \<Rightarrow> None
         | Some price \<Rightarrow>
             if price = 0 then None
             else let seconds = fundsRemaining div price in Some (min seconds maxSeconds))
      else remaining_loop U c (unat maxSeconds) maxSeconds 0 s fundsRemaining)"

subsection \<open>The reference cost\<close>

text \<open>The excess after \<open>n\<close> seconds, the price of the \<open>n\<close>-th second and the cost of \<open>n\<close> seconds (ACP-77), in
  unbounded arithmetic but for the saturation of the excess.\<close>

definition excess_after :: "Gas \<Rightarrow> fee_State \<Rightarrow> nat \<Rightarrow> nat" where
  "excess_after target s n =
     (if f_Current s < target then unat (f_Excess s) - (unat target - unat (f_Current s)) * n
      else sat64 (unat (f_Excess s) + (unat (f_Current s) - unat target) * n))"

definition price_at :: "fee_Config \<Rightarrow> fee_State \<Rightarrow> nat \<Rightarrow> nat" where
  "price_at c s n = price_of (fc_MinPrice c) (of_nat (excess_after (fc_Target c) s n)) (fc_ExcessConversionConstant c)"

definition total_cost :: "fee_Config \<Rightarrow> fee_State \<Rightarrow> nat \<Rightarrow> nat" where
  "total_cost c s n = (\<Sum>i\<in>{1..n}. price_at c s i)"

lemma unat_minus: "y \<le> (x :: 64 word) \<Longrightarrow> unat (x - y) = unat x - unat y"
  by (simp add: unat_sub)

lemma fee_AdvanceTime_exact:
  "unat (f_Excess (fee_AdvanceTime target sec s)) = excess_after target s (unat sec) \<and>
   f_Current (fee_AdvanceTime target sec s) = f_Current s"
proof (cases "f_Current s" target rule: linorder_cases)
  case equal
  then show ?thesis
    using unat64_le [of "f_Excess s"] by (simp add: fee_AdvanceTime_def excess_after_def sat64_def)
qed (simp_all add: fee_AdvanceTime_def excess_after_def SubPerSecond_sat AddPerSecond_sat unat_minus)

lemma sat64_add: "sat64 (sat64 a + b) = sat64 (a + b)"
  by (simp add: sat64_def)

lemma excess_after_add:
  "excess_after target (fee_AdvanceTime target sec s) n = excess_after target s (unat sec + n)"
proof (cases "f_Current s < target")
  case True
  then show ?thesis
    using fee_AdvanceTime_exact [of target sec s] by (simp add: excess_after_def distrib_left)
next
  case False
  then show ?thesis
    using fee_AdvanceTime_exact [of target sec s]
    by (simp add: excess_after_def sat64_add distrib_left add.assoc)
qed

lemma excess_after_zero:
  assumes "f_Current s \<noteq> target" "excess_after target s 1 = 0" "0 < n"
  shows "excess_after target s n = 0"
proof (cases "f_Current s < target")
  case True
  have "(unat target - unat (f_Current s)) * 1 \<le> (unat target - unat (f_Current s)) * n"
    using assms(3) by (intro mult_le_mono) simp_all
  moreover have "unat (f_Excess s) \<le> (unat target - unat (f_Current s)) * 1"
    using True assms(2) by (simp add: excess_after_def)
  ultimately have "unat (f_Excess s) \<le> (unat target - unat (f_Current s)) * n"
    by (rule le_trans [rotated])
  then show ?thesis
    using True by (simp add: excess_after_def)
next
  case False
  then have "target < f_Current s"
    using assms(1) by (meson linorder_neqE)
  then have "unat target < unat (f_Current s)"
    by (simp add: word_less_nat_alt)
  then show ?thesis
    using False assms(2) by (simp add: excess_after_def sat64_def)
qed

lemma total_cost_0 [simp]: "total_cost c s 0 = 0"
  by (simp add: total_cost_def)

lemma total_cost_Suc:
  "total_cost c s (Suc n) = price_at c s 1 + total_cost c (fee_AdvanceTime (fc_Target c) 1 s) n"
proof -
  have "total_cost c s (Suc n) = price_at c s 1 + (\<Sum>i\<in>{2..Suc n}. price_at c s i)"
    by (simp add: total_cost_def sum.atLeast_Suc_atMost numeral_2_eq_2)
  also have "(\<Sum>i\<in>{2..Suc n}. price_at c s i) = (\<Sum>i\<in>{1..n}. price_at c s (Suc i))"
    by (rule sum.reindex_bij_witness [of _ Suc "\<lambda>i. i - 1"]) auto
  also have "\<dots> = total_cost c (fee_AdvanceTime (fc_Target c) 1 s) n"
    unfolding total_cost_def by (rule sum.cong) (simp_all add: price_at_def excess_after_add)
  finally show ?thesis .
qed

lemma total_cost_constant:
  assumes "\<And>i. 0 < i \<Longrightarrow> i \<le> n \<Longrightarrow> price_at c s i = p"
  shows "total_cost c s n = n * p"
  unfolding total_cost_def using assms by simp

lemma total_cost_mono: "m \<le> n \<Longrightarrow> total_cost c s m \<le> total_cost c s n"
  unfolding total_cost_def by (rule sum_mono2) auto

lemma total_cost_at_target:
  assumes "f_Current s = fc_Target c"
  shows "total_cost c s n = n * price_of (fc_MinPrice c) (f_Excess s) (fc_ExcessConversionConstant c)"
  using assms unat64_le [of "f_Excess s"]
  by (intro total_cost_constant) (simp add: price_at_def excess_after_def sat64_def)

lemma total_cost_zero_excess:
  assumes "f_Current s \<noteq> fc_Target c" "excess_after (fc_Target c) s 1 = 0" "fc_ExcessConversionConstant c \<noteq> 0"
  shows "total_cost c s n = n * unat (fc_MinPrice c)"
  by (intro total_cost_constant)
    (simp add: price_at_def excess_after_zero [OF assms(1,2)] price_of_0 [OF assms(3)])

lemma price_now:
  assumes "uint256_ok U" "fc_ExcessConversionConstant c \<noteq> 0"
  obtains p where "CalculatePrice U (fc_MinPrice c) (f_Excess (fee_AdvanceTime (fc_Target c) 1 s)) (fc_ExcessConversionConstant c) = Some p"
    "unat p = price_at c s 1"
proof -
  have "f_Excess (fee_AdvanceTime (fc_Target c) 1 s) = of_nat (excess_after (fc_Target c) s 1)"
    using fee_AdvanceTime_exact [of "fc_Target c" 1 s] by (metis unat_1 of_nat_unat ucast_id)
  then show ?thesis
    using CalculatePrice_Some [OF assms] that by (simp add: price_at_def)
qed

lemma f_Current_Advance [simp]: "f_Current (fee_AdvanceTime t sec s) = f_Current s"
  by (simp add: fee_AdvanceTime_exact)

lemma zero_now: "f_Excess (fee_AdvanceTime t 1 s) = 0 \<longleftrightarrow> excess_after t s 1 = 0"
  using fee_AdvanceTime_exact [of t 1 s] by (metis unat_1 unat_eq_0)

lemma sat_Add:
  "\<exists>r. (case SafeMath.Add a b of Inl e \<Rightarrow> Some maxUint64 | Inr x \<Rightarrow> Some x) = Some r \<and> unat r = sat64 (unat a + unat b)"
proof (cases "SafeMath.Add a b")
  case (Inl e)
  then show ?thesis
    using Add_InlD [OF Inl] by (simp add: sat64_def unat_maxUint64)
next
  case (Inr x)
  then show ?thesis
    using Add_InrD [OF Inr] unat64_le [of x] by (simp add: sat64_def)
qed

lemma cost_loop_exact:
  assumes U: "uint256_ok U" and K: "fc_ExcessConversionConstant c \<noteq> 0"
  shows "f_Current s \<noteq> fc_Target c \<Longrightarrow> n < 2 ^ 64 \<Longrightarrow>
    \<exists>r. cost_loop U c n s cost = Some r \<and> unat r = sat64 (unat cost + total_cost c s n)"
proof (induction n arbitrary: s cost)
  case 0
  then show ?case
    using unat64_le [of cost] by (simp add: sat64_def)
next
  case (Suc n)
  let ?s = "fee_AdvanceTime (fc_Target c) 1 s"
  show ?case
  proof (cases "f_Excess ?s = 0")
    case True
    have n: "unat (of_nat (Suc n) :: 64 word) = Suc n"
      using Suc.prems(2) by (simp add: unsigned_of_nat take_bit_nat_eq_self del: of_nat_Suc)
    have total: "total_cost c s (Suc n) = unat (fc_MinPrice c) * Suc n"
      using total_cost_zero_excess [OF Suc.prems(1) _ K] True by (simp add: zero_now mult.commute)
    show ?thesis
    proof (cases "SafeMath.Mul (fc_MinPrice c) (of_nat (Suc n))")
      case (Inl e)
      have "2 ^ 64 \<le> unat (fc_MinPrice c) * Suc n"
        using Mul_InlD [OF Inl] unfolding n by simp
      then show ?thesis
        using True Inl total by (simp add: sat64_def unat_maxUint64 del: of_nat_Suc)
    next
      case (Inr z)
      have "unat z = unat (fc_MinPrice c) * Suc n"
        using Mul_InrD [OF Inr] unfolding n .
      then show ?thesis
        using True Inr total sat_Add [of cost z] by (simp del: of_nat_Suc)
    qed
  next
    case False
    obtain p where p: "CalculatePrice U (fc_MinPrice c) (f_Excess ?s) (fc_ExcessConversionConstant c) = Some p"
      "unat p = price_at c s 1"
      by (rule price_now [OF U K])
    show ?thesis
    proof (cases "SafeMath.Add cost p")
      case (Inl e)
      then show ?thesis
        using False p Add_InlD [OF Inl] by (simp add: total_cost_Suc sat64_def unat_maxUint64)
    next
      case (Inr x)
      then show ?thesis
        using False p Add_InrD [OF Inr] Suc.IH [of ?s x] Suc.prems by (simp add: total_cost_Suc add.assoc)
    qed
  qed
qed

definition longest_paid :: "fee_Config \<Rightarrow> fee_State \<Rightarrow> nat \<Rightarrow> nat \<Rightarrow> nat \<Rightarrow> bool" where
  "longest_paid c s limit funds k \<longleftrightarrow> k \<le> limit \<and> total_cost c s k \<le> funds \<and>
     (k < limit \<longrightarrow> funds < total_cost c s (Suc k))"

lemma longest_paid_constant:
  assumes "\<And>n. total_cost c s n = n * p" "0 < p"
  shows "longest_paid c s limit funds (min (funds div p) limit)"
proof -
  have "funds div p * p \<le> funds"
    by simp
  moreover have "limit * p \<le> funds" if "limit \<le> funds div p"
    using that assms(2) by (simp add: less_eq_div_iff_mult_less_eq)
  moreover have "funds < Suc (funds div p) * p"
    using assms(2) by (metis dividend_less_div_times mult_Suc add.commute)
  ultimately show ?thesis
    using assms(2) by (auto simp: longest_paid_def assms(1) min_def)
qed

lemma longest_paid_step:
  assumes "longest_paid c (fee_AdvanceTime (fc_Target c) 1 s) n (funds - price_at c s 1) k" "price_at c s 1 \<le> funds"
  shows "longest_paid c s (Suc n) funds (Suc k)"
  using assms by (auto simp: longest_paid_def total_cost_Suc)

lemma remaining_zero:
  fixes seconds :: "64 word"
  assumes "unat seconds + n = unat maxSeconds"
  shows "\<exists>r. (case SafeMath.Add seconds z of Inl e \<Rightarrow> Some maxSeconds | Inr t \<Rightarrow> Some (min t maxSeconds)) = Some r \<and>
    unat r = unat seconds + min (unat z) n"
proof (cases "SafeMath.Add seconds z")
  case (Inl e)
  have "2 ^ 64 \<le> unat seconds + unat z"
    using Add_InlD [OF Inl] by simp
  then have "n \<le> unat z"
    using assms unat64_le [of maxSeconds] by linarith
  then show ?thesis
    using Inl assms by simp
next
  case (Inr t)
  have "unat (min t maxSeconds) = min (unat t) (unat maxSeconds)"
    by (simp add: min_def word_le_nat_alt)
  then show ?thesis
    using Inr Add_InrD [OF Inr] assms by simp
qed

lemma remaining_loop_exact:
  assumes U: "uint256_ok U" and K: "fc_ExcessConversionConstant c \<noteq> 0" and mp: "fc_MinPrice c \<noteq> 0"
  shows "f_Current s \<noteq> fc_Target c \<Longrightarrow> unat seconds + n = unat maxSeconds \<Longrightarrow>
    \<exists>r k. remaining_loop U c n maxSeconds seconds s funds = Some r \<and> unat r = unat seconds + k \<and>
      longest_paid c s n (unat funds) k"
proof (induction n arbitrary: s seconds funds)
  case 0
  then show ?case
    by (simp add: longest_paid_def)
next
  case (Suc n)
  let ?s = "fee_AdvanceTime (fc_Target c) 1 s"
  show ?case
  proof (cases "f_Excess ?s = 0")
    case True
    have "total_cost c s m = m * unat (fc_MinPrice c)" for m
      using total_cost_zero_excess [OF Suc.prems(1) _ K] True by (simp add: zero_now)
    then have "longest_paid c s (Suc n) (unat funds) (min (unat funds div unat (fc_MinPrice c)) (Suc n))"
      by (rule longest_paid_constant) (simp add: mp unat_gt_0)
    then show ?thesis
      using True remaining_zero [OF Suc.prems(2), of "funds div fc_MinPrice c"] by (auto simp: unat_div)
  next
    case False
    obtain p where p: "CalculatePrice U (fc_MinPrice c) (f_Excess ?s) (fc_ExcessConversionConstant c) = Some p"
      "unat p = price_at c s 1"
      by (rule price_now [OF U K])
    show ?thesis
    proof (cases "funds < p")
      case True
      then show ?thesis
        using False p by (intro exI [of _ seconds] exI [of _ 0])
          (simp add: longest_paid_def total_cost_Suc word_less_nat_alt)
    next
      case le: False
      have "unat (seconds + 1) = Suc (unat seconds)"
        using Suc.prems(2) unat64_le [of maxSeconds] unat_add_lem [of seconds 1] by simp
      then obtain r k where r: "remaining_loop U c n maxSeconds (seconds + 1) ?s (funds - p) = Some r"
        "unat r = unat (seconds + 1) + k" "longest_paid c ?s n (unat (funds - p)) k"
        using Suc.IH [of ?s "seconds + 1" "funds - p"] Suc.prems by auto
      have "longest_paid c s (Suc n) (unat funds) (Suc k)"
        using r(3) le p(2) by (intro longest_paid_step) (simp_all add: unat_minus not_less word_le_nat_alt)
      then show ?thesis
        using False le p(1) r \<open>unat (seconds + 1) = Suc (unat seconds)\<close>
        by (intro exI [of _ r] exI [of _ "Suc k"]) simp
    qed
  qed
qed

lemma CostOf_exact:
  assumes "uint256_ok U" "fc_ExcessConversionConstant c \<noteq> 0"
  shows "\<exists>r. CostOf U c seconds s = Some r \<and> unat r = sat64 (total_cost c s (unat seconds))"
proof (cases "f_Current s = fc_Target c")
  case True
  let ?p = "of_nat (price_of (fc_MinPrice c) (f_Excess s) (fc_ExcessConversionConstant c)) :: 64 word"
  note p = CalculatePrice_Some [OF assms, of "fc_MinPrice c" "f_Excess s"]
  show ?thesis
  proof (cases "SafeMath.Mul seconds ?p")
    case (Inl e)
    then show ?thesis
      using True p Mul_InlD [OF Inl] total_cost_at_target [OF True, of "unat seconds"]
      by (simp add: CostOf_def unat_maxUint64 sat64_def)
  next
    case (Inr r)
    then show ?thesis
      using True p Mul_InrD [OF Inr] total_cost_at_target [OF True, of "unat seconds"] unat64_le [of r]
      by (simp add: CostOf_def sat64_def)
  qed
next
  case False
  then show ?thesis
    using cost_loop_exact [OF assms False, of "unat seconds" 0] unat64_le [of seconds]
    by (simp add: CostOf_def)
qed

subsection \<open>Properties\<close>

text \<open>
  C27.  \<open>CostOf\<close> returns the sum over the interval of the price of each second, capped at \<open>MaxUint64\<close>:
  neither the shortcut for an excess that has reached 0 nor the one for a constant price changes the
  result, and advancing the time in two parts is the same as advancing it at once.\<close>

theorem CostOf_sums_prices:
  assumes "uint256_ok U" "fc_ExcessConversionConstant c \<noteq> 0"
  shows "(\<exists>r. CostOf U c seconds s = Some r \<and> unat r = min (total_cost c s (unat seconds)) (2 ^ 64 - 1)) \<and>
    excess_after (fc_Target c) (fee_AdvanceTime (fc_Target c) t s) n = excess_after (fc_Target c) s (unat t + n)"
  using CostOf_exact [OF assms] by (simp add: sat64_def excess_after_add)

definition fee_config :: fee_Config where
  "fee_config = \<lparr>fc_Capacity = 20000, fc_Target = 10000, fc_MinPrice = 512, fc_ExcessConversionConstant = 1246488515\<rparr>"

definition fee_state :: fee_State where
  "fee_state = \<lparr>f_Current = 10, f_Excess = 30000\<rparr>"

theorem CostOf_sums_prices_witness:
  "\<exists>r. CostOf word256 fee_config 3600 fee_state = Some r \<and>
     unat r = min (total_cost fee_config fee_state 3600) (2 ^ 64 - 1)"
  using CostOf_sums_prices [OF word256_ok, of fee_config 3600 fee_state] by (simp add: fee_config_def)

text \<open>
  C26.  With a nonzero minimum price and conversion constant \<open>SecondsRemaining\<close> returns the longest time
  up to the limit that the funds pay for: the cost of that many seconds is within the funds, and of one more
  second, if the limit allows it, it is not.  \<open>CostOf\<close> of the result is therefore within the funds.\<close>

theorem SecondsRemaining_is_longest:
  assumes "uint256_ok U" "fc_ExcessConversionConstant c \<noteq> 0" "fc_MinPrice c \<noteq> 0"
  shows "\<exists>r cost. SecondsRemaining U c maxSeconds funds s = Some r \<and> r \<le> maxSeconds \<and>
    total_cost c s (unat r) \<le> unat funds \<and> (r < maxSeconds \<longrightarrow> unat funds < total_cost c s (unat r + 1)) \<and>
    CostOf U c r s = Some cost \<and> cost \<le> funds"
proof -
  have "\<exists>r. SecondsRemaining U c maxSeconds funds s = Some r \<and> longest_paid c s (unat maxSeconds) (unat funds) (unat r)"
  proof (cases "f_Current s = fc_Target c")
    case True
    let ?n = "price_of (fc_MinPrice c) (f_Excess s) (fc_ExcessConversionConstant c)"
    have pos: "0 < ?n"
      using price_of_ge [OF assms(2), of "fc_MinPrice c" "f_Excess s"] assms(3) unat_eq_0 [of "fc_MinPrice c"] by linarith
    note p = CalculatePrice_Some [OF assms(1,2), of "fc_MinPrice c" "f_Excess s"]
    then have "(of_nat ?n :: 64 word) \<noteq> 0"
      using pos by (metis unat_0 less_irrefl)
    then have "SecondsRemaining U c maxSeconds funds s = Some (min (funds div of_nat ?n) maxSeconds)"
      using True p assms(3) by (simp add: SecondsRemaining_def Let_def)
    moreover have "unat (min (funds div of_nat ?n) maxSeconds) = min (unat funds div ?n) (unat maxSeconds)"
      using p by (simp add: min_def word_le_nat_alt unat_div)
    ultimately show ?thesis
      using longest_paid_constant [OF total_cost_at_target [OF True] pos] by simp
  next
    case False
    then show ?thesis
      using remaining_loop_exact [OF assms False, of 0 "unat maxSeconds" maxSeconds funds] assms(3)
      by (auto simp: SecondsRemaining_def)
  qed
  then obtain r where r: "SecondsRemaining U c maxSeconds funds s = Some r"
    "longest_paid c s (unat maxSeconds) (unat funds) (unat r)"
    by auto
  obtain cost where "CostOf U c r s = Some cost" "unat cost = sat64 (total_cost c s (unat r))"
    using CostOf_exact [OF assms(1,2)] by blast
  then show ?thesis
    using r by (auto simp: longest_paid_def word_le_nat_alt word_less_nat_alt sat64_def)
qed

theorem SecondsRemaining_is_longest_witness:
  "\<exists>r cost. SecondsRemaining word256 fee_config 86400 5000000 fee_state = Some r \<and> r \<le> 86400 \<and>
     total_cost fee_config fee_state (unat r) \<le> 5000000 \<and>
     CostOf word256 fee_config r fee_state = Some cost \<and> cost \<le> 5000000"
  using SecondsRemaining_is_longest [OF word256_ok, of fee_config 86400 5000000 fee_state]
  by (auto simp: fee_config_def)

text \<open>
  C28.  The guard of \<open>SecondsRemaining\<close> does not exclude every division by zero: with a conversion constant of 0 the
  price is 0 whatever the minimum price, and when the number of validators is at the target the
  function divides by it and panics.\<close>

theorem SecondsRemaining_divides_by_zero:
  assumes "uint256_ok U" "fc_ExcessConversionConstant c = 0" "fc_MinPrice c \<noteq> 0" "f_Current s = fc_Target c"
  shows "SecondsRemaining U c maxSeconds funds s = None"
  using assms by (simp add: SecondsRemaining_def CalculatePrice_def Let_def price_loop.simps uint256_ok_def)

theorem SecondsRemaining_divides_by_zero_witness:
  "SecondsRemaining word256 (fee_config\<lparr>fc_ExcessConversionConstant := 0\<rparr>) 86400 5000000 (fee_state\<lparr>f_Current := 10000\<rparr>) = None"
  by (rule SecondsRemaining_divides_by_zero [OF word256_ok]) (simp_all add: fee_config_def fee_state_def)

end
