(* ===== verification/Reward.thy ===== *)
theory Reward
  imports SafeMath
begin

text \<open>
  Staking rewards (\<open>src/vms/platformvm/reward\<close>): the reward of a staking period, computed in
  big integers, and the split of an amount by a share.  A \<open>time.Duration\<close> is given as its 64 bits; \<open>None\<close> is
  the panic of a big-integer division by zero.
\<close>

definition PercentDenominator :: nat where
  "PercentDenominator = 1000000"

definition consumptionRateDenominator :: int where
  "consumptionRateDenominator = int PercentDenominator"

record reward_Config =
  MaxConsumptionRate :: "64 word"
  MinConsumptionRate :: "64 word"
  MintingPeriod :: "64 word"
  SupplyCap :: "64 word"

record calculator =
  maxSubMinConsumptionRate :: int
  minConsumptionRate :: int
  mintingPeriod :: int
  supplyCap :: "64 word"

definition NewCalculator :: "reward_Config \<Rightarrow> calculator" where
  "NewCalculator c =
     \<lparr>maxSubMinConsumptionRate = uint (MaxConsumptionRate c - MinConsumptionRate c),
      minConsumptionRate = uint (MinConsumptionRate c),
      mintingPeriod = uint (MintingPeriod c),
      supplyCap = SupplyCap c\<rparr>"

text \<open>\<open>big.Int.Div\<close>: Euclidean division, a panic for the divisor 0.\<close>

definition big_Div :: "int \<Rightarrow> int \<Rightarrow> int option" where
  "big_Div x y = (if y = 0 then None else Some (x div y))"

definition Calculate :: "64 word \<Rightarrow> 64 word \<Rightarrow> 64 word \<Rightarrow> calculator \<Rightarrow> 64 word option" where
  "Calculate stakedDuration stakedAmount currentSupply c =
     (let bigStakedDuration = uint stakedDuration;
          bigStakedAmount = uint stakedAmount;
          bigCurrentSupply = uint currentSupply;
          adjustedConsumptionRateNumerator = maxSubMinConsumptionRate c * bigStakedDuration;
          adjustedMinConsumptionRateNumerator = minConsumptionRate c * mintingPeriod c;
          adjustedConsumptionRateNumerator = adjustedConsumptionRateNumerator + adjustedMinConsumptionRateNumerator;
          adjustedConsumptionRateDenominator = mintingPeriod c * consumptionRateDenominator;
          remainingSupply = supplyCap c - currentSupply;
          reward = uint remainingSupply;
          reward = reward * adjustedConsumptionRateNumerator;
          reward = reward * bigStakedAmount;
          reward = reward * bigStakedDuration
      in Option.bind (big_Div reward adjustedConsumptionRateDenominator) (\<lambda>reward.
         Option.bind (big_Div reward bigCurrentSupply) (\<lambda>reward.
         Option.bind (big_Div reward (mintingPeriod c)) (\<lambda>reward.
           if \<not> (0 \<le> reward \<and> reward < 2 ^ 64) then Some remainingSupply
           else let finalReward = word_of_int reward in Some (min remainingSupply finalReward)))))"

definition reward_Split :: "64 word \<Rightarrow> 32 word \<Rightarrow> 64 word \<times> 64 word" where
  "reward_Split totalAmount shares =
     (let remainderShares = of_nat PercentDenominator - ucast shares;
          remainderAmount = remainderShares * (totalAmount div of_nat PercentDenominator);
          remainderAmount =
            (case SafeMath.Mul remainderShares totalAmount of
               Inr optimisticReward \<Rightarrow> optimisticReward div of_nat PercentDenominator
             | Inl e \<Rightarrow> remainderAmount);
          amountFromShares = totalAmount - remainderAmount
      in (amountFromShares, remainderAmount))"

subsection \<open>The formula\<close>

text \<open>The reward before the cap, with one division in place of three.\<close>

definition raw_reward :: "64 word \<Rightarrow> 64 word \<Rightarrow> 64 word \<Rightarrow> calculator \<Rightarrow> int" where
  "raw_reward dur amount supply c =
     (uint (supplyCap c - supply) * (maxSubMinConsumptionRate c * uint dur + minConsumptionRate c * mintingPeriod c) *
        uint amount * uint dur) div (mintingPeriod c * int PercentDenominator * uint supply * mintingPeriod c)"

lemma uint_pos: "(x :: 'a::len word) \<noteq> 0 \<Longrightarrow> 0 < uint x"
  using uint_ge_0 [of x] by (simp add: order_less_le unsigned_eq_0_iff)

lemma Calculate_formula:
  assumes "c = NewCalculator cfg" "MintingPeriod cfg \<noteq> 0" "supply \<noteq> 0"
  shows "\<exists>r. Calculate dur amount supply c = Some r \<and>
    uint r = min (uint (supplyCap c - supply)) (raw_reward dur amount supply c) \<and> 0 \<le> raw_reward dur amount supply c"
proof -
  let ?rem = "supplyCap c - supply" and ?raw = "raw_reward dur amount supply c"
  have pos: "0 < mintingPeriod c" "0 < uint supply"
    using assms by (simp_all add: NewCalculator_def uint_pos)
  have nonneg: "0 \<le> ?raw"
    unfolding raw_reward_def using pos assms(1)
    by (intro pos_imp_zdiv_nonneg_iff [THEN iffD2] mult_nonneg_nonneg add_nonneg_nonneg mult_pos_pos)
      (simp_all add: NewCalculator_def PercentDenominator_def)
  have "Calculate dur amount supply c =
      (if \<not> (0 \<le> ?raw \<and> ?raw < 2 ^ 64) then Some ?rem else Some (min ?rem (word_of_int ?raw)))"
    using pos unfolding Calculate_def Let_def big_Div_def consumptionRateDenominator_def raw_reward_def
    by (simp add: zdiv_zmult2_eq PercentDenominator_def)
  moreover have "uint ?rem < 2 ^ 64"
    using uint_lt2p [of ?rem] by simp
  moreover have "uint (min ?rem (word_of_int ?raw)) = min (uint ?rem) ?raw" if "?raw < 2 ^ 64"
    using that nonneg by (simp add: min_def word_le_def uint_word_of_int)
  ultimately show ?thesis
    using nonneg by auto
qed

lemma div_mono_nonneg: "a \<le> b \<Longrightarrow> 0 \<le> (d :: int) \<Longrightarrow> a div d \<le> b div d"
  by (cases "d = 0") (auto intro: zdiv_mono1)

lemma raw_reward_mono:
  assumes "c = NewCalculator cfg" "amount \<le> amount'"
  shows "raw_reward dur amount supply c \<le> raw_reward dur amount' supply c"
proof -
  let ?rate = "uint (supplyCap c - supply) * (maxSubMinConsumptionRate c * uint dur + minConsumptionRate c * mintingPeriod c)"
  let ?den = "mintingPeriod c * int PercentDenominator * uint supply * mintingPeriod c"
  have nonneg: "0 \<le> mintingPeriod c" "0 \<le> maxSubMinConsumptionRate c" "0 \<le> minConsumptionRate c"
    by (simp_all add: assms(1) NewCalculator_def)
  have "0 \<le> ?rate"
    using nonneg by (intro mult_nonneg_nonneg add_nonneg_nonneg) simp_all
  moreover have "uint amount \<le> uint amount'"
    using assms(2) by (simp add: word_le_def)
  ultimately have "?rate * uint amount * uint dur \<le> ?rate * uint amount' * uint dur"
    by (intro mult_right_mono mult_left_mono) simp_all
  moreover have "0 \<le> ?den"
    using nonneg by (intro mult_nonneg_nonneg) simp_all
  ultimately show ?thesis
    unfolding raw_reward_def by (rule div_mono_nonneg)
qed

lemma Percent_word [simp]: "unat (of_nat PercentDenominator :: 64 word) = PercentDenominator"
  by (simp add: PercentDenominator_def)

lemma Percent_pos [simp]: "0 < PercentDenominator"
  by (simp add: PercentDenominator_def)

lemma floor_split: "(m * t) div d \<le> m * (t div d) + m \<and> m * (t div d) \<le> (m * t) div (d :: nat)"
proof (cases "d = 0")
  case False
  have "m * t = m * (t mod d) + m * (t div d) * d"
    by (metis add.commute div_mult_mod_eq distrib_left mult.assoc)
  then have "(m * t) div d = m * (t mod d) div d + m * (t div d)"
    using False by (simp add: div_mult_self1)
  moreover have "m * (t mod d) div d \<le> m * d div d"
    using False by (intro div_le_mono mult_le_mono) simp_all
  ultimately show ?thesis
    using False by simp
qed simp

subsection \<open>Properties\<close>

text \<open>
  C31.  \<open>Calculate\<close> panics exactly when the minting period or the current supply is 0.  Otherwise the reward is the
  formula of the comment, rounded down once, and never more than what is left of the supply: a chain
  within its supply cap stays within it.  A larger stake never earns less.\<close>

theorem Calculate_within_supply_cap:
  assumes "supply \<le> SupplyCap cfg" "amount \<le> amount'"
  shows "case Calculate dur amount supply (NewCalculator cfg) of
      None \<Rightarrow> MintingPeriod cfg = 0 \<or> supply = 0
    | Some r \<Rightarrow> MintingPeriod cfg \<noteq> 0 \<and> supply \<noteq> 0 \<and>
        uint r = min (uint (SupplyCap cfg) - uint supply) (raw_reward dur amount supply (NewCalculator cfg)) \<and>
        uint supply + uint r \<le> uint (SupplyCap cfg) \<and>
        (\<exists>r'. Calculate dur amount' supply (NewCalculator cfg) = Some r' \<and> r \<le> r')"
proof (cases "MintingPeriod cfg = 0 \<or> supply = 0")
  case True
  then have "Calculate dur amount supply (NewCalculator cfg) = None"
    by (auto simp: Calculate_def big_Div_def NewCalculator_def Let_def PercentDenominator_def
        consumptionRateDenominator_def split: bind_split)
  then show ?thesis
    using True by simp
next
  case False
  let ?c = "NewCalculator cfg"
  have rem: "uint (supplyCap ?c - supply) = uint (SupplyCap cfg) - uint supply"
    using assms(1) by (simp add: NewCalculator_def uint_minus_simple_alt)
  obtain r r' where r: "Calculate dur amount supply ?c = Some r"
      "uint r = min (uint (supplyCap ?c - supply)) (raw_reward dur amount supply ?c)"
    and r': "Calculate dur amount' supply ?c = Some r'"
      "uint r' = min (uint (supplyCap ?c - supply)) (raw_reward dur amount' supply ?c)"
    using Calculate_formula [of ?c cfg "supply" dur amount] Calculate_formula [of ?c cfg "supply" dur amount'] False
    by auto
  have "r \<le> r'"
    using raw_reward_mono [OF refl assms(2), of dur "supply" cfg] r(2) r'(2) by (simp add: word_le_def)
  then show ?thesis
    using False r r'(1) rem by simp
qed

theorem Calculate_within_supply_cap_witness:
  "case Calculate 31536000 1000 500000 (NewCalculator \<lparr>MaxConsumptionRate = 120000, MinConsumptionRate = 100000,
      MintingPeriod = 31536000, SupplyCap = 720000\<rparr>) of
      None \<Rightarrow> False
    | Some r \<Rightarrow> 500000 + uint r \<le> 720000"
  using Calculate_within_supply_cap [of 500000 "\<lparr>MaxConsumptionRate = 120000, MinConsumptionRate = 100000,
      MintingPeriod = 31536000, SupplyCap = 720000\<rparr>" 1000 1000 31536000]
  by (auto split: option.splits)

text \<open>
  C32.  For a share of at most 100 percent \<open>Split\<close> divides the amount without loss: the two parts add up to it,
  the remainder is the exact percentage rounded down when the product fits 64 bits, and otherwise
  below it by at most \<open>PercentDenominator\<close>.\<close>

theorem Split_exact:
  assumes "unat shares \<le> PercentDenominator" "reward_Split amount shares = (fromShares, remainder)"
  shows "unat fromShares + unat remainder = unat amount \<and>
    (let exact = (PercentDenominator - unat shares) * unat amount div PercentDenominator
     in unat remainder \<le> exact \<and> exact \<le> unat remainder + PercentDenominator \<and>
        ((PercentDenominator - unat shares) * unat amount < 2 ^ 64 \<longrightarrow> unat remainder = exact))"
proof -
  let ?D = PercentDenominator
  define m :: "64 word" where "m = of_nat ?D - ucast shares"
  have sh: "unat (ucast shares :: 64 word) = unat shares"
    using unat_lt_pow [of shares] by (simp add: unsigned_ucast_eq take_bit_nat_eq_self)
  have m: "unat m = ?D - unat shares"
    using assms(1) sh by (simp add: m_def unat_sub word_le_nat_alt)
  have rem: "unat remainder \<le> unat m * unat amount div ?D \<and> unat m * unat amount div ?D \<le> unat remainder + ?D \<and>
    (unat m * unat amount < 2 ^ 64 \<longrightarrow> unat remainder = unat m * unat amount div ?D)"
  proof (cases "SafeMath.Mul m amount")
    case (Inr x)
    then have "remainder = x div of_nat ?D"
      using assms(2) by (simp add: reward_Split_def Let_def m_def)
    then show ?thesis
      using Mul_InrD [OF Inr] by (simp add: unat_div)
  next
    case (Inl e)
    then have "remainder = m * (amount div of_nat ?D)"
      using assms(2) by (simp add: reward_Split_def Let_def m_def)
    moreover have "unat m * (unat amount div ?D) \<le> unat amount"
    proof -
      have "unat m * (unat amount div ?D) \<le> ?D * (unat amount div ?D)"
        using m by (intro mult_le_mono) simp_all
      then show ?thesis
        using times_div_less_eq_dividend [of ?D "unat amount"] by linarith
    qed
    then have "unat (m * (amount div of_nat ?D)) = unat m * (unat amount div ?D)"
      using unat_mult_lem [of m "amount div of_nat ?D"] unat_lt_pow [of amount] by (simp add: unat_div)
    moreover have "unat m \<le> ?D"
      using m by simp
    ultimately show ?thesis
      using floor_split [of "unat m" "unat amount" ?D] Mul_InlD [OF Inl] by simp
  qed
  moreover have "unat m * unat amount div ?D \<le> unat amount"
  proof -
    have "unat m * unat amount div ?D \<le> ?D * unat amount div ?D"
      using m by (intro div_le_mono mult_le_mono) simp_all
    then show ?thesis
      by simp
  qed
  moreover have "fromShares = amount - remainder"
    using assms(2) by (auto simp: reward_Split_def Let_def)
  ultimately show ?thesis
    unfolding m [symmetric] by (simp add: unat_sub word_le_nat_alt Let_def)
qed

theorem Split_exact_witness: "reward_Split 1001 20000 = (21, 980) \<and> (21::nat) + 980 = 1001"
proof -
  have "reward_Split 1001 20000 = (21, 980)"
    by (simp add: reward_Split_def Mul_cases PercentDenominator_def Let_def)
  then show ?thesis
    using Split_exact [of 20000 1001 21 980] by (simp add: PercentDenominator_def)
qed

end
