(* ===== verification/Spec2Isabelle.thy ===== *)
theory Spec2Isabelle
  imports SafeMath TopologicalPoll Poll AncestorTree Scheduler BootstrapPoll VersionDB IntervalTree ValidatorFee Reward
begin

text \<open>
  A verification development for the node of a Snowman blockchain network written in Go (\<open>src/\<close>).  It covers the
  consensus core, the storage it bootstraps into, and the fee and reward arithmetic of the platform chain.

  \<^bold>\<open>How the parts interact.\<close>  A node samples validators and asks them for their preferred block; the answers to one
  sample form a poll (\<open>snow/consensus/snowman/poll\<close>).  A finished poll is a bag of votes, which the chain
  consensus hands to snowball trees (\<open>snow/consensus/snowball/tree.go\<close>), one for each block with children; a tree decides
  between the bits of block identifiers by binary and unary snowball or snowflake instances.  While a node joins the network
  it polls for accepted blocks (\<open>bootstrapper\<close>) and stores the blocks below them by height, in a tree of intervals written
  through to a key-value database (\<open>bootstrap/interval\<close>), normally a versioned database over a physical one
  (\<open>database/versiondb\<close>).  The engine tracks partially known ancestries (\<open>ancestor\<close>) and postpones blocks until their
  dependencies are there (\<open>job\<close>).

  \<^bold>\<open>Theories.\<close>

  \<^item> \<open>Prelude\<close>: Go maps as association lists with distinct keys, sets as lists without repetitions, pairs for \<open>[2]T\<close>,
    truncated division.
  \<^item> \<open>Ids\<close> (\<open>ids/bits.go\<close>, \<open>ids/id.go\<close>): identifiers as 256-bit words.  The byte-mask code of \<open>EqualSubset\<close> and
    \<open>FirstDifferenceSubset\<close> is related to the bits it is meant to compare.
  \<^item> \<open>SafeMath\<close> (\<open>utils/math/safe_math.go\<close>): checked arithmetic is exact or reports the overflow.
  \<^item> \<open>Bag\<close> (\<open>utils/bag/bag.go\<close>): a bag refines a multiset; the locale \<open>vote_bag\<close> is the interface the trees use.
  \<^item> \<open>Snowflake\<close> (\<open>parameters.go\<close>, \<open>factory.go\<close>, the unary, binary and n-ary instances): decisions are final and are reached by
    runs of confident polls; accepted parameters are majorities.
  \<^item> \<open>SnowTree\<close> (\<open>tree.go\<close>): the patricia tree of instances.  Invariants of every reachable tree, finality, monotone decided
    prefixes, what \<open>Add\<close> adds, and progress.
  \<^item> \<open>LinkedList\<close>, \<open>LinkedHashmap\<close> (\<open>utils/linked\<close>): pointer structures in an explicit store, refining lists and ordered
    association lists; the locale \<open>ordered_map\<close>.
  \<^item> \<open>Poll\<close> (\<open>snowman/poll\<close>): the vote graph, prefix groups, early termination and the queue of polls.
  \<^item> \<open>AncestorTree\<close> (\<open>engine/snowman/ancestor\<close>) and \<open>Scheduler\<close> (\<open>engine/snowman/job\<close>): ancestor walks end; jobs run exactly once, when
    everything they wait for is resolved, under every interleaving of re-entrant calls.
  \<^item> \<open>BootstrapPoll\<close> (\<open>snowman/bootstrapper\<close>): the locale \<open>bootstrap_poll\<close> and its two interpretations, the majority and the
    minority poll.
  \<^item> \<open>DbHelpers\<close>, \<open>Database\<close>, \<open>VersionDB\<close> (\<open>database\<close>): integer encodings; the locale \<open>kv_database\<close> is the contract of
    \<open>database.Database\<close>; the in-memory database meets it, and a versioned database over one that meets it meets it again.
  \<^item> \<open>IntervalTree\<close> (\<open>bootstrap/interval\<close>): over any such database the interval tree implements a map from heights to blocks and
    survives a restart.
  \<^item> \<open>Gas\<close>, \<open>ValidatorFee\<close>, \<open>Reward\<close> (\<open>vms/components/gas\<close>, \<open>vms/platformvm/validators/fee\<close>, \<open>vms/platformvm/reward\<close>): prices, costs and
    rewards equal their mathematical definitions within the stated bounds.

  \<^bold>\<open>Conventions.\<close>  A struct is a record, a method a function from the old to the new record; a nil dereference or a panic is
  \<open>None\<close>, an error is a value of a sum or option type.  \<open>uint64\<close> is a 64-bit word; Go's \<open>int\<close> is an integer where it counts
  polls or votes.  Logging and metrics are left out.  Code outside \<open>src/\<close> is an argument: the B-tree of \<open>google/btree\<close>
  (\<open>btree_ok\<close>), the 256-bit integers of \<open>holiman/uint256\<close> (\<open>uint256_ok\<close>), the order in which a Go set is popped.

  \<^bold>\<open>Bounds and fuel.\<close>  There is no fuel in the model.  Loops whose end depends on the data are \<open>partial_function\<close>s over
  \<open>option\<close> (\<open>GetAncestor\<close>, \<open>intervals_loop\<close>), shown to return on all reachable data, or \<open>function\<close>s with a
  termination proof.  Only the driver \<open>it_collect\<close> that reads an iterator has a bound, and it is shown to suffice once
  it exceeds the number of entries.

  \<^bold>\<open>Not modelled.\<close>  Networking, peers and message codecs, the virtual machines apart from the fee and reward arithmetic,
  the wallet, the node and chain managers, configuration, RPC services, merkle and on-disk databases and the command line tools:
  most of this is input and output, generated code, or calls into libraries that are not part of the repository.
\<close>

end
